(* ===== verification/Prelude.thy ===== *)
theory Prelude
  imports Main "HOL-Library.Word"
begin

unbundle bit_operations_syntax

section \<open>Prelude: bytes, memory faults, C integers\<close>

text \<open>
  What every component theory shares: the type of bytes and of addresses, the faults that
  the C abstract machine leaves undefined (each is an explicit value here), sequencing of
  fallible steps, reads and writes of a memory block, the C integer conversions that the
  sources rely on, and the big-endian byte order of the NSQ wire format.
\<close>

type_synonym byte = "8 word"
type_synonym ptr = nat

text \<open>
  A fault is a place where the C program has no defined behaviour (or never comes back).
  A model function that can fault returns a sum: \<open>Inl\<close> the fault, \<open>Inr\<close> the result.
\<close>

datatype fault =
    Out_of_bounds
  | Use_after_free
  | Double_free
  | Null_deref
  | Uninitialised
  | Diverges
  | Int_overflow
  | Assertion_failed

named_theorems wire_simps \<open>equations that evaluate the wire format\<close>

subsection \<open>Sequencing\<close>

fun bind_res :: "fault + 'a \<Rightarrow> ('a \<Rightarrow> fault + 'b) \<Rightarrow> fault + 'b" where
  "bind_res (Inl e) f = Inl e"
| "bind_res (Inr x) f = f x"

lemma bind_res_Inr_iff:
  "bind_res m f = Inr y \<longleftrightarrow> (\<exists>x. m = Inr x \<and> f x = Inr y)"
  by (cases m) auto

lemma bind_res_Inl_iff:
  "bind_res m f = Inl e \<longleftrightarrow> m = Inl e \<or> (\<exists>x. m = Inr x \<and> f x = Inl e)"
  by (cases m) auto

lemma bind_res_assoc: "bind_res (bind_res m f) g = bind_res m (\<lambda>x. bind_res (f x) g)"
  by (cases m) auto

lemma bind_res_cong: "m = m' \<Longrightarrow> (\<And>x. m' = Inr x \<Longrightarrow> f x = g x) \<Longrightarrow> bind_res m f = bind_res m' g"
  by (cases m) auto

lemma bind_res_Inr_right [simp]: "bind_res m Inr = m"
  by (cases m) auto

text \<open>A block of statements: each one runs in the state the previous one left.\<close>

fun block :: "('s \<Rightarrow> fault + 's) list \<Rightarrow> 's \<Rightarrow> fault + 's" where
  "block [] s = Inr s"
| "block (f # fs) s = bind_res (f s) (block fs)"

lemma block_Nil: "block [] = Inr"
  by (simp add: fun_eq_iff)

lemma block_single [simp]: "block [f] = f"
  by (simp add: fun_eq_iff block_Nil)

lemma block_append: "block (fs @ gs) s = bind_res (block fs s) (block gs)"
  by (induction fs arbitrary: s) (simp_all add: bind_res_assoc cong: bind_res_cong)

subsection \<open>Memory blocks\<close>

text \<open>
  A block from \<^verbatim>\<open>malloc\<close> is the list of its bytes; an access outside it is a fault.
\<close>

definition mem_read :: "byte list \<Rightarrow> nat \<Rightarrow> nat \<Rightarrow> fault + byte list" where
  "mem_read m p n =
     (if p + n \<le> length m then Inr (take n (drop p m)) else Inl Out_of_bounds)"

definition mem_write :: "byte list \<Rightarrow> nat \<Rightarrow> byte list \<Rightarrow> fault + byte list" where
  "mem_write m p bs =
     (if p + length bs \<le> length m
      then Inr (take p m @ bs @ drop (p + length bs) m) else Inl Out_of_bounds)"

text \<open>What \<^verbatim>\<open>malloc\<close> left in a fresh block is not determined: it is the argument \<open>junk\<close>.\<close>

definition malloc_block :: "(nat \<Rightarrow> byte) \<Rightarrow> nat \<Rightarrow> byte list" where
  "malloc_block junk n = map junk [0..<n]"

definition realloc_block :: "(nat \<Rightarrow> byte) \<Rightarrow> byte list \<Rightarrow> nat \<Rightarrow> byte list" where
  "realloc_block junk m n = take n m @ map junk [length m..<n]"

lemma length_malloc_block [simp]: "length (malloc_block junk n) = n"
  by (simp add: malloc_block_def)

lemma length_realloc_block [simp]: "length (realloc_block junk m n) = n"
  by (simp add: realloc_block_def min_def)

lemma realloc_block_prefix: "length m \<le> n \<Longrightarrow> take (length m) (realloc_block junk m n) = m"
  by (simp add: realloc_block_def)

lemma mem_read_length: "mem_read m p n = Inr bs \<Longrightarrow> length bs = n"
  by (auto simp: mem_read_def split: if_splits)

text \<open>Reading part of a readable range.\<close>

lemma mem_read_part:
  assumes "mem_read m p n = Inr bs" and "a + k \<le> n"
  shows "mem_read m (p + a) k = Inr (take k (drop a bs))"
proof -
  have "p + n \<le> length m" "bs = take n (drop p m)"
    using assms(1) by (auto simp: mem_read_def split: if_splits)
  then show ?thesis
    using assms(2) by (simp add: mem_read_def drop_take add.commute min_absorb1)
qed

lemma mem_write_length: "mem_write m p bs = Inr m' \<Longrightarrow> length m' = length m"
  by (auto simp: mem_write_def split: if_splits)

text \<open>\<^verbatim>\<open>strlen\<close>: the bytes before the first NUL (the list's end is the terminator).\<close>

definition strlen :: "byte list \<Rightarrow> nat" where
  "strlen s = length (takeWhile (\<lambda>c. c \<noteq> 0) s)"

definition c_str :: "byte list \<Rightarrow> byte list" where
  "c_str s = takeWhile (\<lambda>c. c \<noteq> 0) s"

lemma strlen_le: "strlen s \<le> length s"
  by (simp add: strlen_def length_takeWhile_le)

lemma take_strlen: "take (strlen s) s = c_str s"
  by (simp add: strlen_def c_str_def takeWhile_eq_take[symmetric])

lemma length_c_str [simp]: "length (c_str s) = strlen s"
  by (simp add: strlen_def c_str_def)

lemma c_str_id: "0 \<notin> set s \<Longrightarrow> c_str s = s"
  by (auto simp: c_str_def takeWhile_eq_all_conv)

lemma c_str_no_nul: "0 \<notin> set (c_str s)"
  by (auto simp: c_str_def dest: set_takeWhileD)

definition bytes_of :: "string \<Rightarrow> byte list" where
  "bytes_of s = map of_char s"

subsection \<open>C integers\<close>

text \<open>
  \<^verbatim>\<open>size_t\<close> has 64 bits and wraps; a conversion to \<^verbatim>\<open>int\<close> or \<^verbatim>\<open>int32_t\<close>
  keeps the low 32 bits and reads them as two's complement; an \<^verbatim>\<open>int\<close> converted to
  \<^verbatim>\<open>size_t\<close> is taken modulo \<open>2 ^ 64\<close>.
\<close>

definition size_add :: "nat \<Rightarrow> nat \<Rightarrow> nat" where
  "size_add a b = (a + b) mod 2 ^ 64"

definition size_sub :: "nat \<Rightarrow> nat \<Rightarrow> nat" where
  "size_sub a b = (a + (2 ^ 64 - b mod 2 ^ 64)) mod 2 ^ 64"

definition to_int32 :: "nat \<Rightarrow> int" where
  "to_int32 n = (let r = int n mod 2 ^ 32 in if r < 2 ^ 31 then r else r - 2 ^ 32)"

definition size_of_int :: "int \<Rightarrow> nat" where
  "size_of_int i = nat (i mod 2 ^ 64)"

lemma size_add_small: "a + b < 2 ^ 64 \<Longrightarrow> size_add a b = a + b"
  by (simp add: size_add_def)

lemma int_size_sub: "int (size_sub a b) = (int a - int b) mod 2 ^ 64"
proof -
  have "int (size_sub a b) = ((int a - int b mod 2 ^ 64) + 2 ^ 64) mod 2 ^ 64"
    by (simp add: size_sub_def zmod_int of_nat_diff add_diff_eq algebra_simps)
  then show ?thesis
    by (simp only: mod_add_self2 mod_diff_right_eq)
qed

lemma size_sub_ge: "b \<le> a \<Longrightarrow> a < 2 ^ 64 \<Longrightarrow> size_sub a b = a - b"
  using int_size_sub[of a b] by (simp add: of_nat_diff)

lemma to_int32_small: "n < 2 ^ 31 \<Longrightarrow> to_int32 n = int n"
  by (simp add: to_int32_def)

lemma to_int32_size_sub:
  assumes "- (2 ^ 31) \<le> int a - int b" and "int a - int b < 2 ^ 31"
  shows "to_int32 (size_sub a b) = int a - int b"
proof -
  have "int (size_sub a b) mod 2 ^ 32 = (int a - int b) mod 2 ^ 32"
    by (simp add: int_size_sub mod_mod_cancel)
  also have "\<dots> = (if 0 \<le> int a - int b then int a - int b else int a - int b + 2 ^ 32)"
    using assms mod_pos_pos_trivial [of "int a - int b + 2 ^ 32" "2 ^ 32"]
    by (simp add: mod_pos_pos_trivial)
  finally show ?thesis using assms by (simp add: to_int32_def Let_def split: if_splits)
qed

lemma size_of_int_nonneg: "0 \<le> i \<Longrightarrow> i < 2 ^ 64 \<Longrightarrow> size_of_int i = nat i"
  by (simp add: size_of_int_def)

subsection \<open>Network byte order\<close>

text \<open>
  \<^verbatim>\<open>htonl(v)\<close> stored in memory is the four bytes of \<open>v\<close>, the most significant first, on
  every host; \<^verbatim>\<open>ntohl\<close> and \<^verbatim>\<open>ntohs\<close> of a load read them back.
\<close>

definition be32_bytes :: "32 word \<Rightarrow> byte list" where
  "be32_bytes v =
     [ucast (drop_bit 24 v), ucast (drop_bit 16 v), ucast (drop_bit 8 v), ucast v]"

fun be_value :: "byte list \<Rightarrow> nat" where
  "be_value [] = 0"
| "be_value (b # bs) = unat b * 256 ^ length bs + be_value bs"

definition ntohl_at :: "byte list \<Rightarrow> 32 word" where
  "ntohl_at bs = of_nat (be_value bs)"

definition ntohs_at :: "byte list \<Rightarrow> 16 word" where
  "ntohs_at bs = of_nat (be_value bs)"

lemma unat_byte_less: "unat (b :: byte) < 256"
  using unsigned_less [of b] by simp

lemma unat_u32_less: "unat (v :: 32 word) < 2 ^ 32"
  using unsigned_less [of v] by simp

lemma length_be32_bytes [simp]: "length (be32_bytes v) = 4"
  by (simp add: be32_bytes_def)

lemma be_value_less: "be_value bs < 256 ^ length bs"
proof (induction bs)
  case Nil
  then show ?case by simp
next
  case (Cons b bs)
  have "unat b * 256 ^ length bs + be_value bs < (unat b + 1) * 256 ^ length bs"
    using Cons.IH by simp
  also have "\<dots> \<le> 256 * 256 ^ length bs"
    using unat_byte_less [of b] by (intro mult_right_mono) simp_all
  finally show ?case by simp
qed

lemma unat_ucast_byte: "unat (ucast (v :: 32 word) :: byte) = unat v mod 256"
  by (simp add: unsigned_ucast_eq take_bit_eq_mod)

lemma unat_drop_bit_div: "unat (drop_bit k (v :: 32 word)) = unat v div 2 ^ k"
  by (simp only: unat_drop_bit_eq) (rule drop_bit_eq_div)

lemma be_value_be32: "be_value (be32_bytes v) = unat v"
proof -
  define q1 where "q1 = unat v div 256"
  define q2 where "q2 = q1 div 256"
  define q3 where "q3 = q2 div 256"
  have "q3 < 256"
    using unat_u32_less [of v] by (simp add: q1_def q2_def q3_def flip: div_mult2_eq)
  moreover have "unat (ucast (drop_bit 8 v) :: byte) = q1 mod 256"
    by (simp only: unat_ucast_byte unat_drop_bit_div q1_def) simp
  moreover have "unat (ucast (drop_bit 16 v) :: byte) = q2 mod 256"
    by (simp only: unat_ucast_byte unat_drop_bit_div q1_def q2_def
        flip: div_mult2_eq) simp
  moreover have "unat (ucast (drop_bit 24 v) :: byte) = q3 mod 256"
    by (simp only: unat_ucast_byte unat_drop_bit_div q1_def q2_def q3_def
        flip: div_mult2_eq) simp
  moreover have "unat v = q1 * 256 + unat v mod 256" "q1 = q2 * 256 + q1 mod 256"
    "q2 = q3 * 256 + q2 mod 256"
    by (simp_all add: q1_def q2_def q3_def)
  ultimately show ?thesis
    by (simp add: be32_bytes_def unat_ucast_byte)
qed

lemma ntohl_be32 [simp]: "ntohl_at (be32_bytes v) = v"
  by (simp add: ntohl_at_def be_value_be32)

lemma unat_ntohl_at: "length bs = 4 \<Longrightarrow> unat (ntohl_at bs) = be_value bs"
  using be_value_less [of bs] by (simp add: ntohl_at_def unat_of_nat)

lemma be_value_inj: "length xs = length ys \<Longrightarrow> be_value xs = be_value ys \<Longrightarrow> xs = ys"
proof (induction xs ys rule: list_induct2)
  case (Cons x xs y ys)
  have less: "be_value xs < 256 ^ length ys" "be_value ys < 256 ^ length ys"
    using be_value_less [of xs] be_value_less [of ys] Cons.hyps by simp_all
  have eq: "unat x * 256 ^ length ys + be_value xs = unat y * 256 ^ length ys + be_value ys"
    using Cons.prems Cons.hyps by simp
  have "unat x = (unat x * 256 ^ length ys + be_value xs) div 256 ^ length ys"
    using less(1) by simp
  also have "\<dots> = unat y" unfolding eq using less(2) by simp
  finally have uxy: "unat x = unat y" .
  then have "x = y" by (rule unsigned_word_eqI)
  then show ?case using eq Cons.IH by simp
qed simp

lemma be32_ntohl: "length bs = 4 \<Longrightarrow> be32_bytes (ntohl_at bs) = bs"
  by (rule be_value_inj) (simp_all add: be_value_be32 unat_ntohl_at)

lemma those_eq_Some: "those xs = Some ys \<longleftrightarrow> xs = map Some ys"
proof (induction xs arbitrary: ys)
  case (Cons x xs)
  then show ?case by (cases ys) (auto split: option.splits)
qed auto

end
