(* ===== verification/Byte_Queue.thy ===== *)
theory Byte_Queue
  imports Prelude "HOL-Library.Sublist"
begin

section \<open>The contract of a byte queue\<close>

text \<open>
  The interface through which the command writer and the socket layer use a buffer: bytes
  are appended at the end and drained from the front. \<open>limit q\<close> is the size up to which
  the queue accepts bytes without growing. The lemmas of the locale are what the clients of
  a buffer need, proved once from the contract; \<open>lossy_queue\<close> adds what the callers that
  ignore the return code of an addition depend on.
\<close>

datatype queue_op = Add "byte list" | Drain nat | Reset

fun queue_run ::
  "(byte list \<Rightarrow> 'q \<Rightarrow> fault + 'q) \<Rightarrow> (nat \<Rightarrow> 'q \<Rightarrow> 'q) \<Rightarrow> ('q \<Rightarrow> 'q) \<Rightarrow>
    queue_op list \<Rightarrow> 'q \<Rightarrow> fault + 'q" where
  "queue_run add drain reset [] q = Inr q"
| "queue_run add drain reset (Add s # ops) q = bind_res (add s q) (queue_run add drain reset ops)"
| "queue_run add drain reset (Drain n # ops) q = queue_run add drain reset ops (drain n q)"
| "queue_run add drain reset (Reset # ops) q = queue_run add drain reset ops (reset q)"

text \<open>The specification: the same operations on a list of bytes.\<close>

fun fifo_run :: "queue_op list \<Rightarrow> byte list \<Rightarrow> byte list" where
  "fifo_run [] bs = bs"
| "fifo_run (Add s # ops) bs = fifo_run ops (bs @ s)"
| "fifo_run (Drain n # ops) bs = fifo_run ops (drop n bs)"
| "fifo_run (Reset # ops) bs = fifo_run ops []"

fun fifo_fits :: "nat \<Rightarrow> queue_op list \<Rightarrow> byte list \<Rightarrow> bool" where
  "fifo_fits lim [] bs = True"
| "fifo_fits lim (Add s # ops) bs = (length bs + length s \<le> lim \<and> fifo_fits lim ops (bs @ s))"
| "fifo_fits lim (Drain n # ops) bs = fifo_fits lim ops (drop n bs)"
| "fifo_fits lim (Reset # ops) bs = fifo_fits lim ops []"

locale byte_queue =
  fixes inv :: "'q \<Rightarrow> bool"
    and contents :: "'q \<Rightarrow> byte list"
    and limit :: "'q \<Rightarrow> nat"
    and add :: "byte list \<Rightarrow> 'q \<Rightarrow> fault + 'q"
    and drain :: "nat \<Rightarrow> 'q \<Rightarrow> 'q"
    and reset :: "'q \<Rightarrow> 'q"
  assumes add_fits: "inv q \<Longrightarrow> length (contents q) + length s \<le> limit q \<Longrightarrow>
      \<exists>q'. add s q = Inr q' \<and> inv q' \<and> contents q' = contents q @ s \<and> limit q' = limit q"
    and inv_drain: "inv q \<Longrightarrow> inv (drain n q)"
    and contents_drain: "inv q \<Longrightarrow> contents (drain n q) = drop n (contents q)"
    and limit_drain: "inv q \<Longrightarrow> limit (drain n q) = limit q"
    and inv_reset: "inv q \<Longrightarrow> inv (reset q)"
    and contents_reset: "inv q \<Longrightarrow> contents (reset q) = []"
    and limit_reset: "inv q \<Longrightarrow> limit (reset q) = limit q"
begin

lemmas drain_laws = inv_drain contents_drain limit_drain
lemmas reset_laws = inv_reset contents_reset limit_reset

lemma adds_fit:
  assumes "inv q" and "length (contents q) + length (concat ss) \<le> limit q"
  shows "\<exists>q'. block (map add ss) q = Inr q' \<and> inv q' \<and> contents q' = contents q @ concat ss
    \<and> limit q' = limit q"
  using assms
proof (induction ss arbitrary: q)
  case Nil
  then show ?case by simp
next
  case (Cons s ss)
  obtain q1 where q1: "add s q = Inr q1" "inv q1" "contents q1 = contents q @ s"
      "limit q1 = limit q"
    using add_fits [OF Cons.prems(1), of s] Cons.prems(2) by auto
  with Cons.prems(2) have "length (contents q1) + length (concat ss) \<le> limit q1" by simp
  from Cons.IH [OF q1(2) this] q1 show ?case by auto
qed

lemma run_refines:
  assumes "inv q" and "fifo_fits (limit q) ops (contents q)"
  shows "\<exists>q'. queue_run add drain reset ops q = Inr q' \<and> inv q'
    \<and> contents q' = fifo_run ops (contents q) \<and> limit q' = limit q"
  using assms
proof (induction ops arbitrary: q)
  case Nil
  then show ?case by simp
next
  case (Cons op ops)
  show ?case
  proof (cases op)
    case (Add s)
    with Cons.prems obtain q1 where q1: "add s q = Inr q1" "inv q1"
        "contents q1 = contents q @ s" "limit q1 = limit q"
      using add_fits [of q s] by auto
    with Cons.prems(2) Add have "fifo_fits (limit q1) ops (contents q1)" by simp
    from Cons.IH [OF q1(2) this] q1 Add show ?thesis by simp
  next
    case (Drain n)
    then show ?thesis
      using Cons.IH [of "drain n q"] Cons.prems by (simp add: drain_laws)
  next
    case Reset
    then show ?thesis
      using Cons.IH [of "reset q"] Cons.prems by (simp add: reset_laws)
  qed
qed

end

text \<open>
  A queue whose additions are all or nothing: one that does not fit changes nothing and is
  no fault. \<open>small s\<close> bounds what may be added at once.
\<close>

locale lossy_queue = byte_queue inv contents limit add drain reset
  for inv :: "'q \<Rightarrow> bool" and contents limit add drain reset +
  fixes small :: nat
  assumes add_total: "inv q \<Longrightarrow> length s < small \<Longrightarrow>
      \<exists>q'. add s q = Inr q' \<and> inv q' \<and> (contents q' = contents q @ s \<or> q' = q)"
begin

text \<open>Dropping some of the pieces is the worst that a sequence of additions does.\<close>

lemma adds_total:
  assumes "inv q" and "\<forall>s \<in> set ss. length s < small"
  shows "\<exists>q' ts. block (map add ss) q = Inr q' \<and> inv q' \<and> subseq ts ss
    \<and> contents q' = contents q @ concat ts"
  using assms
proof (induction ss arbitrary: q)
  case Nil
  then show ?case by (auto intro: exI [of _ "[]"])
next
  case (Cons s ss)
  then obtain q1 where q1: "add s q = Inr q1" "inv q1" "contents q1 = contents q @ s \<or> q1 = q"
    using add_total [of q s] by auto
  obtain q' ts where q': "block (map add ss) q1 = Inr q'" "inv q'" "subseq ts ss"
      "contents q' = contents q1 @ concat ts"
    using Cons.IH [OF q1(2)] Cons.prems(2) by auto
  from q1(3) show ?case
  proof
    assume "contents q1 = contents q @ s"
    with q1 q' show ?thesis by (intro exI [of _ q'] exI [of _ "s # ts"]) simp
  next
    assume "q1 = q"
    with q1 q' show ?thesis by (intro exI [of _ q'] exI [of _ ts]) auto
  qed
qed

end

end
