(* ===== verification/Buffer.thy ===== *)
theory Buffer
  imports Byte_Queue
begin

section \<open>Byte buffers (buffer.c)\<close>

text \<open>
  The growable byte buffer of \<^verbatim>\<open>src/buffer.c\<close>. A \<^verbatim>\<open>struct Buffer\<close> owns one
  block \<open>orig\<close>; the pointer \<^verbatim>\<open>data\<close> into it is its distance from \<^verbatim>\<open>orig\<close>;
  \<open>offset\<close> bytes from there on are the buffered data. The field \<^verbatim>\<open>length\<close> is
  \<open>blength\<close> here. The operations are the functions of the file, with \<open>size_t\<close> and
  \<open>int32_t\<close> arithmetic as in C and with a fault for every access outside the block.
  The lemmas show that a buffer is a first-in first-out queue of bytes, that no operation
  leaves its block, and exactly when an addition is refused.
\<close>

record buffer =
  data :: nat
  orig :: "byte list"
  offset :: nat
  blength :: nat
  capacity :: nat

definition BUFFER_HAS_DATA :: "buffer \<Rightarrow> nat" where
  "BUFFER_HAS_DATA b = offset b"

definition BUFFER_USED :: "buffer \<Rightarrow> nat" where
  "BUFFER_USED b = size_add (data b) (offset b)"

definition BUFFER_AVAILABLE :: "buffer \<Rightarrow> nat" where
  "BUFFER_AVAILABLE b = size_sub (blength b) (BUFFER_USED b)"

definition new_buffer :: "(nat \<Rightarrow> byte) \<Rightarrow> nat \<Rightarrow> nat \<Rightarrow> buffer" where
  "new_buffer junk len cap =
     \<lparr>data = 0, orig = malloc_block junk len, offset = 0, blength = len, capacity = cap\<rparr>"

definition buffer_reset :: "buffer \<Rightarrow> buffer" where
  "buffer_reset b = b\<lparr>data := 0, offset := 0\<rparr>"

text \<open>
  The doubling loop of \<^verbatim>\<open>buffer_expand\<close>. It does not return when \<open>expand\<close> is or
  becomes 0, hence the \<open>option\<close>.
\<close>

partial_function (option) grow :: "nat \<Rightarrow> nat \<Rightarrow> nat option" where
  "grow expand need =
     (if expand < need then grow (expand * 2 mod 2 ^ 64) need else Some expand)"

definition buffer_expand :: "(nat \<Rightarrow> byte) \<Rightarrow> nat \<Rightarrow> buffer \<Rightarrow> fault + (buffer \<times> int)" where
  "buffer_expand junk need b =
     (let pos = data b in
      if need \<le> pos then
        bind_res (mem_read (orig b) (data b) (offset b)) (\<lambda>bs.
        bind_res (mem_write (orig b) 0 bs) (\<lambda>m.
          Inr (b\<lparr>orig := m, data := 0\<rparr>, 1)))
      else
        (case grow (blength b) need of
           None \<Rightarrow> Inl Diverges
         | Some expand \<Rightarrow>
             let new_size = size_add (blength b) expand in
             if 0 < capacity b \<and> capacity b < new_size then Inr (b, 0)
             else Inr (b\<lparr>orig := realloc_block junk (orig b) new_size,
                         data := pos, blength := new_size\<rparr>, 1)))"

definition buffer_add ::
  "(nat \<Rightarrow> byte) \<Rightarrow> byte list \<Rightarrow> nat \<Rightarrow> buffer \<Rightarrow> fault + (buffer \<times> int)" where
  "buffer_add junk source len b =
     (let used = size_add (data b) (offset b);
          need = to_int32 (size_sub (size_add used len) (blength b)) in
      bind_res
        (if 0 < need then buffer_expand junk (size_of_int need) b else Inr (b, 1))
        (\<lambda>(b1, ok).
          if ok = 0 then Inr (b1, 0)
          else
            bind_res (mem_read source 0 len) (\<lambda>bs.
            bind_res (mem_write (orig b1) (data b1 + offset b1) bs) (\<lambda>m.
              Inr (b1\<lparr>orig := m, offset := size_add (offset b1) len\<rparr>, 1)))))"

definition buffer_drain :: "nat \<Rightarrow> buffer \<Rightarrow> buffer" where
  "buffer_drain len b =
     (if offset b \<le> len then buffer_reset b
      else b\<lparr>data := data b + len, offset := offset b - len\<rparr>)"

subsection \<open>Reading from and writing to a descriptor\<close>

text \<open>
  The kernel is outside the sources: what \<^verbatim>\<open>ioctl(FIONREAD)\<close>, \<^verbatim>\<open>recv\<close> and
  \<^verbatim>\<open>send\<close> answer is an argument. \<open>recv n\<close> is the answer to a request for at
  most \<open>n\<close> bytes, \<open>send bs\<close> the answer to an offer of the bytes \<open>bs\<close>; an error
  carries the \<^verbatim>\<open>errno\<close> it sets. The functions return the new buffer, the C result
  and \<^verbatim>\<open>errno\<close>, which stays as it was where no call failed.
\<close>

datatype recv_result = Recv_bytes "byte list" | Recv_error int
datatype send_result = Send_count nat | Send_error int

record read_env =
  ioctl_ret :: int
  ioctl_n :: int
  ioctl_errno :: int
  recv :: "nat \<Rightarrow> recv_result"

definition buffer_read_fd ::
  "(nat \<Rightarrow> byte) \<Rightarrow> read_env \<Rightarrow> int \<Rightarrow> buffer \<Rightarrow> fault + (buffer \<times> int \<times> int)" where
  "buffer_read_fd junk env errno0 b =
     (let errno = (if ioctl_ret env = -1 then ioctl_errno env else errno0);
          n = (if ioctl_ret env = -1 \<or> 4096 < ioctl_n env then 4096 else ioctl_n env);
          need = to_int32 (size_sub (size_of_int n) (BUFFER_AVAILABLE b)) in
      bind_res
        (if 0 < need then buffer_expand junk (size_of_int need) b else Inr (b, 1))
        (\<lambda>(b1, ok).
          if ok = 0 then Inr (b1, -1, errno)
          else
            (case recv env (size_of_int n) of
               Recv_error e \<Rightarrow> Inr (b1, -1, e)
             | Recv_bytes bs \<Rightarrow>
                 bind_res (mem_write (orig b1) (data b1 + offset b1) bs) (\<lambda>m.
                   Inr (b1\<lparr>orig := m, offset := size_add (offset b1) (length bs)\<rparr>,
                        to_int32 (length bs), errno)))))"

definition buffer_write_fd ::
  "(byte list \<Rightarrow> send_result) \<Rightarrow> int \<Rightarrow> buffer \<Rightarrow> fault + (buffer \<times> int \<times> int)" where
  "buffer_write_fd send errno b =
     bind_res (mem_read (orig b) (data b) (offset b)) (\<lambda>bs.
       (case send bs of
          Send_error e \<Rightarrow> Inr (b, -1, e)
        | Send_count k \<Rightarrow>
            let n = to_int32 k in
            Inr (if 0 < n then buffer_drain (size_of_int n) b else b, n, errno)))"

subsection \<open>Invariant and abstraction\<close>

text \<open>
  The buffered bytes, and the invariant every operation keeps: the data lie inside the
  block, and the block is not empty (the doubling loop needs that). The block stays below
  \<open>2 ^ 31\<close> bytes, where the \<^verbatim>\<open>int32_t\<close> of \<^verbatim>\<open>buffer_add\<close> is exact.
\<close>

definition contents :: "buffer \<Rightarrow> byte list" where
  "contents b = take (offset b) (drop (data b) (orig b))"

definition wf_buffer :: "buffer \<Rightarrow> bool" where
  "wf_buffer b \<longleftrightarrow>
     blength b = length (orig b) \<and> data b + offset b \<le> blength b
     \<and> 0 < blength b \<and> blength b < 2 ^ 31"

text \<open>What a buffer accepts without growing.\<close>

definition room :: "buffer \<Rightarrow> nat" where
  "room b = blength b - offset b"

lemma length_contents: "wf_buffer b \<Longrightarrow> length (contents b) = offset b"
  by (auto simp: wf_buffer_def contents_def)

lemma mem_read_contents: "wf_buffer b \<Longrightarrow> mem_read (orig b) (data b) (offset b) = Inr (contents b)"
  by (simp add: wf_buffer_def contents_def mem_read_def)

lemma wf_new_buffer: "0 < n \<Longrightarrow> n < 2 ^ 31 \<Longrightarrow> wf_buffer (new_buffer junk n cap)"
  by (simp add: wf_buffer_def new_buffer_def)

lemma contents_new_buffer [simp]: "contents (new_buffer junk n cap) = []"
  by (simp add: contents_def new_buffer_def)

lemma blength_new_buffer [simp]: "blength (new_buffer junk n cap) = n"
  by (simp add: new_buffer_def)

lemma room_new_buffer [simp]: "room (new_buffer junk n cap) = n"
  by (simp add: room_def new_buffer_def)

lemma wf_buffer_reset [simp]: "wf_buffer b \<Longrightarrow> wf_buffer (buffer_reset b)"
  by (auto simp: wf_buffer_def buffer_reset_def)

lemma contents_buffer_reset [simp]: "contents (buffer_reset b) = []"
  by (simp add: contents_def buffer_reset_def)

lemma room_buffer_reset [simp]: "room (buffer_reset b) = blength b"
  by (simp add: room_def buffer_reset_def)

lemma wf_buffer_drain: "wf_buffer b \<Longrightarrow> wf_buffer (buffer_drain n b)"
  by (auto simp: buffer_drain_def wf_buffer_def buffer_reset_def)

lemma contents_buffer_drain: "wf_buffer b \<Longrightarrow> contents (buffer_drain n b) = drop n (contents b)"
  by (auto simp: buffer_drain_def length_contents)
     (auto simp: contents_def drop_take add.commute)

lemma buffer_drain_frame [simp]:
  "blength (buffer_drain n b) = blength b" "capacity (buffer_drain n b) = capacity b"
  "orig (buffer_drain n b) = orig b" "offset (buffer_drain n b) = offset b - n"
  by (auto simp: buffer_drain_def buffer_reset_def)

lemma buffer_reset_frame [simp]:
  "blength (buffer_reset b) = blength b" "capacity (buffer_reset b) = capacity b"
  "orig (buffer_reset b) = orig b" "offset (buffer_reset b) = 0"
  by (auto simp: buffer_reset_def)

lemma BUFFER_AVAILABLE_eq:
  "wf_buffer b \<Longrightarrow> BUFFER_AVAILABLE b = blength b - (data b + offset b)"
  by (simp add: BUFFER_AVAILABLE_def BUFFER_USED_def wf_buffer_def size_add_small size_sub_ge)

subsection \<open>The doubling loop\<close>

lemma grow_enough:
  assumes "0 < e" and "n \<le> 2 ^ 63" and "e \<le> 2 ^ 63"
  shows "\<exists>x. grow e n = Some x \<and> n \<le> x \<and> e \<le> x \<and> (x = e \<or> x < 2 * n)"
  using assms
proof (induction "n - e" arbitrary: e rule: less_induct)
  case less
  show ?case
  proof (cases "e < n")
    case True
    then have step: "grow e n = grow (e * 2) n"
      using less.prems by (subst grow.simps) simp
    show ?thesis
    proof (cases "e * 2 < n")
      case True
      then have "\<exists>x. grow (e * 2) n = Some x \<and> n \<le> x \<and> e * 2 \<le> x \<and> (x = e * 2 \<or> x < 2 * n)"
        using less.prems \<open>e < n\<close> by (intro less.hyps) auto
      then show ?thesis using step True by auto
    next
      case False
      then have "grow (e * 2) n = Some (e * 2)"
        by (subst grow.simps) simp
      with step False \<open>e < n\<close> show ?thesis by auto
    qed
  next
    case False
    then show ?thesis by (subst grow.simps) simp
  qed
qed

lemma grow_zero:
  assumes "0 < n"
  shows "grow 0 n = None"
proof (rule ccontr)
  assume "grow 0 n \<noteq> None"
  then obtain r where ret: "grow 0 n = Some r" by auto
  have "0 = (0 :: nat) \<longrightarrow> n = 0"
  proof (rule grow.raw_induct [where P = "\<lambda>e n r. e = 0 \<longrightarrow> n = 0", OF _ ret])
    fix f and e n r :: nat
    assume IH: "\<And>e n r. f e n = Some r \<Longrightarrow> e = 0 \<longrightarrow> n = 0"
      and eq: "(if e < n then f (e * 2 mod 2 ^ 64) n else Some e) = Some r"
    show "e = 0 \<longrightarrow> n = 0"
    proof
      assume "e = 0"
      then show "n = 0" using eq IH [of 0 n r] by (cases "n = 0") simp_all
    qed
  qed
  with assms show False by simp
qed

subsection \<open>Expanding and adding\<close>

text \<open>The block size \<^verbatim>\<open>buffer_expand\<close> asks for when it has to grow.\<close>

definition grown :: "nat \<Rightarrow> buffer \<Rightarrow> nat" where
  "grown need b = blength b + the (grow (blength b) need)"

lemma grown_props:
  assumes "wf_buffer b" and "need \<le> 2 ^ 31"
  shows "grow (blength b) need = Some (grown need b - blength b)"
    and "blength b + need \<le> grown need b" and "2 * blength b \<le> grown need b"
    and "grown need b \<le> 2 * blength b + 2 * need"
proof -
  obtain x where "grow (blength b) need = Some x" "need \<le> x" "blength b \<le> x"
    "x = blength b \<or> x < 2 * need"
    using grow_enough [of "blength b" need] assms by (auto simp: wf_buffer_def)
  then show "grow (blength b) need = Some (grown need b - blength b)"
    and "blength b + need \<le> grown need b" and "2 * blength b \<le> grown need b"
    and "grown need b \<le> 2 * blength b + 2 * need"
    by (auto simp: grown_def)
qed

lemma buffer_expand_realign:
  assumes "wf_buffer b" and "need \<le> data b"
  shows "\<exists>b'. buffer_expand junk need b = Inr (b', 1) \<and> wf_buffer b' \<and> contents b' = contents b
    \<and> data b' = 0 \<and> offset b' = offset b \<and> blength b' = blength b \<and> capacity b' = capacity b"
proof -
  have "mem_write (orig b) 0 (contents b) = Inr (contents b @ drop (offset b) (orig b))"
    using assms(1) by (simp add: mem_write_def length_contents) (simp add: wf_buffer_def)
  then show ?thesis
    using assms by (auto simp: buffer_expand_def mem_read_contents)
      (auto simp: wf_buffer_def length_contents[OF assms(1)] contents_def)
qed

lemma buffer_expand_refuses:
  assumes "wf_buffer b" and "data b < need" and "need \<le> 2 ^ 31"
    and "0 < capacity b" and "capacity b < grown need b"
  shows "buffer_expand junk need b = Inr (b, 0)"
  using assms grown_props [OF assms(1,3)]
  by (simp add: buffer_expand_def size_add_small wf_buffer_def)

lemma buffer_expand_grows:
  assumes "wf_buffer b" and "data b < need" and "need \<le> 2 ^ 31"
    and "capacity b = 0 \<or> grown need b \<le> capacity b" and "grown need b < 2 ^ 31"
  shows "\<exists>b'. buffer_expand junk need b = Inr (b', 1) \<and> wf_buffer b' \<and> contents b' = contents b
    \<and> data b' = data b \<and> offset b' = offset b \<and> blength b' = grown need b
    \<and> capacity b' = capacity b"
proof -
  let ?b' = "b\<lparr>orig := realloc_block junk (orig b) (grown need b), data := data b,
               blength := grown need b\<rparr>"
  have "buffer_expand junk need b = Inr (?b', 1)"
    using assms grown_props [OF assms(1,3)]
    by (auto simp: buffer_expand_def size_add_small wf_buffer_def Let_def)
  moreover have "take (offset b) (drop (data b) (realloc_block junk (orig b) (grown need b)))
      = contents b"
    using assms(1) grown_props [OF assms(1,3)]
    by (simp add: realloc_block_def contents_def wf_buffer_def)
  ultimately show ?thesis
    using assms grown_props [OF assms(1,3)] by (auto simp: wf_buffer_def contents_def)
qed

text \<open>The bytes by which an addition of \<open>len\<close> bytes overruns the block.\<close>

definition add_need :: "nat \<Rightarrow> buffer \<Rightarrow> nat" where
  "add_need len b = data b + offset b + len - blength b"

lemma add_need_le: "wf_buffer b \<Longrightarrow> add_need len b \<le> len"
  by (auto simp: add_need_def wf_buffer_def)

lemma add_need_iff_room: "wf_buffer b \<Longrightarrow> add_need len b \<le> data b \<longleftrightarrow> len \<le> room b"
  by (auto simp: add_need_def wf_buffer_def room_def)

lemma buffer_add_need:
  assumes "wf_buffer b" and "len < 2 ^ 31"
  shows "to_int32 (size_sub (size_add (size_add (data b) (offset b)) len) (blength b))
    = int (data b + offset b + len) - int (blength b)"
proof -
  have "size_add (size_add (data b) (offset b)) len = data b + offset b + len"
    using assms by (simp add: wf_buffer_def size_add_small)
  then show ?thesis using assms
    by (simp only:) (rule to_int32_size_sub, auto simp: wf_buffer_def)
qed

text \<open>When an addition is accepted: it fits, or the block may grow to hold it.\<close>

definition accepts :: "nat \<Rightarrow> buffer \<Rightarrow> bool" where
  "accepts len b \<longleftrightarrow>
     len \<le> room b \<or> capacity b = 0 \<or> grown (add_need len b) b \<le> capacity b"

text \<open>
  Both \<^verbatim>\<open>buffer_add\<close> and \<^verbatim>\<open>buffer_read_fd\<close> first make room for \<open>len\<close> bytes.
  \<open>growable\<close> bounds the block that results, so that the invariant is kept.
\<close>

definition make_room :: "(nat \<Rightarrow> byte) \<Rightarrow> nat \<Rightarrow> buffer \<Rightarrow> fault + (buffer \<times> int)" where
  "make_room junk len b =
     (if 0 < add_need len b then buffer_expand junk (add_need len b) b else Inr (b, 1))"

definition growable :: "nat \<Rightarrow> buffer \<Rightarrow> bool" where
  "growable len b \<longleftrightarrow> capacity b < 2 ^ 31 \<and> (capacity b = 0 \<longrightarrow> blength b + len < 2 ^ 30)"

lemma growable_grown:
  assumes wf: "wf_buffer b" and gr: "growable len b" and len: "len < 2 ^ 31"
    and cap: "capacity b = 0 \<or> grown (add_need len b) b \<le> capacity b"
  shows "grown (add_need len b) b < 2 ^ 31"
proof (cases "capacity b = 0")
  case True
  have need: "add_need len b \<le> len" using wf by (rule add_need_le)
  then have "grown (add_need len b) b \<le> 2 * blength b + 2 * add_need len b"
    using wf len by (intro grown_props(4)) simp_all
  with need True gr show ?thesis by (simp add: growable_def)
next
  case False
  with cap gr show ?thesis by (simp add: growable_def)
qed

lemma make_room_fits:
  assumes wf: "wf_buffer b" and fits: "len \<le> room b"
  shows "\<exists>b1. make_room junk len b = Inr (b1, 1) \<and> wf_buffer b1 \<and> contents b1 = contents b
    \<and> offset b1 = offset b \<and> data b1 + offset b1 + len \<le> blength b1
    \<and> blength b1 = blength b \<and> capacity b1 = capacity b"
proof (cases "0 < add_need len b")
  case True
  have "offset b + len \<le> blength b"
    using wf fits by (auto simp: room_def wf_buffer_def)
  then show ?thesis
    using buffer_expand_realign [OF wf, of "add_need len b" junk] True
      add_need_iff_room [OF wf, of len] fits by (auto simp: make_room_def)
next
  case False
  then show ?thesis using wf by (auto simp: make_room_def add_need_def)
qed

lemma make_room_grows:
  assumes wf: "wf_buffer b" and len: "len < 2 ^ 31" and full: "room b < len"
    and cap: "capacity b = 0 \<or> grown (add_need len b) b \<le> capacity b"
    and gr: "growable len b"
  shows "\<exists>b1. make_room junk len b = Inr (b1, 1) \<and> wf_buffer b1 \<and> contents b1 = contents b
    \<and> offset b1 = offset b \<and> data b1 + offset b1 + len \<le> blength b1
    \<and> blength b1 = grown (add_need len b) b \<and> capacity b1 = capacity b"
proof -
  have need: "data b < add_need len b" "add_need len b \<le> 2 ^ 31"
    using add_need_iff_room [OF wf, of len] add_need_le [OF wf, of len] full len by auto
  have "data b + offset b + len \<le> grown (add_need len b) b"
    using grown_props(2) [OF wf need(2)] by (auto simp: add_need_def)
  then show ?thesis
    using buffer_expand_grows [OF wf need cap growable_grown [OF wf gr len cap], of junk] need
    by (auto simp: make_room_def)
qed

lemma make_room_accepts:
  assumes "wf_buffer b" and "len < 2 ^ 31" and "accepts len b" and "growable len b"
  shows "\<exists>b1. make_room junk len b = Inr (b1, 1) \<and> wf_buffer b1 \<and> contents b1 = contents b
    \<and> offset b1 = offset b \<and> data b1 + offset b1 + len \<le> blength b1
    \<and> capacity b1 = capacity b"
proof (cases "len \<le> room b")
  case True
  then show ?thesis using make_room_fits [OF assms(1)] by blast
next
  case False
  then show ?thesis
    using make_room_grows [OF assms(1,2) _ _ assms(4)] assms(3) by (fastforce simp: accepts_def)
qed

lemma make_room_rejects:
  assumes wf: "wf_buffer b" and len: "len < 2 ^ 31" and rej: "\<not> accepts len b"
  shows "make_room junk len b = Inr (b, 0)"
proof -
  have "data b < add_need len b" "add_need len b \<le> 2 ^ 31"
    using add_need_iff_room [OF wf, of len] add_need_le [OF wf, of len] rej len
    by (auto simp: accepts_def)
  then show ?thesis
    using buffer_expand_refuses [OF wf] rej by (simp add: make_room_def accepts_def)
qed

text \<open>\<^verbatim>\<open>buffer_add\<close> in terms of the exact overrun, without machine integers.\<close>

lemma buffer_add_eq:
  assumes "wf_buffer b" and "len < 2 ^ 31"
  shows "buffer_add junk src len b =
    bind_res (make_room junk len b) (\<lambda>(b1, ok).
        if ok = 0 then Inr (b1, 0)
        else
          bind_res (mem_read src 0 len) (\<lambda>bs.
          bind_res (mem_write (orig b1) (data b1 + offset b1) bs) (\<lambda>m.
            Inr (b1\<lparr>orig := m, offset := size_add (offset b1) len\<rparr>, 1))))"
proof -
  let ?d = "int (data b + offset b + len) - int (blength b)"
  have "size_of_int ?d = add_need len b" if "0 < ?d"
    using that assms by (simp add: size_of_int_nonneg add_need_def wf_buffer_def)
  moreover have "0 < ?d \<longleftrightarrow> 0 < add_need len b"
    by (auto simp: add_need_def)
  ultimately show ?thesis
    by (simp only: buffer_add_def Let_def buffer_add_need [OF assms] make_room_def cong: if_cong)
qed

text \<open>The copy at the end of an addition, once there is space behind the data.\<close>

lemma append_copy:
  assumes "wf_buffer b" and "data b + offset b + length bs \<le> blength b"
  shows "\<exists>m. mem_write (orig b) (data b + offset b) bs = Inr m
    \<and> wf_buffer (b\<lparr>orig := m, offset := size_add (offset b) (length bs)\<rparr>)
    \<and> contents (b\<lparr>orig := m, offset := size_add (offset b) (length bs)\<rparr>) = contents b @ bs
    \<and> size_add (offset b) (length bs) = offset b + length bs"
proof -
  have "size_add (offset b) (length bs) = offset b + length bs"
    using assms by (intro size_add_small) (simp add: wf_buffer_def)
  moreover have "mem_write (orig b) (data b + offset b) bs
      = Inr (take (data b + offset b) (orig b) @ bs @ drop (data b + offset b + length bs) (orig b))"
    using assms by (simp add: mem_write_def wf_buffer_def)
  moreover have "drop (data b) (take (data b + offset b) (orig b)) = contents b"
    by (simp add: contents_def drop_take)
  ultimately show ?thesis
    using assms length_contents [OF assms(1)] by (auto simp: wf_buffer_def contents_def)
qed

lemma buffer_add_after_make_room:
  assumes wf: "wf_buffer b" and len: "len < 2 ^ 31" and src: "len \<le> length src"
    and room: "make_room junk len b = Inr (b1, 1)" and b1: "wf_buffer b1"
    and space: "data b1 + offset b1 + len \<le> blength b1"
  shows "\<exists>b'. buffer_add junk src len b = Inr (b', 1) \<and> wf_buffer b'
    \<and> contents b' = contents b1 @ take len src \<and> blength b' = blength b1
    \<and> capacity b' = capacity b1 \<and> offset b' = offset b1 + len"
proof -
  have n: "length (take len src) = len" using src by simp
  obtain m where "mem_write (orig b1) (data b1 + offset b1) (take len src) = Inr m"
      "wf_buffer (b1\<lparr>orig := m, offset := size_add (offset b1) len\<rparr>)"
      "contents (b1\<lparr>orig := m, offset := size_add (offset b1) len\<rparr>) = contents b1 @ take len src"
      "size_add (offset b1) len = offset b1 + len"
    using append_copy [OF b1(1), of "take len src"] space unfolding n by blast
  then show ?thesis
    using src room by (simp add: buffer_add_eq [OF wf len] mem_read_def)
qed

lemma buffer_add_fits:
  assumes "wf_buffer b" and "len < 2 ^ 31" and "len \<le> length src" and "len \<le> room b"
  shows "\<exists>b'. buffer_add junk src len b = Inr (b', 1) \<and> wf_buffer b'
    \<and> contents b' = contents b @ take len src \<and> blength b' = blength b
    \<and> capacity b' = capacity b \<and> offset b' = offset b + len"
  using make_room_fits [OF assms(1,4), of junk] buffer_add_after_make_room [OF assms(1,2,3), of junk]
  by fastforce

lemma buffer_add_accepted:
  assumes "wf_buffer b" and "len < 2 ^ 31" and "len \<le> length src"
    and "accepts len b" and "growable len b"
  shows "\<exists>b'. buffer_add junk src len b = Inr (b', 1) \<and> wf_buffer b'
    \<and> contents b' = contents b @ take len src \<and> capacity b' = capacity b"
  using make_room_accepts [OF assms(1,2,4,5), of junk]
    buffer_add_after_make_room [OF assms(1,2,3), of junk] by fastforce

lemma buffer_add_rejected:
  assumes "wf_buffer b" and "len < 2 ^ 31" and "\<not> accepts len b"
  shows "buffer_add junk src len b = Inr (b, 0)"
  using make_room_rejects [OF assms, of junk] by (simp add: buffer_add_eq [OF assms(1,2)])

subsection \<open>Receiving and sending\<close>

text \<open>The size of the read: what \<^verbatim>\<open>FIONREAD\<close> says, 4096 at most.\<close>

definition read_size :: "read_env \<Rightarrow> nat" where
  "read_size env = (if ioctl_ret env = -1 \<or> 4096 < ioctl_n env then 4096 else nat (ioctl_n env))"

definition read_errno :: "read_env \<Rightarrow> int \<Rightarrow> int" where
  "read_errno env e = (if ioctl_ret env = -1 then ioctl_errno env else e)"

text \<open>The documented behaviour of the system calls: no negative size, no more than asked.\<close>

definition read_env_ok :: "read_env \<Rightarrow> bool" where
  "read_env_ok env \<longleftrightarrow> (ioctl_ret env \<noteq> -1 \<longrightarrow> 0 \<le> ioctl_n env)
     \<and> (\<forall>n bs. recv env n = Recv_bytes bs \<longrightarrow> length bs \<le> n)"

definition send_ok :: "(byte list \<Rightarrow> send_result) \<Rightarrow> bool" where
  "send_ok send \<longleftrightarrow> (\<forall>bs k. send bs = Send_count k \<longrightarrow> k \<le> length bs)"

lemma read_size_bound: "read_size env \<le> 4096"
  by (auto simp: read_size_def)

lemma read_env_size:
  "read_env_ok env \<Longrightarrow>
    (if ioctl_ret env = -1 \<or> 4096 < ioctl_n env then 4096 else ioctl_n env) = int (read_size env)"
  by (simp add: read_env_ok_def read_size_def)

lemma read_need:
  assumes "wf_buffer b" and "n \<le> 4096"
  shows "to_int32 (size_sub n (BUFFER_AVAILABLE b)) = int (data b + offset b + n) - int (blength b)"
proof -
  have "int (BUFFER_AVAILABLE b) = int (blength b) - int (data b + offset b)"
    using assms(1) by (simp add: BUFFER_AVAILABLE_eq of_nat_diff) (simp add: wf_buffer_def)
  then show ?thesis
    using assms to_int32_size_sub [of n "BUFFER_AVAILABLE b"] by (simp add: wf_buffer_def)
qed

lemma buffer_read_fd_eq:
  assumes "wf_buffer b" and "read_env_ok env"
  shows "buffer_read_fd junk env e b =
    bind_res (make_room junk (read_size env) b) (\<lambda>(b1, ok).
      if ok = 0 then Inr (b1, -1, read_errno env e)
      else (case recv env (read_size env) of
          Recv_error err \<Rightarrow> Inr (b1, -1, err)
        | Recv_bytes bs \<Rightarrow>
            bind_res (mem_write (orig b1) (data b1 + offset b1) bs) (\<lambda>m.
              Inr (b1\<lparr>orig := m, offset := size_add (offset b1) (length bs)\<rparr>,
                   to_int32 (length bs), read_errno env e))))"
proof -
  let ?n = "read_size env"
  let ?d = "int (data b + offset b + ?n) - int (blength b)"
  have n: "size_of_int (int ?n) = ?n"
    using read_size_bound [of env] by (simp add: size_of_int_nonneg)
  have "size_of_int ?d = add_need ?n b" if "0 < ?d"
    using that assms(1) read_size_bound [of env]
    by (simp add: size_of_int_nonneg add_need_def wf_buffer_def)
  moreover have "0 < ?d \<longleftrightarrow> 0 < add_need ?n b"
    by (auto simp: add_need_def)
  ultimately show ?thesis
    by (simp only: buffer_read_fd_def Let_def read_env_size [OF assms(2)] n
        read_need [OF assms(1) read_size_bound] make_room_def read_errno_def cong: if_cong)
qed

lemma buffer_read_fd_accepted:
  assumes wf: "wf_buffer b" and env: "read_env_ok env"
    and acc: "accepts (read_size env) b" and gr: "growable (read_size env) b"
  shows "\<exists>b'. wf_buffer b' \<and> capacity b' = capacity b
    \<and> (case recv env (read_size env) of
         Recv_error err \<Rightarrow> buffer_read_fd junk env e b = Inr (b', -1, err)
           \<and> contents b' = contents b
       | Recv_bytes bs \<Rightarrow>
           buffer_read_fd junk env e b = Inr (b', int (length bs), read_errno env e)
           \<and> contents b' = contents b @ bs)"
proof -
  have n: "read_size env < 2 ^ 31" using read_size_bound [of env] by simp
  obtain b1 where b1: "make_room junk (read_size env) b = Inr (b1, 1)" "wf_buffer b1"
      "contents b1 = contents b" "data b1 + offset b1 + read_size env \<le> blength b1"
      "capacity b1 = capacity b"
    using make_room_accepts [OF wf n acc gr] by blast
  show ?thesis
  proof (cases "recv env (read_size env)")
    case (Recv_bytes bs)
    then have bs: "length bs \<le> read_size env" using env by (simp add: read_env_ok_def)
    then obtain m where m: "mem_write (orig b1) (data b1 + offset b1) bs = Inr m"
        "wf_buffer (b1\<lparr>orig := m, offset := size_add (offset b1) (length bs)\<rparr>)"
        "contents (b1\<lparr>orig := m, offset := size_add (offset b1) (length bs)\<rparr>) = contents b1 @ bs"
      using append_copy [OF b1(2), of bs] b1(4) by auto
    have "to_int32 (length bs) = int (length bs)"
      using bs n by (intro to_int32_small) simp
    with m Recv_bytes b1 show ?thesis
      by (intro exI [of _ "b1\<lparr>orig := m, offset := size_add (offset b1) (length bs)\<rparr>"])
        (simp add: buffer_read_fd_eq [OF wf env])
  next
    case (Recv_error err)
    then show ?thesis using b1 by (simp add: buffer_read_fd_eq [OF wf env])
  qed
qed

lemma buffer_read_fd_rejected:
  assumes "wf_buffer b" and "read_env_ok env" and "\<not> accepts (read_size env) b"
  shows "buffer_read_fd junk env e b = Inr (b, -1, read_errno env e)"
  using make_room_rejects [OF assms(1) _ assms(3), of junk] read_size_bound [of env]
  by (simp add: buffer_read_fd_eq [OF assms(1,2)])

lemma buffer_write_fd_eq:
  assumes "wf_buffer b" and "send_ok send"
  shows "buffer_write_fd send e b =
    (case send (contents b) of
       Send_error err \<Rightarrow> Inr (b, -1, err)
     | Send_count k \<Rightarrow> Inr (if 0 < k then buffer_drain k b else b, int k, e))"
proof -
  have "k < 2 ^ 31" if "send (contents b) = Send_count k" for k
    using that assms length_contents [OF assms(1)] by (fastforce simp: send_ok_def wf_buffer_def)
  then show ?thesis
    using assms(1)
    by (auto simp: buffer_write_fd_def mem_read_contents Let_def to_int32_small size_of_int_nonneg
        split: send_result.split)
qed

subsection \<open>A buffer is a byte queue\<close>

text \<open>
  The callers of \<^verbatim>\<open>buffer_add\<close> in command.c and buffered_socket.c ignore its result.
\<close>

definition buffer_add_void ::
  "(nat \<Rightarrow> byte) \<Rightarrow> byte list \<Rightarrow> nat \<Rightarrow> buffer \<Rightarrow> fault + buffer" where
  "buffer_add_void junk source len b = bind_res (buffer_add junk source len b) (\<lambda>(b', rc). Inr b')"

definition buffer_put :: "(nat \<Rightarrow> byte) \<Rightarrow> byte list \<Rightarrow> buffer \<Rightarrow> fault + buffer" where
  "buffer_put junk bs = buffer_add_void junk bs (length bs)"

lemma mem_read_take: "len \<le> length m \<Longrightarrow> mem_read (take len m) 0 len = mem_read m 0 len"
  by (simp add: mem_read_def)

lemma buffer_add_take:
  assumes "len \<le> length src"
  shows "buffer_add junk (take len src) len b = buffer_add junk src len b"
  unfolding buffer_add_def mem_read_take [OF assms] ..

lemma buffer_add_void_take:
  "len \<le> length src \<Longrightarrow> buffer_add_void junk src len = buffer_put junk (take len src)"
  by (simp add: fun_eq_iff buffer_put_def buffer_add_void_def buffer_add_take)

lemma buffer_add_void_str: "buffer_add_void junk s (strlen s) = buffer_put junk (c_str s)"
  by (simp add: buffer_add_void_take strlen_le take_strlen)

lemma length_lt_block: "wf_buffer b \<Longrightarrow> offset b + n \<le> blength b \<Longrightarrow> n < 2 ^ 31 \<and> n \<le> room b"
  by (auto simp: wf_buffer_def room_def)

lemma buffer_put_fits:
  assumes "wf_buffer b" and "length (contents b) + length s \<le> blength b"
  shows "\<exists>b'. buffer_put junk s b = Inr b' \<and> wf_buffer b' \<and> contents b' = contents b @ s
    \<and> blength b' = blength b"
  using buffer_add_fits [OF assms(1), of "length s" s junk] assms length_lt_block [OF assms(1)]
  by (auto simp: buffer_put_def buffer_add_void_def length_contents)

interpretation bq: byte_queue wf_buffer contents blength "buffer_put junk" buffer_drain buffer_reset
  for junk :: "nat \<Rightarrow> byte"
  by unfold_locales (simp_all add: buffer_put_fits wf_buffer_drain contents_buffer_drain)

text \<open>The capacity is fixed at creation, and a bounded block never outgrows it.\<close>

lemma buffer_expand_frame:
  "buffer_expand junk need b = Inr (b', rc) \<Longrightarrow> capacity b' = capacity b
    \<and> (0 < capacity b \<longrightarrow> blength b \<le> capacity b \<longrightarrow> blength b' \<le> capacity b')"
  by (auto simp: buffer_expand_def Let_def bind_res_Inr_iff split: if_splits option.splits)

lemma buffer_add_frame:
  "buffer_add junk src len b = Inr (b', rc) \<Longrightarrow> capacity b' = capacity b
    \<and> (0 < capacity b \<longrightarrow> blength b \<le> capacity b \<longrightarrow> blength b' \<le> capacity b')"
  by (fastforce simp: buffer_add_def Let_def bind_res_Inr_iff split: if_splits
      dest: buffer_expand_frame)

lemma buffer_put_capacity: "buffer_put junk s b = Inr b' \<Longrightarrow> capacity b' = capacity b"
  by (auto simp: buffer_put_def buffer_add_void_def bind_res_Inr_iff dest: buffer_add_frame)

lemma buffer_puts_capacity:
  "block (map (buffer_put junk) ss) b = Inr b' \<Longrightarrow> capacity b' = capacity b"
  by (induction ss arbitrary: b) (auto simp: bind_res_Inr_iff dest: buffer_put_capacity)

text \<open>With a bounded capacity, the only other outcome of an addition is that it is refused.\<close>

definition wf_bounded :: "buffer \<Rightarrow> bool" where
  "wf_bounded b \<longleftrightarrow> wf_buffer b \<and> 0 < capacity b \<and> capacity b < 2 ^ 31"

lemma buffer_put_total:
  assumes "wf_bounded b" and "length s < 2 ^ 31"
  shows "\<exists>b'. buffer_put junk s b = Inr b' \<and> wf_bounded b'
    \<and> (contents b' = contents b @ s \<or> b' = b)"
  using buffer_add_accepted [of b "length s" s junk] buffer_add_rejected [of b "length s" junk s]
    assms by (cases "accepts (length s) b")
      (fastforce simp: buffer_put_def buffer_add_void_def wf_bounded_def growable_def)+

lemma buffer_put_bounded:
  assumes "wf_bounded b" and "length (contents b) + length s \<le> blength b"
  shows "\<exists>b'. buffer_put junk s b = Inr b' \<and> wf_bounded b' \<and> contents b' = contents b @ s
    \<and> blength b' = blength b"
  using buffer_add_fits [of b "length s" s junk] assms length_lt_block [of b "length s"]
  by (auto simp: buffer_put_def buffer_add_void_def length_contents wf_bounded_def)

text \<open>The same for the calls with an explicit length, and for a read from a descriptor.\<close>

lemma buffer_add_void_bounded:
  assumes "wf_bounded b" and "len < 2 ^ 31" and "buffer_add_void junk src len b = Inr b'"
  shows "wf_bounded b'"
proof (cases "accepts len b")
  case True
  have wf: "wf_buffer b" "growable len b"
    using assms(1) by (simp_all add: wf_bounded_def growable_def)
  have "len \<le> length src"
  proof (rule ccontr)
    assume "\<not> len \<le> length src"
    then have "mem_read src 0 len = Inl Out_of_bounds" by (simp add: mem_read_def)
    then have "buffer_add junk src len b = Inl Out_of_bounds"
      using make_room_accepts [OF wf(1) assms(2) True wf(2), of junk]
      by (auto simp: buffer_add_eq [OF wf(1) assms(2)])
    then show False using assms(3) by (simp add: buffer_add_void_def)
  qed
  then show ?thesis
    using buffer_add_accepted [OF wf(1) assms(2) _ True wf(2), of src junk] assms
    by (auto simp: buffer_add_void_def wf_bounded_def)
next
  case False
  then show ?thesis
    using buffer_add_rejected [of b len junk src] assms by (auto simp: buffer_add_void_def wf_bounded_def)
qed

lemma buffer_read_fd_bounded:
  assumes "wf_bounded b" and "read_env_ok env"
  shows "\<exists>rb res err new. buffer_read_fd junk env e b = Inr (rb, res, err) \<and> wf_bounded rb
    \<and> contents rb = contents b @ new \<and> (res \<le> 0 \<longrightarrow> new = []) \<and> (0 \<le> res \<longrightarrow> res = int (length new))"
proof -
  have wf: "wf_buffer b" "growable (read_size env) b"
    using assms(1) by (simp_all add: wf_bounded_def growable_def)
  show ?thesis
  proof (cases "accepts (read_size env) b")
    case True
    then show ?thesis
      using buffer_read_fd_accepted [OF wf(1) assms(2) True wf(2), of junk e] assms(1)
      by (cases "recv env (read_size env)") (auto simp: wf_bounded_def)
  next
    case False
    then show ?thesis
      using buffer_read_fd_rejected [OF wf(1) assms(2) False, of junk e] assms(1) by auto
  qed
qed

lemma wf_bounded_drain: "wf_bounded b \<Longrightarrow> wf_bounded (buffer_drain n b)"
  by (simp add: wf_bounded_def wf_buffer_drain)

lemma wf_bounded_reset: "wf_bounded b \<Longrightarrow> wf_bounded (buffer_reset b)"
  by (simp add: wf_bounded_def)

lemma offset_contents: "wf_bounded b \<Longrightarrow> offset b = length (contents b)"
  by (simp add: wf_bounded_def length_contents)

interpretation lq: lossy_queue wf_bounded contents blength "buffer_put junk" buffer_drain
    buffer_reset "2 ^ 31"
  for junk :: "nat \<Rightarrow> byte"
  by unfold_locales
    (simp_all add: buffer_put_bounded buffer_put_total,
     simp_all add: wf_bounded_def wf_buffer_drain contents_buffer_drain)

subsection \<open>Properties\<close>

text \<open>
  Property C26: \<^verbatim>\<open>buffer_add\<close> on every branch. It appends exactly the given bytes
  behind the buffered ones and returns 1 when they fit or the block may grow to hold them;
  otherwise it returns 0 and leaves the buffer as it was. It never leaves its block,
  whatever a fresh block contains.
\<close>

theorem buffer_add_cases:
  assumes "wf_buffer b" and "len < 2 ^ 31" and "len \<le> length src" and "growable len b"
  shows "\<exists>b'. buffer_add junk src len b = Inr (b', if accepts len b then 1 else 0)
    \<and> wf_buffer b' \<and> capacity b' = capacity b
    \<and> contents b' = contents b @ (if accepts len b then take len src else [])
    \<and> (accepts len b \<or> b' = b)"
proof (cases "accepts len b")
  case True
  then show ?thesis using buffer_add_accepted [OF assms(1-3) _ assms(4), of junk] by auto
next
  case False
  then show ?thesis using buffer_add_rejected [OF assms(1,2), of junk src] assms(1) by auto
qed

theorem buffer_add_cases_witness:
  "\<exists>b'. buffer_add (\<lambda>_. 0) [1, 2, 3] 3 (new_buffer (\<lambda>_. 7) 2 8) = Inr (b', 1)
    \<and> contents b' = [1, 2, 3]"
proof -
  let ?b = "new_buffer (\<lambda>_. 7) 2 8"
  have "grow 2 1 = Some 2" by (subst grow.simps) simp
  then have acc: "accepts 3 ?b"
    by (simp add: accepts_def grown_def add_need_def new_buffer_def)
  have "growable 3 ?b" by (simp add: growable_def new_buffer_def)
  then show ?thesis
    using buffer_add_cases [of ?b 3 "[1, 2, 3]" "\<lambda>_. 0"] wf_new_buffer [of 2 "\<lambda>_. 7" 8] acc
    by auto
qed

text \<open>
  Property C25: a buffer is a first-in first-out queue. Any sequence of additions, drains and
  resets whose data never exceed the block runs without a fault and leaves exactly the bytes
  that the same operations leave on a list; re-aligning and pointer moves are invisible.
\<close>

theorem buffer_refines_fifo:
  assumes "wf_buffer b" and "fifo_fits (blength b) ops (contents b)"
  shows "\<exists>b'. queue_run (buffer_put junk) buffer_drain buffer_reset ops b = Inr b'
    \<and> wf_buffer b' \<and> contents b' = fifo_run ops (contents b) \<and> blength b' = blength b"
  using assms by (rule bq.run_refines)

theorem buffer_refines_fifo_witness:
  "\<exists>b'. queue_run (buffer_put (\<lambda>_. 0)) buffer_drain buffer_reset
       [Add [1, 2, 3], Drain 2, Add [4, 5, 6]] (new_buffer (\<lambda>_. 9) 4 4) = Inr b'
    \<and> contents b' = [3, 4, 5, 6]"
  using buffer_refines_fifo [of "new_buffer (\<lambda>_. 9) 4 4"
      "[Add [1, 2, 3], Drain 2, Add [4, 5, 6]]" "\<lambda>_. 0"]
  by (auto simp: wf_new_buffer simp del: queue_run.simps)

text \<open>
  Property C31: \<^verbatim>\<open>buffer_read_fd\<close> on every branch. With room for a read it appends the
  bytes that \<^verbatim>\<open>recv\<close> delivered and returns their number, or returns -1 with the
  buffered bytes unchanged and \<^verbatim>\<open>errno\<close> set by \<^verbatim>\<open>recv\<close>. When the capacity forbids
  the growth it returns -1 with nothing read, and \<^verbatim>\<open>errno\<close> is not set by that failure.
\<close>

theorem buffer_read_fd_cases:
  assumes "wf_buffer b" and "read_env_ok env" and "growable (read_size env) b"
  shows "\<exists>b'. wf_buffer b' \<and> capacity b' = capacity b \<and>
    (if accepts (read_size env) b then
       (case recv env (read_size env) of
          Recv_error err \<Rightarrow>
            buffer_read_fd junk env e b = Inr (b', -1, err) \<and> contents b' = contents b
        | Recv_bytes bs \<Rightarrow>
            buffer_read_fd junk env e b = Inr (b', int (length bs), read_errno env e)
            \<and> contents b' = contents b @ bs)
     else buffer_read_fd junk env e b = Inr (b, -1, read_errno env e) \<and> b' = b)"
proof (cases "accepts (read_size env) b")
  case True
  then show ?thesis
    using buffer_read_fd_accepted [OF assms(1,2) _ assms(3), of junk e] by simp
next
  case False
  then show ?thesis
    using buffer_read_fd_rejected [OF assms(1,2), of junk e] assms(1) by auto
qed

theorem buffer_read_fd_cases_witness:
  "\<exists>b'. buffer_read_fd (\<lambda>_. 0)
       \<lparr>ioctl_ret = 0, ioctl_n = 2, ioctl_errno = 0, recv = (\<lambda>n. Recv_bytes (take n [8, 9]))\<rparr> 0
       (new_buffer (\<lambda>_. 7) 4 4) = Inr (b', 2, 0) \<and> contents b' = [8, 9]"
proof -
  let ?env = "\<lparr>ioctl_ret = 0, ioctl_n = 2, ioctl_errno = 0,
               recv = (\<lambda>n. Recv_bytes (take n [8, 9]))\<rparr>"
  let ?b = "new_buffer (\<lambda>_. 7) 4 4"
  have env: "read_env_ok ?env" by (auto simp: read_env_ok_def)
  have n: "read_size ?env = 2" by (simp add: read_size_def)
  have gr: "growable (read_size ?env) ?b" by (simp add: growable_def new_buffer_def)
  have acc: "accepts (read_size ?env) ?b" by (simp add: accepts_def room_def new_buffer_def n)
  show ?thesis
    using buffer_read_fd_cases [OF wf_new_buffer env gr, of "\<lambda>_. 0" 0] acc
    by (auto simp: n read_errno_def)
qed

text \<open>
  Property C34: the doubling loop of \<^verbatim>\<open>buffer_expand\<close> returns exactly when the block is
  not empty or nothing is needed; a buffer created with length 0 hangs in it.
\<close>

theorem grow_returns_iff:
  assumes "need \<le> 2 ^ 63" and "e \<le> 2 ^ 63"
  shows "(\<exists>x. grow e need = Some x) \<longleftrightarrow> 0 < e \<or> need = 0"
proof (cases "0 < e")
  case True
  then show ?thesis using grow_enough [OF _ assms] by auto
next
  case False
  then show ?thesis
    using grow_zero [of need] by (cases "need = 0") (auto simp: grow.simps [of 0 0])
qed

theorem grow_returns_iff_witness: "\<exists>x. grow 16 100 = Some x"
  using grow_returns_iff [of 100 16] by simp

text \<open>
  The bound of \<^verbatim>\<open>buffer_add\<close>'s \<^verbatim>\<open>int32_t need\<close>. An addition that
  overruns the block by \<open>2 ^ 31\<close> bytes or more makes \<^verbatim>\<open>need\<close> negative, no room is
  made, and the copy leaves the block.
\<close>

theorem buffer_add_int32_overflow:
  assumes "wf_buffer b" and "len \<le> length src"
    and "2 ^ 31 + blength b \<le> offset b + data b + len"
    and "offset b + data b + len < 2 ^ 32 + blength b"
  shows "buffer_add junk src len b = Inl Out_of_bounds"
proof -
  let ?n = "offset b + data b + len"
  have wf: "blength b = length (orig b)" "data b + offset b \<le> blength b" "blength b < 2 ^ 31"
    using assms(1) by (auto simp: wf_buffer_def)
  have "size_sub ?n (blength b) = ?n - blength b"
    using assms wf by (intro size_sub_ge) simp_all
  then have "to_int32 (size_sub ?n (blength b)) < 0"
    using assms wf by (simp add: to_int32_def Let_def)
  moreover have "size_add (size_add (data b) (offset b)) len = ?n"
    using assms wf by (simp add: size_add_small add.commute)
  ultimately show ?thesis
    using assms(2,3) wf
    by (simp add: buffer_add_def mem_read_def mem_write_def)
qed

theorem buffer_add_int32_overflow_witness:
  "buffer_add (\<lambda>_. 0) (replicate (2 ^ 31 + 16) 1) (2 ^ 31 + 16) (new_buffer (\<lambda>_. 0) 16 0)
    = Inl Out_of_bounds"
  by (rule buffer_add_int32_overflow)
    (simp_all add: wf_new_buffer, simp_all add: new_buffer_def)

end
