(* ===== verification/Command.thy ===== *)
theory Command
  imports Buffer
begin

section \<open>Writing NSQ commands (command.c)\<close>

text \<open>
  The functions of \<^verbatim>\<open>src/command.c\<close>, which append one command of the NSQ protocol to a
  buffer. A C string is the list of its bytes; \<^verbatim>\<open>strlen\<close> stops at the first NUL byte, and
  the end of the list is the terminator. Every call of \<^verbatim>\<open>buffer_add\<close> ignores its result, as
  in the code (\<open>buffer_add_void\<close>). The specification is the wire format of each command; the
  lemmas show that the functions write exactly it when the buffer has room, and what they
  write when it has not.
\<close>

datatype nsq_cmd_param = Param_int int | Param_char "byte list"

text \<open>\<^verbatim>\<open>sprintf(b, "%d", i)\<close>: the characters written before the terminator.\<close>

fun dec_digits :: "nat \<Rightarrow> byte list" where
  "dec_digits n =
     (if n < 10 then [of_nat (48 + n)] else dec_digits (n div 10) @ [of_nat (48 + n mod 10)])"

declare dec_digits.simps [simp del]

definition sprintf_d :: "int \<Rightarrow> byte list" where
  "sprintf_d i = (if i < 0 then 45 # dec_digits (nat (- i)) else dec_digits (nat i))"

text \<open>One turn of the parameter loop; the local array \<^verbatim>\<open>b\<close> has 64 bytes.\<close>

definition add_param :: "(nat \<Rightarrow> byte) \<Rightarrow> nsq_cmd_param \<Rightarrow> buffer \<Rightarrow> fault + buffer" where
  "add_param junk p = block
     [buffer_add_void junk [32] 1,
      (case p of
         Param_int i \<Rightarrow>
           (let l = length (sprintf_d i) in
            if 64 < l + 1 then (\<lambda>_. Inl Out_of_bounds)
            else buffer_add_void junk (sprintf_d i) l)
       | Param_char v \<Rightarrow> buffer_add_void junk v (strlen v))]"

fun add_params ::
  "(nat \<Rightarrow> byte) \<Rightarrow> nsq_cmd_param list \<Rightarrow> nat \<Rightarrow> buffer \<Rightarrow> fault + buffer" where
  "add_params junk ps 0 buf = Inr buf"
| "add_params junk [] (Suc n) buf = Inl Out_of_bounds"
| "add_params junk (p # ps) (Suc n) buf = block [add_param junk p, add_params junk ps n] buf"

definition nsq_buffer_add ::
  "(nat \<Rightarrow> byte) \<Rightarrow> byte list \<Rightarrow> nsq_cmd_param list option \<Rightarrow> nat \<Rightarrow>
    byte list option \<Rightarrow> nat \<Rightarrow> buffer \<Rightarrow> fault + buffer" where
  "nsq_buffer_add junk name params psize body body_length = block
     [buffer_add_void junk name (strlen name),
      (case params of None \<Rightarrow> Inr | Some ps \<Rightarrow> add_params junk ps psize),
      buffer_add_void junk [10] 1,
      (case body of
         None \<Rightarrow> Inr
       | Some bs \<Rightarrow> block
           [buffer_add_void junk (be32_bytes (of_nat body_length)) 4,
            buffer_add_void junk bs body_length])]"

definition nsq_subscribe :: "(nat \<Rightarrow> byte) \<Rightarrow> byte list \<Rightarrow> byte list \<Rightarrow> buffer \<Rightarrow> fault + buffer" where
  "nsq_subscribe junk topic channel =
     nsq_buffer_add junk (bytes_of ''SUB'') (Some [Param_char topic, Param_char channel]) 2 None 0"

definition nsq_ready :: "(nat \<Rightarrow> byte) \<Rightarrow> int \<Rightarrow> buffer \<Rightarrow> fault + buffer" where
  "nsq_ready junk count =
     nsq_buffer_add junk (bytes_of ''RDY'') (Some [Param_int count]) 1 None 0"

definition nsq_finish :: "(nat \<Rightarrow> byte) \<Rightarrow> byte list \<Rightarrow> buffer \<Rightarrow> fault + buffer" where
  "nsq_finish junk msg_id =
     nsq_buffer_add junk (bytes_of ''FIN'') (Some [Param_char msg_id]) 1 None 0"

definition nsq_requeue :: "(nat \<Rightarrow> byte) \<Rightarrow> byte list \<Rightarrow> int \<Rightarrow> buffer \<Rightarrow> fault + buffer" where
  "nsq_requeue junk msg_id timeout_ms =
     nsq_buffer_add junk (bytes_of ''REQ'') (Some [Param_char msg_id, Param_int timeout_ms]) 2 None 0"

definition nsq_nop :: "(nat \<Rightarrow> byte) \<Rightarrow> buffer \<Rightarrow> fault + buffer" where
  "nsq_nop junk = nsq_buffer_add junk (bytes_of ''NOP'') None 0 None 0"

definition nsq_publish :: "(nat \<Rightarrow> byte) \<Rightarrow> byte list \<Rightarrow> byte list \<Rightarrow> buffer \<Rightarrow> fault + buffer" where
  "nsq_publish junk topic body =
     nsq_buffer_add junk (bytes_of ''PUB'') (Some [Param_char topic]) 1 (Some body) (strlen body)"

definition nsq_defer_publish ::
  "(nat \<Rightarrow> byte) \<Rightarrow> byte list \<Rightarrow> byte list \<Rightarrow> int \<Rightarrow> buffer \<Rightarrow> fault + buffer" where
  "nsq_defer_publish junk topic body defer_time_sec =
     nsq_buffer_add junk (bytes_of ''DPUB'') (Some [Param_char topic, Param_int defer_time_sec]) 2
       (Some body) (strlen body)"

text \<open>
  \<^verbatim>\<open>nsq_multi_publish\<close>: a first loop sums the size of the combined body, a second one
  fills the allocated block \<^verbatim>\<open>b\<close> from position \<^verbatim>\<open>n\<close> on.
\<close>

fun mpub_size :: "byte list list \<Rightarrow> nat \<Rightarrow> nat \<Rightarrow> fault + nat" where
  "mpub_size body 0 s = Inr s"
| "mpub_size [] (Suc k) s = Inl Out_of_bounds"
| "mpub_size (x # body) (Suc k) s = mpub_size body k (size_add s (size_add (strlen x) 4))"

fun mpub_fill :: "byte list list \<Rightarrow> nat \<Rightarrow> nat \<Rightarrow> byte list \<Rightarrow> fault + byte list" where
  "mpub_fill body 0 n b = Inr b"
| "mpub_fill [] (Suc k) n b = Inl Out_of_bounds"
| "mpub_fill (x # body) (Suc k) n b =
     (let l = strlen x in
      bind_res (mem_write b n (be32_bytes (of_nat l))) (\<lambda>b1.
      bind_res (mem_read x 0 l) (\<lambda>bs.
      bind_res (mem_write b1 (size_add n 4) bs) (\<lambda>b2.
        mpub_fill body k (size_add (size_add n 4) l) b2))))"

definition nsq_multi_publish ::
  "(nat \<Rightarrow> byte) \<Rightarrow> byte list \<Rightarrow> byte list list \<Rightarrow> nat \<Rightarrow> buffer \<Rightarrow> fault + buffer" where
  "nsq_multi_publish junk topic body body_size buf =
     bind_res (mpub_size body body_size 4) (\<lambda>s.
     bind_res (mem_write (malloc_block junk s) 0 (be32_bytes (of_nat body_size))) (\<lambda>b0.
     bind_res (mpub_fill body body_size 4 b0) (\<lambda>b.
       nsq_buffer_add junk (bytes_of ''MPUB'') (Some [Param_char topic]) 1 (Some b) s buf)))"

definition nsq_touch :: "(nat \<Rightarrow> byte) \<Rightarrow> byte list \<Rightarrow> buffer \<Rightarrow> fault + buffer" where
  "nsq_touch junk msg_id =
     nsq_buffer_add junk (bytes_of ''TOUCH'') (Some [Param_char msg_id]) 1 None 0"

definition nsq_cleanly_close_connection :: "(nat \<Rightarrow> byte) \<Rightarrow> buffer \<Rightarrow> fault + buffer" where
  "nsq_cleanly_close_connection junk = nsq_buffer_add junk (bytes_of ''CLS'') None 0 None 0"

definition nsq_auth :: "(nat \<Rightarrow> byte) \<Rightarrow> byte list \<Rightarrow> buffer \<Rightarrow> fault + buffer" where
  "nsq_auth junk secret =
     nsq_buffer_add junk (bytes_of ''AUTH'') None 0 (Some secret) (strlen secret)"

definition nsq_identify :: "(nat \<Rightarrow> byte) \<Rightarrow> byte list \<Rightarrow> buffer \<Rightarrow> fault + buffer" where
  "nsq_identify junk json_body =
     nsq_buffer_add junk (bytes_of ''IDENTIFY'') None 1 (Some json_body) (strlen json_body)"

subsection \<open>The pieces a command is written in\<close>

fun param_text :: "nsq_cmd_param \<Rightarrow> byte list" where
  "param_text (Param_int i) = sprintf_d i"
| "param_text (Param_char v) = c_str v"

definition cmd_pieces ::
  "byte list \<Rightarrow> nsq_cmd_param list \<Rightarrow> byte list option \<Rightarrow> byte list list" where
  "cmd_pieces name ps body =
     c_str name # concat (map (\<lambda>p. [[32], param_text p]) ps) @ [[10]]
     @ (case body of None \<Rightarrow> [] | Some bs \<Rightarrow> [be32_bytes (of_nat (length bs)), bs])"

definition cmd_bytes :: "byte list \<Rightarrow> nsq_cmd_param list \<Rightarrow> byte list option \<Rightarrow> byte list" where
  "cmd_bytes name ps body = concat (cmd_pieces name ps body)"

definition int_range :: "int \<Rightarrow> bool" where
  "int_range i \<longleftrightarrow> - (2 ^ 31) \<le> i \<and> i < 2 ^ 31"

fun param_ok :: "nsq_cmd_param \<Rightarrow> bool" where
  "param_ok (Param_int i) = int_range i"
| "param_ok (Param_char v) = True"

lemma length_dec_digits: "n < 10 ^ Suc k \<Longrightarrow> length (dec_digits n) \<le> Suc k"
proof (induction k arbitrary: n)
  case 0
  then show ?case by (subst dec_digits.simps) simp
next
  case (Suc k)
  show ?case
  proof (cases "n < 10")
    case True
    then show ?thesis by (subst dec_digits.simps) simp
  next
    case False
    from Suc.prems have "n div 10 < 10 ^ Suc k" by (simp add: less_mult_imp_div_less)
    with Suc.IH False show ?thesis by (subst dec_digits.simps) simp
  qed
qed

lemma length_sprintf_d: "int_range i \<Longrightarrow> length (sprintf_d i) \<le> 11"
  using length_dec_digits [of "nat \<bar>i\<bar>" 9]
  by (cases "i < 0") (simp_all add: sprintf_d_def int_range_def nat_less_iff)

lemma add_param_eq:
  "param_ok p \<Longrightarrow> add_param junk p = block [buffer_put junk [32], buffer_put junk (param_text p)]"
  using length_sprintf_d
  by (cases p) (force simp: add_param_def buffer_add_void_str buffer_put_def)+

lemma block_singleton_cons: "block (block fs # gs) s = block (fs @ gs) s"
  by (simp add: block_append)

lemma add_params_eq:
  "list_all param_ok ps \<Longrightarrow> add_params junk ps (length ps) b =
     block (map (buffer_put junk) (concat (map (\<lambda>p. [[32], param_text p]) ps))) b"
proof (induction ps arbitrary: b)
  case Nil
  then show ?case by simp
next
  case (Cons p ps)
  then show ?case
    by (simp add: add_param_eq bind_res_assoc cong: bind_res_cong)
qed

text \<open>A command is the sequence of additions of its pieces.\<close>

lemma nsq_buffer_add_pieces:
  assumes "list_all param_ok ps"
    and "params = Some ps \<and> psize = length ps \<or> params = None \<and> ps = []"
    and "case body of None \<Rightarrow> True | Some bs \<Rightarrow> len \<le> length bs"
  shows "nsq_buffer_add junk name params psize body len b =
    block (map (buffer_put junk) (cmd_pieces name ps (map_option (take len) body))) b"
proof -
  have "(case params of None \<Rightarrow> Inr | Some ps \<Rightarrow> add_params junk ps psize) =
      block (map (buffer_put junk) (concat (map (\<lambda>p. [[32], param_text p]) ps)))"
    using assms(2) add_params_eq [OF assms(1)] by (auto simp: fun_eq_iff)
  then show ?thesis
    using assms(3)
    by (cases body)
      (simp_all add: nsq_buffer_add_def cmd_pieces_def buffer_add_void_str buffer_add_void_take
        block_append bind_res_assoc min_absorb2 cong: bind_res_cong)
qed

subsection \<open>The combined body of a multi publish\<close>

definition mpub_entry :: "byte list \<Rightarrow> byte list" where
  "mpub_entry x = be32_bytes (of_nat (strlen x)) @ c_str x"

definition mpub_body :: "byte list list \<Rightarrow> byte list" where
  "mpub_body body = be32_bytes (of_nat (length body)) @ concat (map mpub_entry body)"

lemma length_mpub_entry [simp]: "length (mpub_entry x) = 4 + strlen x"
  by (simp add: mpub_entry_def)

lemma mpub_size_eq:
  "s + length (concat (map mpub_entry body)) < 2 ^ 64 \<Longrightarrow>
    mpub_size body (length body) s = Inr (s + length (concat (map mpub_entry body)))"
proof (induction body arbitrary: s)
  case Nil
  then show ?case by simp
next
  case (Cons x body)
  then have "size_add s (size_add (strlen x) 4) = s + (4 + strlen x)"
    by (simp add: size_add_small)
  with Cons show ?case by simp
qed

lemma mpub_fill_eq:
  assumes "n + length (concat (map mpub_entry body)) \<le> length b" and "length b < 2 ^ 64"
  shows "mpub_fill body (length body) n b =
    Inr (take n b @ concat (map mpub_entry body) @ drop (n + length (concat (map mpub_entry body))) b)"
  using assms
proof (induction body arbitrary: n b)
  case Nil
  then show ?case by simp
next
  case (Cons x body)
  let ?b2 = "take n b @ mpub_entry x @ drop (n + length (mpub_entry x)) b"
  have n4: "size_add n 4 = n + 4" "size_add (size_add n 4) (strlen x) = n + length (mpub_entry x)"
    using Cons.prems by (simp_all add: size_add_small)
  have w1: "mem_write b n (be32_bytes (of_nat (strlen x)))
      = Inr (take n b @ be32_bytes (of_nat (strlen x)) @ drop (n + 4) b)"
    using Cons.prems by (simp add: mem_write_def)
  have r: "mem_read x 0 (strlen x) = Inr (c_str x)"
    by (simp add: mem_read_def strlen_le take_strlen)
  have w2: "mem_write (take n b @ be32_bytes (of_nat (strlen x)) @ drop (n + 4) b) (n + 4) (c_str x)
      = Inr ?b2"
    using Cons.prems by (simp add: mem_write_def mpub_entry_def ac_simps)
  have "mpub_fill (x # body) (length (x # body)) n b
      = mpub_fill body (length body) (n + length (mpub_entry x)) ?b2"
    using w1 r w2 n4 by (simp add: Let_def)
  also have "\<dots> = Inr (take (n + length (mpub_entry x)) ?b2 @ concat (map mpub_entry body)
      @ drop (n + length (mpub_entry x) + length (concat (map mpub_entry body))) ?b2)"
    using Cons.prems by (intro Cons.IH) simp_all
  finally show ?case
    using Cons.prems by (simp add: min_absorb2 add.commute add.left_commute)
qed

lemma nsq_multi_publish_eq:
  assumes "length (mpub_body body) < 2 ^ 64"
  shows "nsq_multi_publish junk topic body (length body) buf =
    nsq_buffer_add junk (bytes_of ''MPUB'') (Some [Param_char topic]) 1 (Some (mpub_body body))
      (length (mpub_body body)) buf"
proof -
  let ?es = "concat (map mpub_entry body)"
  let ?b = "malloc_block junk (4 + length ?es)"
  have len: "length (mpub_body body) = 4 + length ?es" by (simp add: mpub_body_def)
  have "mpub_size body (length body) 4 = Inr (4 + length ?es)"
    using assms len by (intro mpub_size_eq) simp
  moreover have "mem_write ?b 0 (be32_bytes (of_nat (length body)))
      = Inr (be32_bytes (of_nat (length body)) @ drop 4 ?b)"
    by (simp add: mem_write_def)
  moreover have "mpub_fill body (length body) 4 (be32_bytes (of_nat (length body)) @ drop 4 ?b)
      = Inr (mpub_body body)"
    using assms len by (subst mpub_fill_eq) (simp_all add: mpub_body_def)
  ultimately show ?thesis
    using len by (simp add: nsq_multi_publish_def)
qed

subsection \<open>The wire format of every command\<close>

text \<open>
  The commands of the protocol with their arguments, the function that sends each one, and
  the bytes that a command is on the wire.
\<close>

datatype nsq_command =
    SUB "byte list" "byte list"
  | RDY int
  | FIN "byte list"
  | REQ "byte list" int
  | NOP
  | PUB "byte list" "byte list"
  | DPUB "byte list" "byte list" int
  | MPUB "byte list" "byte list list"
  | TOUCH "byte list"
  | CLS
  | AUTH "byte list"
  | IDENTIFY "byte list"

fun send_command :: "(nat \<Rightarrow> byte) \<Rightarrow> nsq_command \<Rightarrow> buffer \<Rightarrow> fault + buffer" where
  "send_command junk (SUB t c) = nsq_subscribe junk t c"
| "send_command junk (RDY n) = nsq_ready junk n"
| "send_command junk (FIN i) = nsq_finish junk i"
| "send_command junk (REQ i ms) = nsq_requeue junk i ms"
| "send_command junk NOP = nsq_nop junk"
| "send_command junk (PUB t b) = nsq_publish junk t b"
| "send_command junk (DPUB t b d) = nsq_defer_publish junk t b d"
| "send_command junk (MPUB t bs) = nsq_multi_publish junk t bs (length bs)"
| "send_command junk (TOUCH i) = nsq_touch junk i"
| "send_command junk CLS = nsq_cleanly_close_connection junk"
| "send_command junk (AUTH s) = nsq_auth junk s"
| "send_command junk (IDENTIFY j) = nsq_identify junk j"

fun command_name :: "nsq_command \<Rightarrow> byte list" where
  "command_name (SUB t c) = bytes_of ''SUB''"
| "command_name (RDY n) = bytes_of ''RDY''"
| "command_name (FIN i) = bytes_of ''FIN''"
| "command_name (REQ i ms) = bytes_of ''REQ''"
| "command_name NOP = bytes_of ''NOP''"
| "command_name (PUB t b) = bytes_of ''PUB''"
| "command_name (DPUB t b d) = bytes_of ''DPUB''"
| "command_name (MPUB t bs) = bytes_of ''MPUB''"
| "command_name (TOUCH i) = bytes_of ''TOUCH''"
| "command_name CLS = bytes_of ''CLS''"
| "command_name (AUTH s) = bytes_of ''AUTH''"
| "command_name (IDENTIFY j) = bytes_of ''IDENTIFY''"

fun command_params :: "nsq_command \<Rightarrow> nsq_cmd_param list" where
  "command_params (SUB t c) = [Param_char t, Param_char c]"
| "command_params (RDY n) = [Param_int n]"
| "command_params (FIN i) = [Param_char i]"
| "command_params (REQ i ms) = [Param_char i, Param_int ms]"
| "command_params (PUB t b) = [Param_char t]"
| "command_params (DPUB t b d) = [Param_char t, Param_int d]"
| "command_params (MPUB t bs) = [Param_char t]"
| "command_params (TOUCH i) = [Param_char i]"
| "command_params _ = []"

fun command_body :: "nsq_command \<Rightarrow> byte list option" where
  "command_body (PUB t b) = Some (c_str b)"
| "command_body (DPUB t b d) = Some (c_str b)"
| "command_body (MPUB t bs) = Some (mpub_body bs)"
| "command_body (AUTH s) = Some (c_str s)"
| "command_body (IDENTIFY j) = Some (c_str j)"
| "command_body _ = None"

definition command_pieces :: "nsq_command \<Rightarrow> byte list list" where
  "command_pieces c = cmd_pieces (command_name c) (command_params c) (command_body c)"

definition command_bytes :: "nsq_command \<Rightarrow> byte list" where
  "command_bytes c = concat (command_pieces c)"

text \<open>The C \<^verbatim>\<open>int\<close> arguments are in range and a combined body fits \<^verbatim>\<open>size_t\<close>.\<close>

definition command_args_ok :: "nsq_command \<Rightarrow> bool" where
  "command_args_ok c \<longleftrightarrow> list_all param_ok (command_params c)
     \<and> (\<forall>bs. command_body c = Some bs \<longrightarrow> length bs < 2 ^ 32)"

lemma send_command_pieces:
  assumes "command_args_ok c"
  shows "send_command junk c b = block (map (buffer_put junk) (command_pieces c)) b"
proof (cases c)
  case (MPUB t bs)
  with assms have "length (mpub_body bs) < 2 ^ 64" by (simp add: command_args_ok_def)
  then have "send_command junk (MPUB t bs) b = nsq_buffer_add junk (bytes_of ''MPUB'')
      (Some [Param_char t]) 1 (Some (mpub_body bs)) (length (mpub_body bs)) b"
    by (simp add: nsq_multi_publish_eq)
  also have "\<dots> = block (map (buffer_put junk) (command_pieces (MPUB t bs))) b"
    by (subst nsq_buffer_add_pieces [of "[Param_char t]"]) (auto simp: command_pieces_def)
  finally show ?thesis using MPUB by simp
qed (use assms in \<open>simp_all add: command_args_ok_def command_pieces_def strlen_le take_strlen
    nsq_subscribe_def nsq_ready_def nsq_finish_def nsq_requeue_def nsq_nop_def nsq_publish_def
    nsq_defer_publish_def nsq_touch_def nsq_cleanly_close_connection_def nsq_auth_def
    nsq_identify_def nsq_buffer_add_pieces [where ps = \<open>command_params c\<close>]\<close>)

lemma send_command_fits:
  assumes "command_args_ok c" and "wf_buffer b"
    and "length (contents b) + length (command_bytes c) \<le> blength b"
  shows "\<exists>b'. send_command junk c b = Inr b' \<and> wf_buffer b'
    \<and> contents b' = contents b @ command_bytes c \<and> blength b' = blength b"
  using bq.adds_fit [OF assms(2), of "command_pieces c" junk] assms
  by (simp add: send_command_pieces command_bytes_def)

end
