(* ===== verification/Command_Decode.thy ===== *)
theory Command_Decode
  imports Command
begin

section \<open>Decoding the commands: the wire format is unambiguous\<close>

text \<open>
  A reference decoder for the client side of the NSQ protocol, as the peer reads it: a line
  up to the newline, split at spaces, and for the commands that carry one a body with a
  big-endian 32-bit length. It is the specification against which command.c is checked: what
  the functions of that file write decodes to the commands they were asked to send.
\<close>

fun split_at :: "byte \<Rightarrow> byte list \<Rightarrow> (byte list \<times> byte list) option" where
  "split_at c [] = None"
| "split_at c (b # bs) =
     (if b = c then Some ([], bs)
      else (case split_at c bs of None \<Rightarrow> None | Some (l, r) \<Rightarrow> Some (b # l, r)))"

fun tokens :: "byte list \<Rightarrow> byte list list" where
  "tokens [] = [[]]"
| "tokens (b # bs) =
     (if b = 32 then [] # tokens bs
      else (case tokens bs of [] \<Rightarrow> [[b]] | t # ts \<Rightarrow> (b # t) # ts))"

definition parse_nat :: "byte list \<Rightarrow> nat" where
  "parse_nat bs = foldl (\<lambda>a d. a * 10 + (unat d - 48)) 0 bs"

definition parse_int :: "byte list \<Rightarrow> int" where
  "parse_int bs =
     (case bs of [] \<Rightarrow> 0
      | b # ds \<Rightarrow> if b = 45 then - int (parse_nat ds) else int (parse_nat bs))"

definition take_sized :: "byte list \<Rightarrow> (byte list \<times> byte list) option" where
  "take_sized bs =
     (let n = unat (ntohl_at (take 4 bs)); r = drop 4 bs in
      if length bs < 4 \<or> length r < n then None else Some (take n r, drop n r))"

fun take_entries :: "nat \<Rightarrow> byte list \<Rightarrow> byte list list option" where
  "take_entries 0 bs = (if bs = [] then Some [] else None)"
| "take_entries (Suc n) bs =
     (case take_sized bs of
        None \<Rightarrow> None
      | Some (x, r) \<Rightarrow> map_option ((#) x) (take_entries n r))"

definition parse_mpub :: "byte list \<Rightarrow> byte list list option" where
  "parse_mpub bs =
     (if length bs < 4 then None else take_entries (unat (ntohl_at (take 4 bs))) (drop 4 bs))"

definition parse_body ::
  "(byte list \<Rightarrow> nsq_command option) \<Rightarrow> byte list \<Rightarrow> (nsq_command \<times> byte list) option" where
  "parse_body mk bs =
     (case take_sized bs of
        None \<Rightarrow> None
      | Some (x, r) \<Rightarrow> map_option (\<lambda>c. (c, r)) (mk x))"

definition parse_line ::
  "byte list \<Rightarrow> byte list list \<Rightarrow> byte list \<Rightarrow> (nsq_command \<times> byte list) option" where
  "parse_line name args rest =
     (case args of
        [] \<Rightarrow>
          if name = bytes_of ''NOP'' then Some (NOP, rest)
          else if name = bytes_of ''CLS'' then Some (CLS, rest)
          else if name = bytes_of ''AUTH'' then parse_body (Some \<circ> AUTH) rest
          else if name = bytes_of ''IDENTIFY'' then parse_body (Some \<circ> IDENTIFY) rest
          else None
      | [a] \<Rightarrow>
          if name = bytes_of ''RDY'' then Some (RDY (parse_int a), rest)
          else if name = bytes_of ''FIN'' then Some (FIN a, rest)
          else if name = bytes_of ''TOUCH'' then Some (TOUCH a, rest)
          else if name = bytes_of ''PUB'' then parse_body (Some \<circ> PUB a) rest
          else if name = bytes_of ''MPUB'' then
            parse_body (map_option (MPUB a) \<circ> parse_mpub) rest
          else None
      | [a, b] \<Rightarrow>
          if name = bytes_of ''SUB'' then Some (SUB a b, rest)
          else if name = bytes_of ''REQ'' then Some (REQ a (parse_int b), rest)
          else if name = bytes_of ''DPUB'' then parse_body (\<lambda>x. Some (DPUB a x (parse_int b))) rest
          else None
      | _ \<Rightarrow> None)"

definition parse_command :: "byte list \<Rightarrow> (nsq_command \<times> byte list) option" where
  "parse_command bs =
     (case split_at 10 bs of
        None \<Rightarrow> None
      | Some (line, rest) \<Rightarrow> parse_line (hd (tokens line)) (tl (tokens line)) rest)"

fun parse_commands :: "nat \<Rightarrow> byte list \<Rightarrow> nsq_command list option" where
  "parse_commands 0 bs = (if bs = [] then Some [] else None)"
| "parse_commands (Suc n) bs =
     (case parse_command bs of
        None \<Rightarrow> None
      | Some (c, r) \<Rightarrow> map_option ((#) c) (parse_commands n r))"

subsection \<open>Inverting each layer\<close>

lemma split_at_append: "c \<notin> set l \<Longrightarrow> split_at c (l @ c # r) = Some (l, r)"
  by (induction l) auto

lemma tokens_token: "32 \<notin> set t \<Longrightarrow> tokens t = [t]"
  by (induction t) auto

lemma tokens_append: "32 \<notin> set t \<Longrightarrow> tokens (t @ 32 # r) = t # tokens r"
  by (induction t) auto

lemma tokens_line:
  "32 \<notin> set name \<Longrightarrow> \<forall>t \<in> set ts. 32 \<notin> set t \<Longrightarrow>
    tokens (name @ concat (map ((#) 32) ts)) = name # ts"
  by (induction ts arbitrary: name) (auto simp: tokens_token tokens_append)

lemma unat_digit: "n < 10 \<Longrightarrow> unat (of_nat (48 + n) :: byte) = 48 + n"
  by (simp only: unat_of_nat) simp

lemma digits_range: "b \<in> set (dec_digits n) \<Longrightarrow> 48 \<le> unat b \<and> unat b \<le> 57"
proof (induction n rule: dec_digits.induct)
  case (1 n)
  then show ?case
    using unat_digit [of n] unat_digit [of "n mod 10"]
    by (subst (asm) dec_digits.simps) (auto split: if_splits)
qed

lemma dec_digits_nonempty: "dec_digits n \<noteq> []"
  by (subst dec_digits.simps) simp

lemma parse_nat_digits: "parse_nat (dec_digits n) = n"
proof (induction n rule: dec_digits.induct)
  case (1 n)
  show ?case
  proof (cases "n < 10")
    case True
    then show ?thesis
      using unat_digit [of n] by (subst dec_digits.simps) (simp add: parse_nat_def)
  next
    case False
    then have "parse_nat (dec_digits n)
        = parse_nat (dec_digits (n div 10)) * 10 + (unat (of_nat (48 + n mod 10) :: byte) - 48)"
      by (subst dec_digits.simps) (simp add: parse_nat_def)
    with False 1 show ?thesis
      using unat_digit [of "n mod 10"] by simp
  qed
qed

lemma parse_int_sprintf: "parse_int (sprintf_d i) = i"
proof (cases "i < 0")
  case True
  then show ?thesis by (simp add: sprintf_d_def parse_int_def parse_nat_digits)
next
  case False
  obtain b ds where d: "dec_digits (nat i) = b # ds"
    using dec_digits_nonempty by (cases "dec_digits (nat i)") auto
  then have "unat b \<noteq> unat (45 :: byte)"
    using digits_range [of b "nat i"] by simp
  then have "b \<noteq> 45" by blast
  with False d show ?thesis
    using parse_nat_digits [of "nat i"] by (simp add: sprintf_d_def parse_int_def)
qed

text \<open>What a peer can read back: no separator in a name or argument, no NUL in a body.\<close>

definition token_ok :: "byte list \<Rightarrow> bool" where
  "token_ok t \<longleftrightarrow> 0 \<notin> set t \<and> 10 \<notin> set t \<and> 32 \<notin> set t"

lemma sprintf_token: "token_ok (sprintf_d i)"
proof -
  have "unat b = 45 \<or> 48 \<le> unat b" if "b \<in> set (sprintf_d i)" for b
    using that digits_range [of b "nat i"] digits_range [of b "nat (- i)"]
    by (auto simp: sprintf_d_def split: if_splits)
  then show ?thesis by (fastforce simp: token_ok_def)
qed

lemma take_sized_append:
  "length x < 2 ^ 32 \<Longrightarrow> take_sized (be32_bytes (of_nat (length x)) @ x @ r) = Some (x, r)"
  by (simp add: take_sized_def unat_of_nat)

lemma take_entries_concat:
  "\<forall>x \<in> set xs. length x < 2 ^ 32 \<and> 0 \<notin> set x \<Longrightarrow>
    take_entries (length xs) (concat (map mpub_entry xs)) = Some xs"
proof (induction xs)
  case Nil
  then show ?case by simp
next
  case (Cons x xs)
  then have "take_sized (mpub_entry x @ concat (map mpub_entry xs))
      = Some (x, concat (map mpub_entry xs))"
    using take_sized_append [of x] by (simp add: mpub_entry_def c_str_id flip: length_c_str)
  with Cons show ?case by simp
qed

lemma length_concat_entries: "4 * length xs \<le> length (concat (map mpub_entry xs))"
  by (induction xs) auto

lemma entry_le: "x \<in> set xs \<Longrightarrow> length (mpub_entry x) \<le> length (concat (map mpub_entry xs))"
  by (induction xs) auto

lemma parse_mpub_body:
  assumes "length (mpub_body xs) < 2 ^ 32" and "\<forall>x \<in> set xs. 0 \<notin> set x"
  shows "parse_mpub (mpub_body xs) = Some xs"
proof -
  have "length x < 2 ^ 32" if "x \<in> set xs" for x
    using entry_le [OF that] that assms
    by (simp add: mpub_body_def c_str_id flip: length_c_str)
  moreover have "unat (of_nat (length xs) :: 32 word) = length xs"
    using length_concat_entries [of xs] assms(1) by (simp add: mpub_body_def unat_of_nat)
  ultimately show ?thesis
    using assms(2) by (simp add: parse_mpub_def mpub_body_def take_entries_concat)
qed

subsection \<open>Round trip\<close>

definition command_ok :: "nsq_command \<Rightarrow> bool" where
  "command_ok c \<longleftrightarrow> command_args_ok c
     \<and> (case c of
          SUB t ch \<Rightarrow> token_ok t \<and> token_ok ch
        | FIN i \<Rightarrow> token_ok i
        | REQ i ms \<Rightarrow> token_ok i
        | PUB t b \<Rightarrow> token_ok t \<and> 0 \<notin> set b
        | DPUB t b d \<Rightarrow> token_ok t \<and> 0 \<notin> set b
        | MPUB t bs \<Rightarrow> token_ok t \<and> (\<forall>b \<in> set bs. 0 \<notin> set b)
        | TOUCH i \<Rightarrow> token_ok i
        | AUTH s \<Rightarrow> 0 \<notin> set s
        | IDENTIFY j \<Rightarrow> 0 \<notin> set j
        | _ \<Rightarrow> True)"

definition body_bytes :: "byte list option \<Rightarrow> byte list" where
  "body_bytes body = (case body of None \<Rightarrow> [] | Some bs \<Rightarrow> be32_bytes (of_nat (length bs)) @ bs)"

lemma concat_pieces:
  "concat (concat (map (\<lambda>p. [[x], f p]) ps)) = concat (map (\<lambda>p. x # f p) ps)"
  by (induction ps) auto

lemma command_bytes_split:
  "command_bytes c = c_str (command_name c) @ concat (map ((#) 32 \<circ> param_text) (command_params c))
     @ 10 # body_bytes (command_body c)"
  by (simp add: command_bytes_def command_pieces_def cmd_pieces_def body_bytes_def comp_def
      concat_pieces split: option.split)

lemma bytes_of_eqs [wire_simps]:
  "bytes_of ''SUB'' = [83, 85, 66]" "bytes_of ''RDY'' = [82, 68, 89]"
  "bytes_of ''FIN'' = [70, 73, 78]" "bytes_of ''REQ'' = [82, 69, 81]"
  "bytes_of ''NOP'' = [78, 79, 80]" "bytes_of ''PUB'' = [80, 85, 66]"
  "bytes_of ''DPUB'' = [68, 80, 85, 66]" "bytes_of ''MPUB'' = [77, 80, 85, 66]"
  "bytes_of ''TOUCH'' = [84, 79, 85, 67, 72]" "bytes_of ''CLS'' = [67, 76, 83]"
  "bytes_of ''AUTH'' = [65, 85, 84, 72]"
  "bytes_of ''IDENTIFY'' = [73, 68, 69, 78, 84, 73, 70, 89]"
  by (simp_all add: bytes_of_def of_char_def)

lemma command_name_ok: "token_ok (command_name c)"
  by (cases c) (simp_all add: token_ok_def wire_simps)

lemma param_text_ok: "command_ok c \<Longrightarrow> p \<in> set (command_params c) \<Longrightarrow> token_ok (param_text p)"
  using sprintf_token [unfolded token_ok_def]
  by (cases c) (auto simp: command_ok_def c_str_id token_ok_def)

lemma parse_command_line:
  assumes "command_ok c"
  shows "parse_command (command_bytes c @ r) =
    parse_line (command_name c) (map param_text (command_params c))
      (body_bytes (command_body c) @ r)"
proof -
  let ?ts = "map param_text (command_params c)"
  let ?line = "command_name c @ concat (map ((#) 32) ?ts)"
  have name: "c_str (command_name c) = command_name c"
    using command_name_ok [of c] by (simp add: token_ok_def c_str_id)
  have ts: "\<forall>t \<in> set ?ts. token_ok t" using param_text_ok [OF assms] by auto
  then have "10 \<notin> set ?line"
    using command_name_ok [of c] by (auto simp: token_ok_def)
  then have "split_at 10 (?line @ 10 # (body_bytes (command_body c) @ r))
      = Some (?line, body_bytes (command_body c) @ r)"
    by (rule split_at_append)
  moreover have "tokens ?line = command_name c # ?ts"
    using ts command_name_ok [of c] by (intro tokens_line) (auto simp: token_ok_def)
  moreover have "command_bytes c @ r = ?line @ 10 # (body_bytes (command_body c) @ r)"
    by (simp add: command_bytes_split name comp_def)
  ultimately show ?thesis by (simp add: parse_command_def)
qed

lemma parse_body_bytes:
  "length x < 2 ^ 32 \<Longrightarrow>
    parse_body mk (body_bytes (Some x) @ r) = map_option (\<lambda>c. (c, r)) (mk x)"
  using take_sized_append [of x r] by (simp add: parse_body_def body_bytes_def)

lemma parse_command_roundtrip:
  assumes "command_ok c"
  shows "parse_command (command_bytes c @ r) = Some (c, r)"
proof -
  have len: "\<And>x. command_body c = Some x \<Longrightarrow> length x < 2 ^ 32"
    using assms by (simp add: command_ok_def command_args_ok_def)
  show ?thesis
    unfolding parse_command_line [OF assms]
    using assms len
    by (cases c) (simp_all add: parse_line_def wire_simps parse_body_bytes c_str_id parse_int_sprintf
      command_ok_def token_ok_def parse_mpub_body, simp_all add: body_bytes_def)
qed

lemma parse_commands_roundtrip:
  "list_all command_ok cs \<Longrightarrow>
    parse_commands (length cs) (concat (map command_bytes cs)) = Some cs"
  by (induction cs) (simp_all add: parse_command_roundtrip)

text \<open>Sending a list of commands appends their bytes, in order.\<close>

lemma block_commands:
  "list_all command_args_ok cs \<Longrightarrow>
    block (map (send_command junk) cs) b
      = block (map (buffer_put junk) (concat (map command_pieces cs))) b"
  by (induction cs arbitrary: b)
    (simp_all add: send_command_pieces block_append cong: bind_res_cong)

lemma concat_command_pieces: "concat (concat (map command_pieces cs)) = concat (map command_bytes cs)"
  by (induction cs) (simp_all add: command_bytes_def)

lemma send_commands_fit:
  assumes "list_all command_args_ok cs" and "wf_buffer b"
    and "length (contents b) + length (concat (map command_bytes cs)) \<le> blength b"
  shows "\<exists>b'. block (map (send_command junk) cs) b = Inr b' \<and> wf_buffer b'
    \<and> contents b' = contents b @ concat (map command_bytes cs) \<and> blength b' = blength b"
  using bq.adds_fit [OF assms(2), of "concat (map command_pieces cs)" junk] assms
  by (simp add: block_commands concat_command_pieces)

subsection \<open>A buffer without room\<close>

text \<open>
  With the reader's default configuration the capacity of a buffer is its initial length, so
  that it never grows: an addition is accepted exactly when it fits.
\<close>

lemma accepts_at_capacity:
  assumes "wf_buffer b" and "0 < capacity b" and "capacity b \<le> blength b" and "len < 2 ^ 31"
  shows "accepts len b \<longleftrightarrow> len \<le> room b"
proof -
  have "add_need len b \<le> 2 ^ 31" using add_need_le [OF assms(1), of len] assms(4) by simp
  then have "2 * blength b \<le> grown (add_need len b) b" by (rule grown_props(3) [OF assms(1)])
  with assms show ?thesis by (auto simp: accepts_def wf_buffer_def)
qed

lemma buffer_put_full:
  assumes "wf_buffer b" and "0 < capacity b" and "capacity b \<le> blength b"
    and "length s < 2 ^ 31" and "room b < length s"
  shows "buffer_put junk s b = Inr b"
  using buffer_add_rejected [OF assms(1,4)] accepts_at_capacity [OF assms(1-4)] assms(5)
  by (simp add: buffer_put_def buffer_add_void_def)

lemma pieces_small:
  "command_args_ok c \<Longrightarrow> length (command_bytes c) < 2 ^ 31 \<Longrightarrow>
    \<forall>s \<in> set (command_pieces c). length s < 2 ^ 31"
proof
  fix s assume "length (command_bytes c) < 2 ^ 31" and s: "s \<in> set (command_pieces c)"
  moreover have "length s \<le> length (concat (command_pieces c))"
    using s by (induction "command_pieces c" rule: list.induct) (auto simp: length_concat
        intro: member_le_sum_list)
  ultimately show "length s < 2 ^ 31" by (simp add: command_bytes_def)
qed

subsection \<open>Properties\<close>

text \<open>
  Property C24: the commands of the protocol round trip. Any list of well-formed commands
  that fits is written into an empty buffer without a fault, and the peer's decoder reads
  back exactly those commands, arguments and bodies, in order and with nothing left over.
\<close>

theorem command_stream_roundtrip:
  assumes "list_all command_ok cs" and "wf_buffer b" and "contents b = []"
    and "length (concat (map command_bytes cs)) \<le> blength b"
  shows "\<exists>b'. block (map (send_command junk) cs) b = Inr b' \<and> wf_buffer b'
    \<and> parse_commands (length cs) (contents b') = Some cs"
proof -
  have "list_all command_args_ok cs"
    using assms(1) by (auto simp: list_all_iff command_ok_def)
  then show ?thesis
    using send_commands_fit [of cs b junk] assms parse_commands_roundtrip [OF assms(1)] by auto
qed

theorem command_stream_roundtrip_witness:
  "\<exists>b'. block (map (send_command (\<lambda>_. 0))
      [SUB [116] [99], RDY 2500, MPUB [116] [[1], [2, 3]], DPUB [116] [7] (-5)])
      (new_buffer (\<lambda>_. 1) 100 100) = Inr b'
    \<and> parse_commands 4 (contents b')
      = Some [SUB [116] [99], RDY 2500, MPUB [116] [[1], [2, 3]], DPUB [116] [7] (-5)]"
proof -
  let ?cs = "[SUB [116] [99], RDY 2500, MPUB [116] [[1], [2, 3]], DPUB [116] [7] (-5)]"
  have 1: "list_all command_ok ?cs"
    by (simp add: command_ok_def command_args_ok_def int_range_def token_ok_def strlen_def
        mpub_body_def)
  have 2: "length (concat (map command_bytes ?cs)) \<le> blength (new_buffer (\<lambda>_. 1) 100 100)"
    by (simp add: command_bytes_def command_pieces_def cmd_pieces_def wire_simps strlen_def
        mpub_body_def sprintf_d_def dec_digits.simps)
  have 3: "wf_buffer (new_buffer (\<lambda>_. 1) 100 100)" by (simp add: wf_new_buffer)
  have 4: "length ?cs = 4" by simp
  show ?thesis
    using command_stream_roundtrip [OF 1 3 contents_new_buffer 2, of "\<lambda>_. 0"] unfolding 4 by blast
qed

text \<open>
  Property C33: a command never faults, whatever the free space: with arguments in range no
  local array or block is overrun and the call returns. What is lost when space runs out is
  whole pieces, and the buffered data before the command stay as they were.
\<close>

theorem send_command_total:
  assumes "command_args_ok c" and "wf_bounded b" and "length (command_bytes c) < 2 ^ 31"
  shows "\<exists>b' ts. send_command junk c b = Inr b' \<and> wf_bounded b'
    \<and> subseq ts (command_pieces c) \<and> contents b' = contents b @ concat ts"
  using lq.adds_total [OF assms(2) pieces_small [OF assms(1,3)], of junk]
  by (simp add: send_command_pieces [OF assms(1)])

theorem send_command_total_witness:
  "\<exists>b' ts. send_command (\<lambda>_. 0) (RDY (- (2 ^ 31))) (new_buffer (\<lambda>_. 0) 4 4) = Inr b'
    \<and> subseq ts [[82, 68, 89], [32], sprintf_d (- (2 ^ 31)), [10]] \<and> contents b' = concat ts"
proof -
  let ?c = "RDY (- (2 ^ 31))"
  let ?b = "new_buffer (\<lambda>_. 0) 4 4"
  have p: "command_pieces ?c = [[82, 68, 89], [32], sprintf_d (- (2 ^ 31)), [10]]"
    by (simp add: command_pieces_def cmd_pieces_def wire_simps c_str_def)
  have "length (sprintf_d (- (2 ^ 31))) \<le> 11"
    by (rule length_sprintf_d) (simp add: int_range_def)
  then have 3: "length (command_bytes ?c) < 2 ^ 31"
    by (simp only: command_bytes_def p) simp
  have 1: "command_args_ok ?c" by (simp add: command_args_ok_def int_range_def)
  have 2: "wf_bounded ?b" by (simp add: wf_bounded_def wf_new_buffer) (simp add: new_buffer_def)
  show ?thesis
    using send_command_total [OF 1 2 3, of "\<lambda>_. 0"] unfolding p by auto
qed

text \<open>
  Publishing into a buffer at its capacity can corrupt the stream. If the line
  and the length fit but the body does not, \<^verbatim>\<open>nsq_publish\<close> reports nothing and leaves
  a header that announces a body which is not there.
\<close>

theorem publish_drops_body:
  assumes b: "wf_buffer b" "0 < capacity b" "capacity b \<le> blength b"
    and body: "0 \<notin> set body" "length body < 2 ^ 31"
    and hdr: "hdr = cmd_bytes (bytes_of ''PUB'') [Param_char topic] None
                @ be32_bytes (of_nat (length body))"
    and fits: "length (contents b) + length hdr \<le> blength b"
    and full: "blength b < length (contents b) + length hdr + length body"
  shows "\<exists>b'. nsq_publish junk topic body b = Inr b' \<and> wf_buffer b'
    \<and> contents b' = contents b @ hdr"
proof -
  let ?ps = "cmd_pieces (bytes_of ''PUB'') [Param_char topic] None
               @ [be32_bytes (of_nat (length body))]"
  have ps: "concat ?ps = hdr" by (simp add: hdr cmd_bytes_def)
  have len: "strlen body = length body"
    using body(1) by (simp add: c_str_id flip: length_c_str)
  have ok: "command_args_ok (PUB topic body)"
    using body(2) by (simp add: command_args_ok_def len)
  have "command_pieces (PUB topic body) = ?ps @ [body]"
    using body(1) by (simp add: command_pieces_def cmd_pieces_def c_str_id)
  then have "nsq_publish junk topic body b = block (map (buffer_put junk) (?ps @ [body])) b"
    using send_command_pieces [OF ok, of junk b] by (simp only: send_command.simps)
  then have eq: "nsq_publish junk topic body b
      = bind_res (block (map (buffer_put junk) ?ps) b) (buffer_put junk body)"
    by (simp only: map_append list.map block_append block_single)
  obtain b1 where b1: "block (map (buffer_put junk) ?ps) b = Inr b1" "wf_buffer b1"
      "contents b1 = contents b @ hdr" "blength b1 = blength b"
    using bq.adds_fit [OF b(1), of ?ps junk] fits unfolding ps by blast
  have "capacity b1 = capacity b" using b1(1) by (rule buffer_puts_capacity)
  moreover have "room b1 < length body"
    using full fits length_contents [OF b1(2)] b1(3,4) by (simp add: room_def)
  ultimately have "buffer_put junk body b1 = Inr b1"
    using b body(2) b1 by (intro buffer_put_full) simp_all
  with eq b1 show ?thesis by simp
qed

theorem publish_drops_body_witness:
  "\<exists>b'. nsq_publish (\<lambda>_. 0) [116] [1, 2, 3, 4, 5, 6, 7] (new_buffer (\<lambda>_. 0) 16 16) = Inr b'
    \<and> contents b' = [80, 85, 66, 32, 116, 10, 0, 0, 0, 7]"
proof -
  let ?b = "new_buffer (\<lambda>_. 0) 16 16"
  let ?body = "[1, 2, 3, 4, 5, 6, 7] :: byte list"
  have hdr: "[80, 85, 66, 32, 116, 10, 0, 0, 0, 7]
      = cmd_bytes (bytes_of ''PUB'') [Param_char [116]] None @ be32_bytes (of_nat (length ?body))"
    by (simp add: cmd_bytes_def cmd_pieces_def wire_simps c_str_def be32_bytes_def)
  have "wf_buffer ?b" "0 < capacity ?b" "capacity ?b \<le> blength ?b"
    by (simp_all add: wf_new_buffer) (simp_all add: new_buffer_def)
  then show ?thesis
    using publish_drops_body [OF _ _ _ _ _ hdr, of ?b "\<lambda>_. 0"] by auto
qed

end
