(* ===== verification/Message.thy ===== *)
theory Message
  imports Prelude
begin

section \<open>Decoding messages (message.c)\<close>

text \<open>
  \<^verbatim>\<open>src/message.c\<close>: a message frame's payload is an 8-byte timestamp, a 2-byte attempt
  count, a 16-byte id and the body. The decoder gets a pointer \<open>p\<close> into a block \<open>m\<close> and the
  length of the payload; every read outside the block is a fault. The reference encoder is
  the frame layout as the peer writes it.
\<close>

record NSQMessage =
  timestamp :: "64 word"
  attempts :: "16 word"
  id_bytes :: "byte list"
  body_length :: nat
  body :: "byte list"

definition ntoh64 :: "byte list \<Rightarrow> 64 word" where
  "ntoh64 data =
     ucast (data ! 7) OR push_bit 8 (ucast (data ! 6)) OR
     push_bit 16 (ucast (data ! 5)) OR push_bit 24 (ucast (data ! 4)) OR
     push_bit 32 (ucast (data ! 3)) OR push_bit 40 (ucast (data ! 2)) OR
     push_bit 48 (ucast (data ! 1)) OR push_bit 56 (ucast (data ! 0))"

text \<open>
  The array \<^verbatim>\<open>id\<close> has 17 bytes; the copy fills the first 16 and leaves the last one as
  \<^verbatim>\<open>malloc\<close> gave it (\<open>junk 16\<close>). \<^verbatim>\<open>data_length - 26\<close> wraps below 26.
\<close>

definition nsq_decode_message ::
  "(nat \<Rightarrow> byte) \<Rightarrow> byte list \<Rightarrow> nat \<Rightarrow> nat \<Rightarrow> fault + NSQMessage" where
  "nsq_decode_message junk m p data_length =
     bind_res (mem_read m p 8) (\<lambda>ts.
     bind_res (mem_read m (p + 8) 2) (\<lambda>att.
     bind_res (mem_read m (p + 10) 16) (\<lambda>i.
       let blen = size_sub data_length 26 in
       bind_res (mem_read m (p + 26) blen) (\<lambda>bs.
         Inr \<lparr>timestamp = ntoh64 ts, attempts = ntohs_at att, id_bytes = i @ [junk 16],
              body_length = blen, body = bs\<rparr>))))"

subsection \<open>The layout of a message\<close>

definition be64_bytes :: "64 word \<Rightarrow> byte list" where
  "be64_bytes t =
     [ucast (drop_bit 56 t), ucast (drop_bit 48 t), ucast (drop_bit 40 t), ucast (drop_bit 32 t),
      ucast (drop_bit 24 t), ucast (drop_bit 16 t), ucast (drop_bit 8 t), ucast t]"

definition be16_bytes :: "16 word \<Rightarrow> byte list" where
  "be16_bytes v = [ucast (drop_bit 8 v), ucast v]"

definition encode_message :: "64 word \<Rightarrow> 16 word \<Rightarrow> byte list \<Rightarrow> byte list \<Rightarrow> byte list" where
  "encode_message ts att i bs = be64_bytes ts @ be16_bytes att @ i @ bs"

lemma length_be64_bytes [simp]: "length (be64_bytes t) = 8"
  by (simp add: be64_bytes_def)

lemma length_be16_bytes [simp]: "length (be16_bytes t) = 2"
  by (simp add: be16_bytes_def)

text \<open>One byte of a 64-bit value, moved out and back, covers its eight bits.\<close>

lemma bit_byte_lane:
  "bit (push_bit s (ucast (ucast (drop_bit s t) :: byte) :: 64 word)) n
     \<longleftrightarrow> s \<le> n \<and> n < s + 8 \<and> n < 64 \<and> bit (t :: 64 word) n"
  by (auto simp: bit_simps)

lemma ntoh64_be64 [simp]: "ntoh64 (be64_bytes t) = t"
proof (rule bit_word_eqI)
  fix n assume "n < LENGTH(64)"
  then have n: "n < 64" by simp
  have eq: "ntoh64 (be64_bytes t) =
      push_bit 0 (ucast (ucast (drop_bit 0 t) :: byte)) OR
      push_bit 8 (ucast (ucast (drop_bit 8 t) :: byte)) OR
      push_bit 16 (ucast (ucast (drop_bit 16 t) :: byte)) OR
      push_bit 24 (ucast (ucast (drop_bit 24 t) :: byte)) OR
      push_bit 32 (ucast (ucast (drop_bit 32 t) :: byte)) OR
      push_bit 40 (ucast (ucast (drop_bit 40 t) :: byte)) OR
      push_bit 48 (ucast (ucast (drop_bit 48 t) :: byte)) OR
      push_bit 56 (ucast (ucast (drop_bit 56 t) :: byte))"
    by (simp add: ntoh64_def be64_bytes_def)
  have "n < 8 \<or> 8 \<le> n \<and> n < 16 \<or> 16 \<le> n \<and> n < 24 \<or> 24 \<le> n \<and> n < 32
      \<or> 32 \<le> n \<and> n < 40 \<or> 40 \<le> n \<and> n < 48 \<or> 48 \<le> n \<and> n < 56 \<or> 56 \<le> n"
    by arith
  with n show "bit (ntoh64 (be64_bytes t)) n \<longleftrightarrow> bit t n"
    unfolding eq bit_or_iff bit_byte_lane by auto
qed

lemma ntohs_be16 [simp]: "ntohs_at (be16_bytes v) = v"
proof -
  have "unat (drop_bit 8 v) = unat v div 256"
    by (simp only: unat_drop_bit_eq drop_bit_eq_div [of _ "unat v"]) simp
  moreover have "unat v < 65536" using unsigned_less [of v] by simp
  ultimately have "be_value (be16_bytes v) = unat v"
    by (simp add: be16_bytes_def unsigned_ucast_eq take_bit_eq_mod)
  then show ?thesis by (simp add: ntohs_at_def)
qed

lemma length_encode_message:
  "length i = 16 \<Longrightarrow> length (encode_message ts att i bs) = 26 + length bs"
  by (simp add: encode_message_def)

subsection \<open>Decoding\<close>

text \<open>The message that a payload of at least 26 bytes holds.\<close>

definition message_of :: "(nat \<Rightarrow> byte) \<Rightarrow> byte list \<Rightarrow> NSQMessage" where
  "message_of junk pl =
     \<lparr>timestamp = ntoh64 (take 8 pl), attempts = ntohs_at (take 2 (drop 8 pl)),
      id_bytes = take 16 (drop 10 pl) @ [junk 16],
      body_length = length pl - 26, body = drop 26 pl\<rparr>"

lemma decode_message_of:
  assumes "mem_read m p n = Inr pl" and "26 \<le> n" and "n < 2 ^ 64"
  shows "nsq_decode_message junk m p n = Inr (message_of junk pl)"
proof -
  have n: "length pl = n" using assms(1) by (rule mem_read_length)
  have "mem_read m p 8 = Inr (take 8 pl)"
    using mem_read_part [OF assms(1), of 0 8] assms(2) by simp
  moreover have "mem_read m (p + 8) 2 = Inr (take 2 (drop 8 pl))"
    using assms(2) by (intro mem_read_part [OF assms(1)]) simp
  moreover have "mem_read m (p + 10) 16 = Inr (take 16 (drop 10 pl))"
    using assms(2) by (intro mem_read_part [OF assms(1)]) simp
  moreover have "mem_read m (p + 26) (n - 26) = Inr (drop 26 pl)"
    using mem_read_part [OF assms(1), of 26 "n - 26"] assms(2) n by simp
  moreover have "size_sub n 26 = n - 26"
    using assms(2,3) by (rule size_sub_ge)
  ultimately show ?thesis
    by (simp add: nsq_decode_message_def message_of_def n)
qed

lemma message_of_encode:
  "length i = 16 \<Longrightarrow> message_of junk (encode_message ts att i bs) =
    \<lparr>timestamp = ts, attempts = att, id_bytes = i @ [junk 16],
     body_length = length bs, body = bs\<rparr>"
  by (simp add: message_of_def encode_message_def)

subsection \<open>Properties\<close>

text \<open>
  Property C32: decoding inverts the frame layout. From any block that holds an encoded
  message at \<open>p\<close>, \<^verbatim>\<open>nsq_decode_message\<close> recovers its timestamp, attempt count, id and
  body; the 17th byte of the id stays undetermined.
\<close>

theorem decode_roundtrip:
  assumes "mem_read m p n = Inr (encode_message ts att i bs)" and "length i = 16"
    and "n < 2 ^ 64"
  shows "nsq_decode_message junk m p n =
    Inr \<lparr>timestamp = ts, attempts = att, id_bytes = i @ [junk 16],
         body_length = length bs, body = bs\<rparr>"
proof -
  have "n = 26 + length bs"
    using mem_read_length [OF assms(1)] assms(2) by (simp add: length_encode_message)
  then show ?thesis
    using decode_message_of [OF assms(1) _ assms(3)] assms(2) by (simp add: message_of_encode)
qed

theorem decode_roundtrip_witness:
  "nsq_decode_message (\<lambda>_. 0) ([9, 9] @ encode_message 1234567 3 (replicate 16 97) [1, 2, 3]) 2 29 =
    Inr \<lparr>timestamp = 1234567, attempts = 3, id_bytes = replicate 16 97 @ [0],
         body_length = 3, body = [1, 2, 3]\<rparr>"
  using decode_roundtrip
    [of "[9, 9] @ encode_message 1234567 3 (replicate 16 97) [1, 2, 3]" 2 29 1234567 3
      "replicate 16 97" "[1, 2, 3]" "\<lambda>_. 0"]
  by (simp add: mem_read_def length_encode_message)

text \<open>
  A payload shorter than 26 bytes is not rejected. The body length wraps around
  to almost \<open>2 ^ 64\<close> and the copy leaves the block, whatever the block holds.
\<close>

theorem decode_short_payload:
  assumes "n < 26" and "length m < 2 ^ 63"
  shows "nsq_decode_message junk m p n = Inl Out_of_bounds"
proof -
  have "size_sub n 26 = n + (2 ^ 64 - 26)"
    using assms(1) by (simp add: size_sub_def)
  then have "length m < p + 26 + size_sub n 26"
    using assms(2) by simp
  then show ?thesis
    by (auto simp: nsq_decode_message_def mem_read_def Let_def)
qed

theorem decode_short_payload_witness:
  "nsq_decode_message (\<lambda>_. 0) (replicate 100 1) 0 10 = Inl Out_of_bounds"
  by (rule decode_short_payload) simp_all

end
