(* ===== verification/External.thy ===== *)
theory External
  imports Message
begin

section \<open>The boundary: libev, the kernel, the application\<close>

text \<open>
  What the library asks of code outside the repository is recorded, not modelled: every call
  of libev, every descriptor that is opened or closed and every call of an application
  callback appends a value to a history. The newest entry comes first. The entries of the
  second group are the notifications that come back from the event loop. Whether a watcher
  or a timer is active is what libev documents: started and not stopped since; a timer
  without repeat stops when it expires.
\<close>

datatype watcher = Read_io ptr | Write_io ptr | Http_io ptr

datatype timer = Read_bytes_timer ptr | Reconnect_timer ptr | Lookupd_poll_timer | Http_timer

datatype multi_option = Socketfunction | Socketdata | Timerfunction | Timerdata

datatype ext_call =
    Ev_io_start watcher int
  | Ev_io_stop watcher
  | Ev_timer_start timer
  | Ev_timer_stop timer
  | Ev_timer_again timer
  | Ev_once ptr int
  | Sys_getaddrinfo
  | Sys_freeaddrinfo
  | Sys_socket int
  | Sys_close int
  | Ev_timer_set timer int
  | Curl_add_handle ptr
  | Curl_remove_handle ptr
  | Curl_easy_cleanup ptr
  | Curl_multi_assign int ptr
  | Curl_socket_action int int
  | Curl_multi_init
  | Curl_multi_setopt multi_option
  | Curl_multi_cleanup
  | User_connect ptr
  | User_close ptr
  | User_msg ptr NSQMessage
  | Timer_expired timer
  | Once_fired ptr

fun io_active :: "watcher \<Rightarrow> ext_call list \<Rightarrow> bool" where
  "io_active v [] = False"
| "io_active v (c # cs) =
     (case c of
        Ev_io_start u f \<Rightarrow> u = v \<or> io_active v cs
      | Ev_io_stop u \<Rightarrow> u \<noteq> v \<and> io_active v cs
      | _ \<Rightarrow> io_active v cs)"

text \<open>The descriptor that an active watcher watches: the one it was last started with.\<close>

fun io_on :: "watcher \<Rightarrow> ext_call list \<Rightarrow> int option" where
  "io_on v [] = None"
| "io_on v (c # cs) =
     (case c of
        Ev_io_start u f \<Rightarrow> if u = v then Some f else io_on v cs
      | Ev_io_stop u \<Rightarrow> if u = v then None else io_on v cs
      | _ \<Rightarrow> io_on v cs)"

lemma io_active_on: "io_active v cs \<longleftrightarrow> io_on v cs \<noteq> None"
  by (induction cs) (auto split: ext_call.splits)

fun timer_active :: "timer \<Rightarrow> ext_call list \<Rightarrow> bool" where
  "timer_active t [] = False"
| "timer_active t (c # cs) =
     (case c of
        Ev_timer_start u \<Rightarrow> u = t \<or> timer_active t cs
      | Ev_timer_again u \<Rightarrow> u = t \<or> timer_active t cs
      | Ev_timer_stop u \<Rightarrow> u \<noteq> t \<and> timer_active t cs
      | Timer_expired u \<Rightarrow> u \<noteq> t \<and> timer_active t cs
      | _ \<Rightarrow> timer_active t cs)"

text \<open>\<^verbatim>\<open>ev_once\<close> calls back once, and cannot be cancelled.\<close>

fun once_pending :: "ptr \<Rightarrow> ext_call list \<Rightarrow> bool" where
  "once_pending q [] = False"
| "once_pending q (c # cs) =
     (case c of
        Ev_once p f \<Rightarrow> p = q \<or> once_pending q cs
      | Once_fired p \<Rightarrow> p \<noteq> q \<and> once_pending q cs
      | _ \<Rightarrow> once_pending q cs)"

text \<open>Descriptors that were opened and not closed since.\<close>

fun fd_open :: "int \<Rightarrow> ext_call list \<Rightarrow> bool" where
  "fd_open f [] = False"
| "fd_open f (c # cs) =
     (case c of
        Sys_socket g \<Rightarrow> g = f \<or> fd_open f cs
      | Sys_close g \<Rightarrow> g \<noteq> f \<and> fd_open f cs
      | _ \<Rightarrow> fd_open f cs)"

text \<open>Requests that were handed to libcurl and not taken back since.\<close>

fun handle_added :: "ptr \<Rightarrow> ext_call list \<Rightarrow> bool" where
  "handle_added r [] = False"
| "handle_added r (c # cs) =
     (case c of
        Curl_add_handle q \<Rightarrow> q = r \<or> handle_added r cs
      | Curl_remove_handle q \<Rightarrow> q \<noteq> r \<and> handle_added r cs
      | _ \<Rightarrow> handle_added r cs)"

text \<open>The messages handed to the application on one connection, oldest first.\<close>

fun delivered :: "ptr \<Rightarrow> ext_call list \<Rightarrow> NSQMessage list" where
  "delivered p [] = []"
| "delivered p (c # cs) =
     (case c of
        User_msg q m \<Rightarrow> if q = p then delivered p cs @ [m] else delivered p cs
      | _ \<Rightarrow> delivered p cs)"

text \<open>The \<^verbatim>\<open>errno\<close> values that the code tests (Linux).\<close>

definition EINTR :: int where "EINTR = 4"
definition EAGAIN :: int where "EAGAIN = 11"
definition EINPROGRESS :: int where "EINPROGRESS = 115"

end
