(* ===== verification/Buffered_Socket.thy ===== *)
theory Buffered_Socket
  imports Buffer External
begin

section \<open>Buffered sockets (buffered_socket.c)\<close>

text \<open>
  The non-blocking socket with a read and a write buffer of \<^verbatim>\<open>src/buffered_socket.c\<close>.
  Sockets live in a heap: \<open>socks w q\<close> is the socket at address \<open>q\<close>, \<open>None\<close> when nothing
  was allocated there or it was freed, and an access to it then is a fault. A function
  pointer is a value of the type \<open>'k\<close>; \<open>call k q arg\<close> is what calling it with the socket
  \<open>q\<close> and the argument \<open>arg\<close> does, an argument of every function that calls one.
  The heap of sockets is the first part of the state of the program; the components above
  extend the record. Results of system calls are arguments.
\<close>

datatype BufferedSocketStates = BS_INIT | BS_CONNECTING | BS_CONNECTED | BS_DISCONNECTED

text \<open>
  A watcher that was never initialised is \<open>None\<close>, otherwise it holds its descriptor.
\<close>

record 'k BufferedSocket =
  sock_address :: "byte list"
  sock_port :: int
  fd :: int
  state :: BufferedSocketStates
  read_ev :: "int option"
  write_ev :: "int option"
  read_buf :: buffer
  write_buf :: buffer
  read_bytes_n :: nat
  read_bytes_callback :: "'k option"
  read_bytes_arg :: ptr
  connect_callback :: "'k option"
  close_callback :: "'k option"
  read_callback :: "'k option"
  write_callback :: "'k option"
  error_callback :: "'k option"
  cbarg :: ptr

record 'k sock_world =
  socks :: "ptr \<Rightarrow> 'k BufferedSocket option"
  calls :: "ext_call list"
  errno :: int
  brk :: ptr
  junk :: "nat \<Rightarrow> byte"

text \<open>Statements: a read of a socket, an update of one, a call outside, a callback.\<close>

definition on_sock ::
  "ptr \<Rightarrow> ('k BufferedSocket \<Rightarrow> ('k, 'z) sock_world_scheme \<Rightarrow> fault + 'r) \<Rightarrow>
    ('k, 'z) sock_world_scheme \<Rightarrow> fault + 'r" where
  "on_sock q f w = (case socks w q of None \<Rightarrow> Inl Use_after_free | Some b \<Rightarrow> f b w)"

definition upd_sock ::
  "ptr \<Rightarrow> ('k BufferedSocket \<Rightarrow> 'k BufferedSocket) \<Rightarrow>
    ('k, 'z) sock_world_scheme \<Rightarrow> fault + ('k, 'z) sock_world_scheme" where
  "upd_sock q f = on_sock q (\<lambda>b w. Inr (w\<lparr>socks := (socks w)(q \<mapsto> f b)\<rparr>))"

definition emit ::
  "ext_call \<Rightarrow> ('k, 'z) sock_world_scheme \<Rightarrow> fault + ('k, 'z) sock_world_scheme" where
  "emit c w = Inr (w\<lparr>calls := c # calls w\<rparr>)"

definition set_errno ::
  "int \<Rightarrow> ('k, 'z) sock_world_scheme \<Rightarrow> fault + ('k, 'z) sock_world_scheme" where
  "set_errno e w = Inr (w\<lparr>errno := e\<rparr>)"

type_synonym ('k, 'z) proc =
  "('k, 'z) sock_world_scheme \<Rightarrow> fault + ('k, 'z) sock_world_scheme"

type_synonym ('k, 'z) callbacks = "'k \<Rightarrow> ptr \<Rightarrow> ptr \<Rightarrow> ('k, 'z) proc"

text \<open>\<^verbatim>\<open>if (cb) (*cb)(buffsock, buffsock->cbarg)\<close>\<close>

definition invoke ::
  "('k, 'z) callbacks \<Rightarrow> ('k BufferedSocket \<Rightarrow> 'k option) \<Rightarrow> ptr \<Rightarrow> ('k, 'z) proc" where
  "invoke call sel q = on_sock q (\<lambda>b.
     (case sel b of None \<Rightarrow> Inr | Some k \<Rightarrow> call k q (cbarg b)))"

definition ev_io_start_read :: "ptr \<Rightarrow> ('k, 'z) proc" where
  "ev_io_start_read q = on_sock q (\<lambda>b.
     (case read_ev b of None \<Rightarrow> (\<lambda>_. Inl Uninitialised) | Some f \<Rightarrow> emit (Ev_io_start (Read_io q) f)))"

definition ev_io_start_write :: "ptr \<Rightarrow> ('k, 'z) proc" where
  "ev_io_start_write q = on_sock q (\<lambda>b.
     (case write_ev b of None \<Rightarrow> (\<lambda>_. Inl Uninitialised) | Some f \<Rightarrow> emit (Ev_io_start (Write_io q) f)))"

definition ev_io_stop_read :: "ptr \<Rightarrow> ('k, 'z) proc" where
  "ev_io_stop_read q = on_sock q (\<lambda>b.
     (case read_ev b of None \<Rightarrow> (\<lambda>_. Inl Uninitialised) | Some f \<Rightarrow> emit (Ev_io_stop (Read_io q))))"

definition ev_io_stop_write :: "ptr \<Rightarrow> ('k, 'z) proc" where
  "ev_io_stop_write q = on_sock q (\<lambda>b.
     (case write_ev b of None \<Rightarrow> (\<lambda>_. Inl Uninitialised) | Some f \<Rightarrow> emit (Ev_io_stop (Write_io q))))"

subsection \<open>Creation and destruction\<close>

definition new_buffered_socket ::
  "byte list \<Rightarrow> int \<Rightarrow> nat \<Rightarrow> nat \<Rightarrow> nat \<Rightarrow> nat \<Rightarrow> 'k option \<Rightarrow> 'k option \<Rightarrow> 'k option \<Rightarrow>
    'k option \<Rightarrow> 'k option \<Rightarrow> ptr \<Rightarrow> ('k, 'z) sock_world_scheme \<Rightarrow>
    ptr \<times> ('k, 'z) sock_world_scheme" where
  "new_buffered_socket address port read_len read_cap write_len write_cap
      connect_cb close_cb read_cb write_cb error_cb arg w =
     (let q = brk w;
          b = \<lparr>sock_address = c_str address, sock_port = port, fd = -1, state = BS_INIT,
               read_ev = None, write_ev = None,
               read_buf = new_buffer (junk w) read_len read_cap,
               write_buf = new_buffer (junk w) write_len write_cap,
               read_bytes_n = 0, read_bytes_callback = None, read_bytes_arg = 0,
               connect_callback = connect_cb, close_callback = close_cb,
               read_callback = read_cb, write_callback = write_cb, error_callback = error_cb,
               cbarg = arg\<rparr>
      in (q, w\<lparr>socks := (socks w)(q \<mapsto> b), brk := q + 1\<rparr>))"

definition free_buffered_socket :: "ptr \<Rightarrow> ('k, 'z) proc" where
  "free_buffered_socket q w =
     (case socks w q of None \<Rightarrow> Inl Double_free
      | Some b \<Rightarrow> Inr (w\<lparr>socks := (socks w)(q := None)\<rparr>))"

subsection \<open>Closing\<close>

definition buffered_socket_close :: "('k, 'z) callbacks \<Rightarrow> ptr \<Rightarrow> ('k, 'z) proc" where
  "buffered_socket_close call q = on_sock q (\<lambda>b.
     if state b = BS_DISCONNECTED then Inr
     else block
       [if fd b \<noteq> -1 then block [emit (Sys_close (fd b)), upd_sock q (fd_update (\<lambda>_. -1))]
        else Inr,
        if state b \<noteq> BS_CONNECTING then block [ev_io_stop_read q, ev_io_stop_write q] else Inr,
        upd_sock q (state_update (\<lambda>_. BS_DISCONNECTED)),
        emit (Ev_timer_stop (Read_bytes_timer q)),
        invoke call close_callback q])"

subsection \<open>Connecting\<close>

text \<open>The results of the system calls that \<^verbatim>\<open>buffered_socket_connect\<close> makes.\<close>

record connect_env =
  getaddrinfo_ret :: int
  socket_ret :: int
  getfl_ret :: int
  setfl_ret :: int
  connect_ret :: int
  connect_errno :: int

definition buffered_socket_connect ::
  "connect_env \<Rightarrow> ptr \<Rightarrow> ('k, 'z) sock_world_scheme \<Rightarrow>
    fault + int \<times> ('k, 'z) sock_world_scheme" where
  "buffered_socket_connect env q = on_sock q (\<lambda>b w.
     let give_up = (\<lambda>stmts. bind_res (block (stmts @ [set_errno (connect_errno env)]) w)
                              (\<lambda>w'. Inr (0, w')));
         opened = [emit Sys_getaddrinfo, upd_sock q (fd_update (\<lambda>_. socket_ret env)),
                   emit (Sys_socket (socket_ret env))] in
     if state b = BS_CONNECTED \<or> state b = BS_CONNECTING then Inr (0, w)
     else if getaddrinfo_ret env \<noteq> 0 then give_up []
     else if socket_ret env = -1 then
       give_up [emit Sys_getaddrinfo, upd_sock q (fd_update (\<lambda>_. socket_ret env))]
     else if getfl_ret env < 0 then give_up (opened @ [emit (Sys_close (socket_ret env))])
     else if setfl_ret env = -1 then give_up (opened @ [emit (Sys_close (socket_ret env))])
     else if connect_ret env = -1 \<and> connect_errno env \<noteq> EINPROGRESS then
       give_up (opened @ [emit (Sys_close (socket_ret env))])
     else
       bind_res
         (block
           (opened @
            [if connect_ret env = -1 then set_errno (connect_errno env) else Inr,
             emit Sys_freeaddrinfo,
             emit (Ev_once q (socket_ret env)),
             upd_sock q (state_update (\<lambda>_. BS_CONNECTING))]) w)
         (\<lambda>w'. Inr (socket_ret env, w')))"

record connected_env =
  timed_out :: bool
  getsockopt_ret :: int
  getsockopt_errno :: int
  so_error :: int

definition buffered_socket_connect_cb ::
  "('k, 'z) callbacks \<Rightarrow> connected_env \<Rightarrow> ptr \<Rightarrow> ('k, 'z) proc" where
  "buffered_socket_connect_cb call env q = on_sock q (\<lambda>b.
     if timed_out env then buffered_socket_close call q
     else if getsockopt_ret env = -1 then
       block [set_errno (getsockopt_errno env), buffered_socket_close call q]
     else if so_error env \<noteq> 0 then buffered_socket_close call q
     else block
       [upd_sock q (state_update (\<lambda>_. BS_CONNECTED)),
        upd_sock q (read_ev_update (\<lambda>_. Some (fd b))),
        upd_sock q (write_ev_update (\<lambda>_. Some (fd b))),
        ev_io_start_read q,
        invoke call connect_callback q])"

subsection \<open>Writing\<close>

text \<open>
  \<^verbatim>\<open>buffered_socket_write\<close> gets a pointer to \<open>len\<close> bytes (the list \<open>src\<close>) and returns a
  count; \<^verbatim>\<open>buffered_socket_write_buffer\<close> also resets the buffer it gets.
\<close>

definition buffered_socket_write ::
  "byte list \<Rightarrow> nat \<Rightarrow> ptr \<Rightarrow> ('k, 'z) sock_world_scheme \<Rightarrow>
    fault + nat \<times> ('k, 'z) sock_world_scheme" where
  "buffered_socket_write src len q = on_sock q (\<lambda>b w.
     if state b \<noteq> BS_CONNECTED then Inr (0, w)
     else
       bind_res (buffer_add_void (junk w) src len (write_buf b)) (\<lambda>wb.
       bind_res (block [upd_sock q (write_buf_update (\<lambda>_. wb)), ev_io_start_write q] w) (\<lambda>w'.
         Inr (len, w'))))"

definition buffered_socket_write_buffer ::
  "buffer \<Rightarrow> ptr \<Rightarrow> ('k, 'z) sock_world_scheme \<Rightarrow>
    fault + nat \<times> buffer \<times> ('k, 'z) sock_world_scheme" where
  "buffered_socket_write_buffer buf q w =
     (let n = BUFFER_HAS_DATA buf in
      if 0 < n then
        bind_res (buffered_socket_write (drop (data buf) (orig buf)) n q w) (\<lambda>(m, w').
          Inr (n, buffer_reset buf, w'))
      else Inr (n, buf, w))"

subsection \<open>Reading a given number of bytes\<close>

definition buffered_socket_read_bytes_cb :: "('k, 'z) callbacks \<Rightarrow> ptr \<Rightarrow> ('k, 'z) proc" where
  "buffered_socket_read_bytes_cb call q = on_sock q (\<lambda>b.
     block
       [upd_sock q (\<lambda>b. b\<lparr>read_bytes_callback := None, read_bytes_n := 0, read_bytes_arg := 0\<rparr>),
        (case read_bytes_callback b of
           None \<Rightarrow> (\<lambda>_. Inl Null_deref)
         | Some k \<Rightarrow> call k q (read_bytes_arg b))])"

definition buffered_socket_read_bytes :: "nat \<Rightarrow> 'k \<Rightarrow> ptr \<Rightarrow> ptr \<Rightarrow> ('k, 'z) proc" where
  "buffered_socket_read_bytes n k arg q = on_sock q (\<lambda>b.
     block
       [upd_sock q (\<lambda>b. b\<lparr>read_bytes_callback := Some k, read_bytes_arg := arg, read_bytes_n := n\<rparr>),
        if n \<le> BUFFER_HAS_DATA (read_buf b) then emit (Ev_timer_start (Read_bytes_timer q))
        else Inr])"

subsection \<open>The read and write handlers\<close>

definition io_error :: "('k, 'z) callbacks \<Rightarrow> ptr \<Rightarrow> ('k, 'z) proc" where
  "io_error call q = block [invoke call error_callback q, buffered_socket_close call q]"

definition buffered_socket_read_cb ::
  "('k, 'z) callbacks \<Rightarrow> read_env \<Rightarrow> ptr \<Rightarrow> ('k, 'z) proc" where
  "buffered_socket_read_cb call env q = on_sock q (\<lambda>b w.
     bind_res (buffer_read_fd (junk w) env (errno w) (read_buf b)) (\<lambda>(rb, res, err).
       block
         [upd_sock q (read_buf_update (\<lambda>_. rb)),
          set_errno err,
          if res = -1 then
            (if err = EAGAIN \<or> err = EINTR then Inr else io_error call q)
          else if res = 0 then io_error call q
          else block
            [invoke call read_callback q,
             on_sock q (\<lambda>b.
               if read_bytes_n b \<noteq> 0 \<and> read_bytes_n b \<le> BUFFER_HAS_DATA (read_buf b)
               then emit (Ev_timer_start (Read_bytes_timer q)) else Inr)]] w))"

definition buffered_socket_write_cb ::
  "('k, 'z) callbacks \<Rightarrow> (byte list \<Rightarrow> send_result) \<Rightarrow> ptr \<Rightarrow> ('k, 'z) proc" where
  "buffered_socket_write_cb call send q = on_sock q (\<lambda>b w.
     bind_res (buffer_write_fd send (errno w) (write_buf b)) (\<lambda>(wb, res, err).
       block
         [upd_sock q (write_buf_update (\<lambda>_. wb)),
          set_errno err,
          if BUFFER_HAS_DATA wb = 0 then ev_io_stop_write q else Inr,
          if res = -1 then
            (if err = EAGAIN \<or> err = EINTR \<or> err = EINPROGRESS then Inr else io_error call q)
          else if res = 0 then io_error call q
          else invoke call write_callback q] w))"

end
