(* ===== verification/Nsq_Types.thy ===== *)
theory Nsq_Types
  imports Complex_Main Buffered_Socket Command
begin

section \<open>The data of the library (nsq.h) and the state of the program\<close>

text \<open>
  The structures of \<^verbatim>\<open>src/nsq.h\<close> and the state they live in: heaps of connections and of
  lookupd endpoints beside the heap of sockets, and the one reader of the program. Address 0
  is \<^verbatim>\<open>NULL\<close>; every allocation takes the next address, none is used twice, so a stale pointer
  never becomes valid again. Strings and buffers that a structure owns alone are stored in it.
\<close>

text \<open>The functions that nsqd_connection.c hands to a buffered socket.\<close>

datatype nsqd_fn =
    Nsqd_connect_cb
  | Nsqd_close_cb
  | Nsqd_error_cb
  | Nsqd_read_size
  | Nsqd_read_data

text \<open>\<^verbatim>\<open>ev_timer *reconnect_timer\<close>: null, allocated, or pointing to freed memory.\<close>

datatype timer_ptr = Timer_null | Timer_allocated | Timer_dangling

record NSQLookupdEndpoint =
  ep_address :: "byte list"
  ep_port :: int
  ep_next :: ptr

record NSQDConnection =
  conn_address :: "byte list"
  conn_port :: int
  conn_bs :: ptr
  command_buf :: buffer
  current_msg_size :: "32 word"
  current_frame_type :: "32 word"
  current_data :: nat
  reconnect_timer :: timer_ptr
  conn_next :: ptr

record NSQReaderCfg =
  lookupd_interval :: real
  command_buf_len :: nat
  command_buf_capacity :: nat
  read_buf_len :: nat
  read_buf_capacity :: nat
  write_buf_len :: nat
  write_buf_capacity :: nat

record NSQReader =
  topic :: "byte list"
  channel :: "byte list"
  max_in_flight :: int
  conns_head :: ptr
  lookupd_head :: ptr
  cfg :: NSQReaderCfg

text \<open>
  The structures of \<^verbatim>\<open>src/http.h\<close>. A request knows its client once it was sent; a response
  points to the data of its request. There is one HTTP client, the reader's, and it is never
  freed; every request has the callback \<^verbatim>\<open>nsq_lookupd_request_cb\<close>.
\<close>

record HttpRequest =
  req_url :: "byte list"
  req_has_httpc :: bool
  req_data :: buffer

record HttpResponse =
  status_code :: int
  resp_data :: ptr

record HttpSocket =
  sockfd :: int
  action :: int
  ev_kind :: nat
  evset :: bool

record nsq_world = "nsqd_fn sock_world" +
  conns :: "ptr \<Rightarrow> NSQDConnection option"
  endpoints :: "ptr \<Rightarrow> NSQLookupdEndpoint option"
  rdr :: "NSQReader option"
  reqs :: "ptr \<Rightarrow> HttpRequest option"
  resps :: "ptr \<Rightarrow> HttpResponse option"
  http_socks :: "ptr \<Rightarrow> HttpSocket option"

type_synonym nsq_proc = "nsq_world \<Rightarrow> fault + nsq_world"

text \<open>The frame types of the protocol, the values of \<^verbatim>\<open>enum frame_type\<close>.\<close>

definition NSQ_FRAME_TYPE_RESPONSE :: "32 word" where "NSQ_FRAME_TYPE_RESPONSE = 0"
definition NSQ_FRAME_TYPE_ERROR :: "32 word" where "NSQ_FRAME_TYPE_ERROR = 1"
definition NSQ_FRAME_TYPE_MESSAGE :: "32 word" where "NSQ_FRAME_TYPE_MESSAGE = 2"

text \<open>Access to a connection and to the reader; after they are freed it is a fault.\<close>

definition on_conn :: "ptr \<Rightarrow> (NSQDConnection \<Rightarrow> nsq_world \<Rightarrow> fault + 'r) \<Rightarrow> nsq_world \<Rightarrow> fault + 'r" where
  "on_conn p f w = (case conns w p of None \<Rightarrow> Inl Use_after_free | Some c \<Rightarrow> f c w)"

definition upd_conn :: "ptr \<Rightarrow> (NSQDConnection \<Rightarrow> NSQDConnection) \<Rightarrow> nsq_proc" where
  "upd_conn p f = on_conn p (\<lambda>c w. Inr (w\<lparr>conns := (conns w)(p \<mapsto> f c)\<rparr>))"

definition on_rdr :: "(NSQReader \<Rightarrow> nsq_world \<Rightarrow> fault + 'r) \<Rightarrow> nsq_world \<Rightarrow> fault + 'r" where
  "on_rdr f w = (case rdr w of None \<Rightarrow> Inl Use_after_free | Some r \<Rightarrow> f r w)"

definition upd_rdr :: "(NSQReader \<Rightarrow> NSQReader) \<Rightarrow> nsq_proc" where
  "upd_rdr f = on_rdr (\<lambda>r w. Inr (w\<lparr>rdr := Some (f r)\<rparr>))"

end
