(* ===== verification/Socket_Inv.thy ===== *)
theory Socket_Inv
  imports Buffered_Socket
begin

section \<open>The invariant of the socket layer\<close>

text \<open>
  What every handler of buffered_socket.c keeps, whatever callbacks it calls, as long as
  these keep it: buffers are well formed, a connected socket watches for input and, while it
  has unsent data, for output; a request for bytes that are already buffered has its timer
  running; a socket that is not connected, or was freed, has no active watcher. The contract
  of the callbacks is the locale \<open>socket_client\<close>.
\<close>

subsection \<open>Socket states are ordered as the C enumeration is\<close>

instantiation BufferedSocketStates :: linorder
begin

fun rank_state :: "BufferedSocketStates \<Rightarrow> nat" where
  "rank_state BS_INIT = 0"
| "rank_state BS_CONNECTING = 1"
| "rank_state BS_CONNECTED = 2"
| "rank_state BS_DISCONNECTED = 3"

definition less_eq_BufferedSocketStates :: "BufferedSocketStates \<Rightarrow> BufferedSocketStates \<Rightarrow> bool" where
  "less_eq_BufferedSocketStates s t \<longleftrightarrow> rank_state s \<le> rank_state t"

definition less_BufferedSocketStates :: "BufferedSocketStates \<Rightarrow> BufferedSocketStates \<Rightarrow> bool" where
  "less_BufferedSocketStates s t \<longleftrightarrow> rank_state s < rank_state t"

instance
proof
  fix x y z :: BufferedSocketStates
  show "x \<le> y \<Longrightarrow> y \<le> x \<Longrightarrow> x = y"
    by (cases x; cases y) (simp_all add: less_eq_BufferedSocketStates_def)
qed (auto simp: less_eq_BufferedSocketStates_def less_BufferedSocketStates_def)

end

subsection \<open>Evaluating statements\<close>

named_theorems sock_simps \<open>evaluation of statements on a socket that is there\<close>

lemma on_sock_Some [sock_simps]: "socks w q = Some b \<Longrightarrow> on_sock q f w = f b w"
  by (simp add: on_sock_def)

lemma upd_sock_Some [sock_simps]:
  "socks w q = Some b \<Longrightarrow> upd_sock q f w = Inr (w\<lparr>socks := (socks w)(q \<mapsto> f b)\<rparr>)"
  by (simp add: upd_sock_def on_sock_def)

lemma emit_eq [sock_simps]: "emit c w = Inr (w\<lparr>calls := c # calls w\<rparr>)"
  by (simp add: emit_def)

lemma set_errno_eq [sock_simps]: "set_errno e w = Inr (w\<lparr>errno := e\<rparr>)"
  by (simp add: set_errno_def)

lemma ev_io_eqs [sock_simps]:
  "socks w q = Some b \<Longrightarrow> read_ev b = Some f \<Longrightarrow>
    ev_io_start_read q w = Inr (w\<lparr>calls := Ev_io_start (Read_io q) f # calls w\<rparr>)"
  "socks w q = Some b \<Longrightarrow> read_ev b = Some f \<Longrightarrow>
    ev_io_stop_read q w = Inr (w\<lparr>calls := Ev_io_stop (Read_io q) # calls w\<rparr>)"
  "socks w q = Some b \<Longrightarrow> write_ev b = Some g \<Longrightarrow>
    ev_io_start_write q w = Inr (w\<lparr>calls := Ev_io_start (Write_io q) g # calls w\<rparr>)"
  "socks w q = Some b \<Longrightarrow> write_ev b = Some g \<Longrightarrow>
    ev_io_stop_write q w = Inr (w\<lparr>calls := Ev_io_stop (Write_io q) # calls w\<rparr>)"
  by (simp_all add: ev_io_start_read_def ev_io_stop_read_def ev_io_start_write_def
      ev_io_stop_write_def sock_simps)

lemma ev_io_uninitialised [sock_simps]:
  "socks w q = Some b \<Longrightarrow> read_ev b = None \<Longrightarrow> ev_io_start_read q w = Inl Uninitialised"
  "socks w q = Some b \<Longrightarrow> read_ev b = None \<Longrightarrow> ev_io_stop_read q w = Inl Uninitialised"
  "socks w q = Some b \<Longrightarrow> write_ev b = None \<Longrightarrow> ev_io_start_write q w = Inl Uninitialised"
  "socks w q = Some b \<Longrightarrow> write_ev b = None \<Longrightarrow> ev_io_stop_write q w = Inl Uninitialised"
  by (simp_all add: ev_io_start_read_def ev_io_stop_read_def ev_io_start_write_def
      ev_io_stop_write_def sock_simps)

lemma invoke_None [sock_simps]:
  "socks w q = Some b \<Longrightarrow> sel b = None \<Longrightarrow> invoke call sel q w = Inr w"
  by (simp add: invoke_def on_sock_def)

lemma invoke_Some [sock_simps]:
  "socks w q = Some b \<Longrightarrow> sel b = Some k \<Longrightarrow> invoke call sel q w = call k q (cbarg b) w"
  by (simp add: invoke_def on_sock_def)

subsection \<open>The invariant\<close>

definition sock_ok :: "ext_call list \<Rightarrow> ptr \<Rightarrow> 'k BufferedSocket \<Rightarrow> bool" where
  "sock_ok log q b \<longleftrightarrow>
     wf_bounded (read_buf b) \<and> wf_bounded (write_buf b)
     \<and> read_callback b = None \<and> write_callback b = None
     \<and> (state b = BS_CONNECTED \<longrightarrow>
          read_ev b \<noteq> None \<and> write_ev b \<noteq> None \<and> io_active (Read_io q) log
          \<and> (offset (write_buf b) \<noteq> 0 \<longrightarrow> io_active (Write_io q) log))
     \<and> (state b \<noteq> BS_CONNECTED \<longrightarrow>
          \<not> io_active (Read_io q) log \<and> \<not> io_active (Write_io q) log)
     \<and> (state b \<noteq> BS_DISCONNECTED \<and> read_bytes_callback b \<noteq> None
          \<and> read_bytes_n b \<le> offset (read_buf b) \<longrightarrow> timer_active (Read_bytes_timer q) log)
     \<and> (timer_active (Read_bytes_timer q) log \<longrightarrow> read_bytes_callback b \<noteq> None)
     \<and> (read_bytes_n b \<noteq> 0 \<longrightarrow> read_bytes_callback b \<noteq> None)
     \<and> (state b < BS_CONNECTED \<longrightarrow> offset (write_buf b) = 0)
     \<and> (state b = BS_DISCONNECTED \<longrightarrow> fd b = -1)
     \<and> (once_pending q log \<longrightarrow> state b = BS_CONNECTING \<or> state b = BS_DISCONNECTED)"

definition slot_ok :: "ext_call list \<Rightarrow> ptr \<Rightarrow> 'k BufferedSocket option \<Rightarrow> bool" where
  "slot_ok log q x \<longleftrightarrow>
     (case x of
        None \<Rightarrow> \<not> io_active (Read_io q) log \<and> \<not> io_active (Write_io q) log
      | Some b \<Rightarrow> sock_ok log q b)"

lemma slot_ok_simps [simp]:
  "slot_ok log q (Some b) = sock_ok log q b"
  "slot_ok log q None \<longleftrightarrow> \<not> io_active (Read_io q) log \<and> \<not> io_active (Write_io q) log"
  by (simp_all add: slot_ok_def)

definition socks_inv :: "('k, 'z) sock_world_scheme \<Rightarrow> bool" where
  "socks_inv w \<longleftrightarrow> (\<forall>q. slot_ok (calls w) q (socks w q))
     \<and> (\<forall>q \<ge> brk w. socks w q = None \<and> \<not> timer_active (Read_bytes_timer q) (calls w)
          \<and> \<not> once_pending q (calls w))"

text \<open>An entry of the history about \<open>q\<close> changes nothing for the other sockets.\<close>

definition about :: "ptr \<Rightarrow> ext_call \<Rightarrow> bool" where
  "about q c \<longleftrightarrow> (\<forall>r l. r \<noteq> q \<longrightarrow>
     io_active (Read_io r) (c # l) = io_active (Read_io r) l
     \<and> io_active (Write_io r) (c # l) = io_active (Write_io r) l
     \<and> timer_active (Read_bytes_timer r) (c # l) = timer_active (Read_bytes_timer r) l
     \<and> once_pending r (c # l) = once_pending r l)"

lemma about_simps [simp]:
  "about q (Ev_io_start (Read_io q) f)" "about q (Ev_io_start (Write_io q) f)"
  "about q (Ev_io_stop (Read_io q))" "about q (Ev_io_stop (Write_io q))"
  "about q (Ev_timer_start (Read_bytes_timer q))" "about q (Ev_timer_stop (Read_bytes_timer q))"
  "about q (Timer_expired (Read_bytes_timer q))"
  "about q (Ev_once q f)" "about q (Once_fired q)" "about q Sys_getaddrinfo"
  "about q Sys_freeaddrinfo" "about q (Sys_socket f)" "about q (Sys_close f)"
  "about q (Ev_timer_stop (Reconnect_timer p))" "about q (Ev_timer_again (Reconnect_timer p))"
  "about q (Ev_timer_start (Reconnect_timer p))" "about q (Timer_expired (Reconnect_timer p))"
  "about q (Ev_timer_stop Lookupd_poll_timer)" "about q (Ev_timer_again Lookupd_poll_timer)"
  "about q (Ev_timer_start Lookupd_poll_timer)" "about q (Timer_expired Lookupd_poll_timer)"
  "about q (Ev_timer_stop Http_timer)" "about q (Ev_timer_start Http_timer)" "about q (Timer_expired Http_timer)"
  "about q (Ev_timer_set t n)" "about q (Curl_add_handle r)" "about q (Curl_remove_handle r)"
  "about q (Curl_easy_cleanup r)" "about q (Curl_multi_assign f r)"
  "about q (Curl_socket_action f n)" "about q (Ev_io_start (Http_io r) f)"
  "about q (Ev_io_stop (Http_io r))" "about q (User_connect p)" "about q (User_close p)"
  "about q (User_msg p m)"
  by (simp_all add: about_def)

lemma about_append:
  assumes "list_all (about q) cs" and "r \<noteq> q"
  shows "io_active (Read_io r) (cs @ l) = io_active (Read_io r) l"
    and "io_active (Write_io r) (cs @ l) = io_active (Write_io r) l"
    and "timer_active (Read_bytes_timer r) (cs @ l) = timer_active (Read_bytes_timer r) l"
    and "once_pending r (cs @ l) = once_pending r l"
  using assms
proof (induction cs)
  case (Cons c cs)
  {
    case 1
    with Cons show ?case by (simp add: about_def)
  next
    case 2
    with Cons show ?case by (simp add: about_def)
  next
    case 3
    with Cons show ?case by (simp add: about_def)
  next
    case 4
    with Cons show ?case by (simp add: about_def)
  }
qed simp_all

lemma slot_ok_about:
  "list_all (about q) cs \<Longrightarrow> r \<noteq> q \<Longrightarrow> slot_ok (cs @ l) r x = slot_ok l r x"
  by (simp add: slot_ok_def sock_ok_def about_append split: option.split)

text \<open>The frame rule: a handler that touched one socket only has that one to check.\<close>

lemma socks_inv_step:
  assumes "socks_inv w" and "list_all (about q) cs" and "q < brk w"
    and "socks w' = (socks w)(q := x)" and "calls w' = cs @ calls w" and "brk w' = brk w"
    and "slot_ok (cs @ calls w) q x"
  shows "socks_inv w'"
proof -
  have "slot_ok (calls w') r (socks w' r)" for r
    using assms by (cases "r = q") (simp_all add: socks_inv_def slot_ok_about)
  moreover have "socks w' r = None \<and> \<not> timer_active (Read_bytes_timer r) (calls w')
      \<and> \<not> once_pending r (calls w')"
    if "brk w' \<le> r" for r
  proof -
    have "r \<noteq> q" using that assms(3,6) by auto
    then show ?thesis
      using that assms about_append(3,4) [OF assms(2), of r] by (simp add: socks_inv_def)
  qed
  ultimately show ?thesis by (simp add: socks_inv_def)
qed

lemma socks_inv_sock: "socks_inv w \<Longrightarrow> socks w q = Some b \<Longrightarrow> sock_ok (calls w) q b"
  by (auto simp: socks_inv_def slot_ok_def split: option.splits dest!: spec [of _ q])

lemma socks_inv_brk: "socks_inv w \<Longrightarrow> socks w q = Some b \<Longrightarrow> q < brk w"
  by (metis leI option.distinct(1) socks_inv_def)

text \<open>The parts of the state that the invariant does not read.\<close>

lemma socks_inv_cong:
  "socks w' = socks w \<Longrightarrow> calls w' = calls w \<Longrightarrow> brk w' = brk w \<Longrightarrow> socks_inv w' = socks_inv w"
  by (simp add: socks_inv_def)

lemma socks_inv_emit:
  assumes "socks_inv w" and "\<And>q. about q c"
  shows "socks_inv (w\<lparr>calls := c # calls w\<rparr>)"
proof -
  have "io_active (Read_io q) (c # calls w) = io_active (Read_io q) (calls w)"
    "io_active (Write_io q) (c # calls w) = io_active (Write_io q) (calls w)"
    "timer_active (Read_bytes_timer q) (c # calls w) = timer_active (Read_bytes_timer q) (calls w)"
    "once_pending q (c # calls w) = once_pending q (calls w)"
    for q
    using assms(2) [of "Suc q"] unfolding about_def by (metis n_not_Suc_n)+
  note same = this
  then have "slot_ok (c # calls w) q x = slot_ok (calls w) q x" for q and x :: "'a BufferedSocket option"
    by (simp add: slot_ok_def sock_ok_def del: io_active.simps timer_active.simps
        once_pending.simps split: option.split)
  then show ?thesis
    using assms(1) same(3,4)
    by (simp add: socks_inv_def del: timer_active.simps once_pending.simps)
qed

subsection \<open>What each handler does on a socket that is there\<close>

definition close_calls :: "ptr \<Rightarrow> 'k BufferedSocket \<Rightarrow> ext_call list" where
  "close_calls q b =
     Ev_timer_stop (Read_bytes_timer q)
     # (if state b \<noteq> BS_CONNECTING then [Ev_io_stop (Write_io q), Ev_io_stop (Read_io q)] else [])
     @ (if fd b \<noteq> -1 then [Sys_close (fd b)] else [])"

text \<open>The state in which the close callback is called.\<close>

definition closed_world :: "ptr \<Rightarrow> 'k BufferedSocket \<Rightarrow> ('k, 'z) sock_world_scheme \<Rightarrow>
    ('k, 'z) sock_world_scheme" where
  "closed_world q b w = w\<lparr>socks := (socks w)(q \<mapsto> b\<lparr>fd := -1, state := BS_DISCONNECTED\<rparr>),
                          calls := close_calls q b @ calls w\<rparr>"

lemma close_disconnected:
  "socks w q = Some b \<Longrightarrow> state b = BS_DISCONNECTED \<Longrightarrow> buffered_socket_close call q w = Inr w"
  by (simp add: buffered_socket_close_def sock_simps)

lemma fd_closed_already: "fd b = -1 \<Longrightarrow> b\<lparr>fd := -1, state := s\<rparr> = b\<lparr>state := s\<rparr>"
  by (cases b) simp

lemma close_eq:
  assumes b: "socks w q = Some b" and st: "state b \<noteq> BS_DISCONNECTED"
    and ev: "state b \<noteq> BS_CONNECTING \<Longrightarrow> read_ev b \<noteq> None \<and> write_ev b \<noteq> None"
  shows "buffered_socket_close call q w = invoke call close_callback q (closed_world q b w)"
proof (cases "state b = BS_CONNECTING")
  case True
  then show ?thesis using assms
    by (cases "fd b = -1")
      (simp_all add: buffered_socket_close_def sock_simps closed_world_def close_calls_def
        fd_closed_already)
next
  case False
  then obtain f g where "read_ev b = Some f" "write_ev b = Some g" using ev by auto
  then show ?thesis using assms False
    by (cases "fd b = -1")
      (simp_all add: buffered_socket_close_def sock_simps closed_world_def close_calls_def
        fd_closed_already)
qed

lemma close_uninitialised:
  assumes "socks w q = Some b" and "state b \<noteq> BS_DISCONNECTED" and "state b \<noteq> BS_CONNECTING"
    and "read_ev b = None \<or> write_ev b = None"
  shows "buffered_socket_close call q w = Inl Uninitialised"
proof (cases "read_ev b")
  case None
  then show ?thesis using assms
    by (cases "fd b = -1") (simp_all add: buffered_socket_close_def sock_simps)
next
  case (Some f)
  then have "write_ev b = None" using assms(4) by simp
  then show ?thesis using assms Some
    by (cases "fd b = -1") (simp_all add: buffered_socket_close_def sock_simps)
qed

lemma close_calls_about: "list_all (about q) (close_calls q b)"
  by (simp add: close_calls_def)

lemma closed_sock_ok:
  "sock_ok (calls w) q b \<Longrightarrow> state b \<noteq> BS_DISCONNECTED \<Longrightarrow>
    sock_ok (close_calls q b @ calls w) q (b\<lparr>fd := -1, state := BS_DISCONNECTED\<rparr>)"
  by (auto simp: sock_ok_def close_calls_def less_BufferedSocketStates_def)

lemma closed_world_inv:
  assumes "socks_inv w" and "socks w q = Some b" and "state b \<noteq> BS_DISCONNECTED"
  shows "socks_inv (closed_world q b w)"
  using assms closed_sock_ok [OF socks_inv_sock [OF assms(1,2)] assms(3)]
  by (intro socks_inv_step [OF assms(1) close_calls_about, where q = q
        and x = "Some (b\<lparr>fd := -1, state := BS_DISCONNECTED\<rparr>)"])
    (simp_all add: closed_world_def socks_inv_brk)

text \<open>Closing a socket that is not there or was never connected does not return.\<close>

lemma close_returns:
  assumes "buffered_socket_close call q w = Inr w'"
  obtains (noop) b where "socks w q = Some b" "state b = BS_DISCONNECTED" "w' = w"
  | (closed) b where "socks w q = Some b" "state b \<noteq> BS_DISCONNECTED"
      "invoke call close_callback q (closed_world q b w) = Inr w'"
proof (cases "socks w q")
  case None
  then show ?thesis using assms by (simp add: buffered_socket_close_def on_sock_def)
next
  case (Some b)
  show ?thesis
  proof (cases "state b = BS_DISCONNECTED")
    case True
    have "w' = w" using assms close_disconnected [OF Some True, of call] by simp
    then show ?thesis by (rule noop [OF Some True])
  next
    case False
    have "state b \<noteq> BS_CONNECTING \<Longrightarrow> read_ev b \<noteq> None \<and> write_ev b \<noteq> None"
      using assms close_uninitialised [OF Some False, of call] by (cases "read_ev b") auto
    then have "invoke call close_callback q (closed_world q b w) = Inr w'"
      using assms close_eq [OF Some False] by simp
    then show ?thesis by (rule closed [OF Some False])
  qed
qed

subsection \<open>The contract of the callbacks\<close>

text \<open>
  Two states with the same links: the same sockets, each with the same owner and the same
  callbacks, a pending read unchanged or withdrawn, and nothing else of the program touched.
\<close>

definition same_link :: "'k BufferedSocket \<Rightarrow> 'k BufferedSocket \<Rightarrow> bool" where
  "same_link b b' \<longleftrightarrow>
     cbarg b' = cbarg b \<and> connect_callback b' = connect_callback b
     \<and> close_callback b' = close_callback b \<and> error_callback b' = error_callback b
     \<and> (state b = BS_DISCONNECTED \<longrightarrow> state b' = BS_DISCONNECTED)
     \<and> (read_bytes_callback b' = None
        \<or> read_bytes_callback b' = read_bytes_callback b \<and> read_bytes_arg b' = read_bytes_arg b)"

definition socket_entry :: "ext_call \<Rightarrow> bool" where
  "socket_entry c \<longleftrightarrow>
     (case c of
        Ev_io_start v f \<Rightarrow> True | Ev_io_stop v \<Rightarrow> True
      | Ev_timer_start (Read_bytes_timer q) \<Rightarrow> True | Ev_timer_stop (Read_bytes_timer q) \<Rightarrow> True
      | Timer_expired (Read_bytes_timer q) \<Rightarrow> True
      | Ev_once q f \<Rightarrow> True | Once_fired q \<Rightarrow> True | Sys_getaddrinfo \<Rightarrow> True | Sys_freeaddrinfo \<Rightarrow> True
      | Sys_socket f \<Rightarrow> True | Sys_close f \<Rightarrow> True | _ \<Rightarrow> False)"

definition same_links ::
  "('k, 'z) sock_world_scheme \<Rightarrow> ('k, 'z) sock_world_scheme \<Rightarrow> bool" where
  "same_links w w' \<longleftrightarrow> sock_world.more w' = sock_world.more w \<and> brk w' = brk w
     \<and> (\<exists>cs. calls w' = cs @ calls w \<and> list_all socket_entry cs)
     \<and> (\<forall>q. rel_option same_link (socks w q) (socks w' q))"

lemma same_link_refl [simp]: "same_link b b"
  by (simp add: same_link_def)

lemma same_links_upd:
  assumes "socks w q = Some b" and "same_link b b'" and "socks w' = (socks w)(q \<mapsto> b')"
    and "brk w' = brk w" and "sock_world.more w' = sock_world.more w"
    and "calls w' = cs @ calls w" and "list_all socket_entry cs"
  shows "same_links w w'"
proof -
  have "rel_option same_link x x" for x :: "'a BufferedSocket option"
    by (cases x) simp_all
  then show ?thesis using assms by (simp add: same_links_def)
qed

lemma same_links_id:
  "socks w' = socks w \<Longrightarrow> brk w' = brk w \<Longrightarrow> sock_world.more w' = sock_world.more w \<Longrightarrow>
    calls w' = calls w \<Longrightarrow> same_links w w'"
  by (simp add: same_links_def option.rel_refl)

text \<open>
  When a socket calls which of its callbacks: the connect callback while connected, the close
  callback while disconnected, the error callback at any time.
\<close>

definition may_call :: "'k \<Rightarrow> ptr \<Rightarrow> 'k BufferedSocket \<Rightarrow> bool" where
  "may_call k arg b \<longleftrightarrow> arg = cbarg b
     \<and> (state b = BS_CONNECTED \<and> connect_callback b = Some k
        \<or> state b = BS_DISCONNECTED \<and> close_callback b = Some k
        \<or> error_callback b = Some k)"

definition withdraw_read :: "'k BufferedSocket \<Rightarrow> 'k BufferedSocket" where
  "withdraw_read b = b\<lparr>read_bytes_callback := None, read_bytes_n := 0, read_bytes_arg := 0\<rparr>"

locale socket_client =
  fixes inv :: "('k, 'z) sock_world_scheme \<Rightarrow> bool" and call :: "('k, 'z) callbacks"
  assumes inv_socks: "inv w \<Longrightarrow> socks_inv w"
    and inv_links: "inv w \<Longrightarrow> socks_inv w' \<Longrightarrow> same_links w w' \<Longrightarrow> inv w'"
    and call_inv: "inv w \<Longrightarrow> socks w q = Some b \<Longrightarrow> may_call k arg b \<Longrightarrow>
      call k q arg w = Inr w' \<Longrightarrow> inv w'"
    and call_bytes_inv: "inv w \<Longrightarrow> socks w q = Some b \<Longrightarrow> read_bytes_callback b = Some k \<Longrightarrow>
      inv w1 \<Longrightarrow> socks w1 q = Some (withdraw_read b) \<Longrightarrow>
      call k q (read_bytes_arg b) w1 = Inr w' \<Longrightarrow> inv w'"
begin

lemma invoke_inv:
  assumes "inv w" and "socks w q = Some b" and "\<And>k. sel b = Some k \<Longrightarrow> may_call k (cbarg b) b"
    and "invoke call sel q w = Inr w'"
  shows "inv w'"
  using assms call_inv [OF assms(1,2)] by (auto simp: invoke_def on_sock_def split: option.splits)

lemma invoke_close_inv:
  assumes "inv w" and "socks w q = Some b" and "state b = BS_DISCONNECTED"
    and "invoke call close_callback q w = Inr w'"
  shows "inv w'"
  using assms(3) by (intro invoke_inv [OF assms(1,2) _ assms(4)]) (simp add: may_call_def)

lemma invoke_error_inv:
  assumes "inv w" and "invoke call error_callback q w = Inr w'"
  shows "inv w'"
proof (cases "socks w q")
  case None
  then show ?thesis using assms(2) by (simp add: invoke_def on_sock_def)
next
  case (Some b)
  show ?thesis by (intro invoke_inv [OF assms(1) Some _ assms(2)]) (simp add: may_call_def)
qed

lemma close_inv:
  assumes inv: "inv w" and run: "buffered_socket_close call q w = Inr w'"
  shows "inv w'"
  using run
proof (cases rule: close_returns)
  case noop
  then show ?thesis using inv by simp
next
  case (closed b)
  have "socks_inv (closed_world q b w)"
    using closed_world_inv [OF inv_socks [OF inv] closed(1,2)] .
  moreover have "same_links w (closed_world q b w)"
    by (rule same_links_upd [OF closed(1), where cs = "close_calls q b"])
      (simp_all add: closed_world_def same_link_def close_calls_def socket_entry_def)
  ultimately have "inv (closed_world q b w)" by (rule inv_links [OF inv])
  then show ?thesis
    by (rule invoke_close_inv [where b = "b\<lparr>fd := -1, state := BS_DISCONNECTED\<rparr>",
          OF _ _ _ closed(3)]) (simp_all add: closed_world_def)
qed

lemma io_error_inv:
  "inv w \<Longrightarrow> io_error call q w = Inr w' \<Longrightarrow> inv w'"
  by (auto simp: io_error_def bind_res_Inr_iff intro: invoke_error_inv close_inv)

end

text \<open>Operations that call nothing keep the invariant by themselves.\<close>

lemma read_bytes_inv:
  assumes inv: "socks_inv w" and run: "buffered_socket_read_bytes n k arg q w = Inr w'"
  shows "socks_inv w'"
proof (cases "socks w q")
  case None
  then show ?thesis using run by (simp add: buffered_socket_read_bytes_def on_sock_def)
next
  case (Some b)
  have ok: "sock_ok (calls w) q b" using inv Some by (rule socks_inv_sock)
  let ?b = "b\<lparr>read_bytes_callback := Some k, read_bytes_arg := arg, read_bytes_n := n\<rparr>"
  let ?cs = "if n \<le> offset (read_buf b) then [Ev_timer_start (Read_bytes_timer q)] else []"
  have w': "w' = w\<lparr>socks := (socks w)(q \<mapsto> ?b), calls := ?cs @ calls w\<rparr>"
    using run Some by (auto simp: buffered_socket_read_bytes_def sock_simps BUFFER_HAS_DATA_def
        split: if_splits)
  have "sock_ok (?cs @ calls w) q ?b"
    using ok by (auto simp: sock_ok_def)
  then show ?thesis
    using socks_inv_brk [OF inv Some] unfolding w'
    by (intro socks_inv_step [OF inv, where q = q and cs = ?cs and x = "Some ?b"]) simp_all
qed

lemma write_inv:
  assumes inv: "socks_inv w" and len: "len < 2 ^ 31"
    and run: "buffered_socket_write src len q w = Inr (n, w')"
  shows "socks_inv w'"
proof (cases "socks w q")
  case None
  then show ?thesis using run by (simp add: buffered_socket_write_def on_sock_def)
next
  case (Some b)
  have ok: "sock_ok (calls w) q b" using inv Some by (rule socks_inv_sock)
  show ?thesis
  proof (cases "state b = BS_CONNECTED")
    case True
    then obtain g where g: "write_ev b = Some g" using ok by (auto simp: sock_ok_def)
    obtain wb where wb: "buffer_add_void (junk w) src len (write_buf b) = Inr wb"
        and w': "w' = w\<lparr>socks := (socks w)(q \<mapsto> b\<lparr>write_buf := wb\<rparr>),
                      calls := Ev_io_start (Write_io q) g # calls w\<rparr>"
      using run Some True g
      by (auto simp: buffered_socket_write_def sock_simps bind_res_Inr_iff)
    have "wf_bounded wb"
      using buffer_add_void_bounded [OF _ len wb] ok by (simp add: sock_ok_def)
    then have "sock_ok ([Ev_io_start (Write_io q) g] @ calls w) q (b\<lparr>write_buf := wb\<rparr>)"
      using ok True by (simp add: sock_ok_def less_BufferedSocketStates_def)
    then show ?thesis
      using socks_inv_brk [OF inv Some] unfolding w'
      by (intro socks_inv_step [OF inv, where q = q and cs = "[Ev_io_start (Write_io q) g]"
            and x = "Some (b\<lparr>write_buf := wb\<rparr>)"]) simp_all
  next
    case False
    then show ?thesis using run Some inv by (simp add: buffered_socket_write_def sock_simps)
  qed
qed

lemma write_buffer_inv:
  assumes "socks_inv w" and "wf_bounded buf"
    and "buffered_socket_write_buffer buf q w = Inr (n, buf', w')"
  shows "socks_inv w' \<and> wf_bounded buf'"
proof -
  have "offset buf < 2 ^ 31" using assms(2) by (simp add: wf_bounded_def wf_buffer_def)
  then show ?thesis
    using assms write_inv [OF assms(1), of "offset buf"]
    by (auto simp: buffered_socket_write_buffer_def BUFFER_HAS_DATA_def bind_res_Inr_iff Let_def
        wf_bounded_reset split: if_splits)
qed

text \<open>A new socket, and one that is freed while it is not connected.\<close>

lemma new_socket_inv:
  assumes inv: "socks_inv w" and pos: "0 < rl" "rl < 2 ^ 31" "0 < rc" "rc < 2 ^ 31"
      "0 < wl" "wl < 2 ^ 31" "0 < wc" "wc < 2 ^ 31"
    and run: "new_buffered_socket addr port rl rc wl wc c1 c2 None None c5 arg w = (q, w')"
  shows "socks_inv w'"
proof -
  have fresh: "socks w (brk w) = None" "\<not> timer_active (Read_bytes_timer (brk w)) (calls w)"
    "\<not> once_pending (brk w) (calls w)"
    using inv by (simp_all add: socks_inv_def)
  then have idle: "\<not> io_active (Read_io (brk w)) (calls w)" "\<not> io_active (Write_io (brk w)) (calls w)"
    using inv by (auto simp: socks_inv_def dest: spec [of _ "brk w"])
  have buf: "wf_bounded (new_buffer (junk w) rl rc)" "wf_bounded (new_buffer (junk w) wl wc)"
    using pos by (simp_all add: wf_bounded_def wf_new_buffer) (simp_all add: new_buffer_def)
  have "slot_ok (calls w') r (socks w' r)" for r
    using run inv fresh idle buf
    by (cases "r = brk w")
      (auto simp: new_buffered_socket_def Let_def socks_inv_def sock_ok_def, simp_all add: new_buffer_def)
  then show ?thesis
    using run inv by (auto simp: new_buffered_socket_def Let_def socks_inv_def)
qed

lemma free_socket_inv:
  assumes inv: "socks_inv w" and st: "\<And>b. socks w q = Some b \<Longrightarrow> state b \<noteq> BS_CONNECTED"
    and run: "free_buffered_socket q w = Inr w'"
  shows "socks_inv w'"
proof (cases "socks w q")
  case None
  then show ?thesis using run by (simp add: free_buffered_socket_def)
next
  case (Some b)
  then have "\<not> io_active (Read_io q) (calls w)" "\<not> io_active (Write_io q) (calls w)"
    using socks_inv_sock [OF inv Some] st by (auto simp: sock_ok_def)
  then show ?thesis
    using run Some socks_inv_brk [OF inv Some]
    by (intro socks_inv_step [OF inv, where q = q and cs = "[]" and x = None])
      (auto simp: free_buffered_socket_def)
qed

text \<open>Connecting: the outcome of the system calls decides between four results.\<close>

datatype connect_outcome = Addr_failed | Socket_failed | Setup_failed | Started

definition connect_outcome :: "connect_env \<Rightarrow> connect_outcome" where
  "connect_outcome env =
     (if getaddrinfo_ret env \<noteq> 0 then Addr_failed
      else if socket_ret env = -1 then Socket_failed
      else if getfl_ret env < 0 \<or> setfl_ret env = -1
        \<or> connect_ret env = -1 \<and> connect_errno env \<noteq> EINPROGRESS then Setup_failed
      else Started)"

definition connect_calls :: "connect_env \<Rightarrow> ptr \<Rightarrow> ext_call list" where
  "connect_calls env q =
     (case connect_outcome env of
        Addr_failed \<Rightarrow> []
      | Socket_failed \<Rightarrow> [Sys_getaddrinfo]
      | Setup_failed \<Rightarrow> [Sys_close (socket_ret env), Sys_socket (socket_ret env), Sys_getaddrinfo]
      | Started \<Rightarrow> [Ev_once q (socket_ret env), Sys_freeaddrinfo, Sys_socket (socket_ret env),
          Sys_getaddrinfo])"

definition connect_sock :: "connect_env \<Rightarrow> 'k BufferedSocket \<Rightarrow> 'k BufferedSocket" where
  "connect_sock env b =
     (case connect_outcome env of
        Addr_failed \<Rightarrow> b
      | Started \<Rightarrow> b\<lparr>fd := socket_ret env, state := BS_CONNECTING\<rparr>
      | _ \<Rightarrow> b\<lparr>fd := socket_ret env\<rparr>)"

definition connect_errno_after :: "connect_env \<Rightarrow> int \<Rightarrow> int" where
  "connect_errno_after env e =
     (if connect_outcome env = Started \<and> connect_ret env \<noteq> -1 then e else connect_errno env)"

lemma connect_eq:
  assumes b: "socks w q = Some b" and st: "state b = BS_INIT \<or> state b = BS_DISCONNECTED"
  shows "buffered_socket_connect env q w =
    Inr (if connect_outcome env = Started then socket_ret env else 0,
         w\<lparr>socks := (socks w)(q \<mapsto> connect_sock env b), calls := connect_calls env q @ calls w,
           errno := connect_errno_after env (errno w)\<rparr>)"
proof -
  have "state b \<noteq> BS_CONNECTED" "state b \<noteq> BS_CONNECTING" using st by auto
  then show ?thesis
    using b fun_upd_triv [of "socks w" q]
    by (simp add: buffered_socket_connect_def sock_simps connect_outcome_def connect_calls_def
        connect_sock_def connect_errno_after_def Let_def)
qed

lemma connect_busy:
  assumes "socks w q = Some b" and "state b = BS_CONNECTED \<or> state b = BS_CONNECTING"
  shows "buffered_socket_connect env q w = Inr (0, w)"
  using assms by (simp add: buffered_socket_connect_def sock_simps Let_def)

lemma connect_calls_about: "list_all (about q) (connect_calls env q)"
  by (simp add: connect_calls_def split: connect_outcome.split)

lemma connect_sock_ok:
  assumes "sock_ok log q b" and "state b = BS_INIT"
  shows "sock_ok (connect_calls env q @ log) q (connect_sock env b)"
  using assms by (auto simp: sock_ok_def connect_sock_def connect_calls_def
      less_BufferedSocketStates_def split: connect_outcome.split)

lemma connect_inv:
  assumes inv: "socks_inv w" and st: "\<And>b. socks w q = Some b \<Longrightarrow> state b = BS_INIT"
    and run: "buffered_socket_connect env q w = Inr (r, w')"
  shows "socks_inv w'"
proof (cases "socks w q")
  case None
  then show ?thesis using run by (simp add: buffered_socket_connect_def on_sock_def)
next
  case (Some b)
  show ?thesis
    using run connect_eq [OF Some, of env] st [OF Some] socks_inv_brk [OF inv Some]
      connect_sock_ok [OF socks_inv_sock [OF inv Some] st [OF Some]]
    by (intro socks_inv_step [OF inv connect_calls_about [of q env], where x = "Some (connect_sock env b)"]) auto
qed

subsection \<open>The handlers\<close>

text \<open>The state in which the connect callback is called.\<close>

definition connected_world :: "ptr \<Rightarrow> 'k BufferedSocket \<Rightarrow> ('k, 'z) sock_world_scheme \<Rightarrow>
    ('k, 'z) sock_world_scheme" where
  "connected_world q b w =
     w\<lparr>socks := (socks w)(q \<mapsto> b\<lparr>state := BS_CONNECTED, read_ev := Some (fd b),
                               write_ev := Some (fd b)\<rparr>),
       calls := Ev_io_start (Read_io q) (fd b) # calls w\<rparr>"

definition connect_ok :: "connected_env \<Rightarrow> bool" where
  "connect_ok env \<longleftrightarrow> \<not> timed_out env \<and> getsockopt_ret env \<noteq> -1 \<and> so_error env = 0"

definition connect_fail_world ::
  "connected_env \<Rightarrow> ('k, 'z) sock_world_scheme \<Rightarrow> ('k, 'z) sock_world_scheme" where
  "connect_fail_world env w =
     (if \<not> timed_out env \<and> getsockopt_ret env = -1 then w\<lparr>errno := getsockopt_errno env\<rparr> else w)"

lemma connect_cb_eq:
  assumes "socks w q = Some b"
  shows "buffered_socket_connect_cb call env q w =
    (if connect_ok env then invoke call connect_callback q (connected_world q b w)
     else buffered_socket_close call q (connect_fail_world env w))"
  using assms
  by (simp add: buffered_socket_connect_cb_def connect_ok_def connected_world_def
      connect_fail_world_def sock_simps)

lemma connected_world_inv:
  assumes inv: "socks_inv w" and b: "socks w q = Some b" and st: "state b = BS_CONNECTING"
    and fired: "\<not> once_pending q (calls w)"
  shows "socks_inv (connected_world q b w)"
proof -
  have "sock_ok ([Ev_io_start (Read_io q) (fd b)] @ calls w) q
      (b\<lparr>state := BS_CONNECTED, read_ev := Some (fd b), write_ev := Some (fd b)\<rparr>)"
    using socks_inv_sock [OF inv b] st fired
    by (auto simp: sock_ok_def less_BufferedSocketStates_def)
  then show ?thesis
    using socks_inv_brk [OF inv b]
    by (intro socks_inv_step [OF inv, where q = q and cs = "[Ev_io_start (Read_io q) (fd b)]"
          and x = "Some (b\<lparr>state := BS_CONNECTED, read_ev := Some (fd b), write_ev := Some (fd b)\<rparr>)"])
      (simp_all add: connected_world_def)
qed

text \<open>
  The two buffer transfers, up to the point where the handler looks at the result.
\<close>

definition buf_world :: "ptr \<Rightarrow> 'k BufferedSocket \<Rightarrow> int \<Rightarrow> ext_call list \<Rightarrow>
    ('k, 'z) sock_world_scheme \<Rightarrow> ('k, 'z) sock_world_scheme" where
  "buf_world q b err cs w =
     w\<lparr>socks := (socks w)(q \<mapsto> b), errno := err, calls := cs @ calls w\<rparr>"

lemma socks_buf_world [simp]:
  "socks (buf_world q b err cs w) = (socks w)(q \<mapsto> b)"
  "calls (buf_world q b err cs w) = cs @ calls w" "brk (buf_world q b err cs w) = brk w"
  by (simp_all add: buf_world_def)

lemma buf_world_inv:
  assumes "socks_inv w" and "socks w q = Some b" and "list_all (about q) cs"
    and "sock_ok (cs @ calls w) q b'"
  shows "socks_inv (buf_world q b' err cs w)"
  using assms socks_inv_brk [OF assms(1,2)]
  by (intro socks_inv_step [OF assms(1,3), where x = "Some b'"]) simp_all

lemma sock_ok_read_buf:
  "sock_ok log q b \<Longrightarrow> wf_bounded rb \<Longrightarrow> offset rb = offset (read_buf b) \<Longrightarrow>
    sock_ok log q (b\<lparr>read_buf := rb\<rparr>)"
  by (simp add: sock_ok_def)

text \<open>What the read handler starts when the bytes that were asked for have arrived.\<close>

definition wakeup :: "ptr \<Rightarrow> 'k BufferedSocket \<Rightarrow> ext_call list" where
  "wakeup q b =
     (if read_bytes_n b \<noteq> 0 \<and> read_bytes_n b \<le> offset (read_buf b)
      then [Ev_timer_start (Read_bytes_timer q)] else [])"

lemma read_cb_eq:
  assumes b: "socks w q = Some b" and rcb: "read_callback b = None"
    and rd: "buffer_read_fd (junk w) env (errno w) (read_buf b) = Inr (rb, res, err)"
  shows "buffered_socket_read_cb call env q w =
    (let b' = b\<lparr>read_buf := rb\<rparr> in
     if res = -1 \<and> (err = EAGAIN \<or> err = EINTR) then Inr (buf_world q b' err [] w)
     else if res = -1 \<or> res = 0 then io_error call q (buf_world q b' err [] w)
     else Inr (buf_world q b' err (wakeup q b') w))"
  using b rcb rd
  by (simp add: buffered_socket_read_cb_def sock_simps buf_world_def wakeup_def BUFFER_HAS_DATA_def
      Let_def)

lemma wakeup_sock_ok:
  assumes ok: "sock_ok log q b" and "wf_bounded rb" and "offset (read_buf b) \<le> offset rb"
    and "state b = BS_CONNECTED"
  shows "sock_ok (wakeup q (b\<lparr>read_buf := rb\<rparr>) @ log) q (b\<lparr>read_buf := rb\<rparr>)"
  using assms by (auto simp: sock_ok_def wakeup_def less_BufferedSocketStates_def)

lemma write_cb_eq:
  assumes b: "socks w q = Some b" and wcb: "write_callback b = None" and ev: "write_ev b \<noteq> None"
    and wr: "buffer_write_fd send (errno w) (write_buf b) = Inr (wb, res, err)"
  shows "buffered_socket_write_cb call send q w =
    (let b' = b\<lparr>write_buf := wb\<rparr>;
         w' = buf_world q b' err (if offset wb = 0 then [Ev_io_stop (Write_io q)] else []) w in
     if res = -1 \<and> (err = EAGAIN \<or> err = EINTR \<or> err = EINPROGRESS) then Inr w'
     else if res = -1 \<or> res = 0 then io_error call q w'
     else Inr w')"
  using b wcb ev wr
  by (auto simp: buffered_socket_write_cb_def sock_simps buf_world_def BUFFER_HAS_DATA_def Let_def)

lemma buffer_write_fd_bounded:
  assumes "wf_bounded b" and "send_ok send"
  shows "\<exists>wb res err k. buffer_write_fd send e b = Inr (wb, res, err) \<and> wf_bounded wb
    \<and> contents wb = drop k (contents b) \<and> (0 \<le> res \<longrightarrow> res = int k)"
proof (cases "send (contents b)")
  case (Send_count k)
  then show ?thesis
    using assms buffer_write_fd_eq [of b send e] contents_buffer_drain [of b k]
    by (auto simp: wf_bounded_def wf_buffer_drain)
next
  case (Send_error err)
  then show ?thesis
    using assms buffer_write_fd_eq [of b send e]
    by (auto simp: wf_bounded_def intro!: exI [of _ "0::nat"])
qed

context socket_client
begin

lemma connect_cb_inv:
  assumes inv: "inv w" and fired: "\<not> once_pending q (calls w)"
    and st: "\<And>b. socks w q = Some b \<Longrightarrow> state b = BS_CONNECTING \<or> \<not> connect_ok env"
    and run: "buffered_socket_connect_cb call env q w = Inr w'"
  shows "inv w'"
proof (cases "socks w q")
  case None
  then show ?thesis using run by (simp add: buffered_socket_connect_cb_def on_sock_def)
next
  case (Some b)
  show ?thesis
  proof (cases "connect_ok env")
    case True
    then have "socks_inv (connected_world q b w)"
      using st [OF Some] connected_world_inv [OF inv_socks [OF inv] Some _ fired] by simp
    moreover have "state b \<noteq> BS_DISCONNECTED" using st [OF Some] True by auto
    then have "same_links w (connected_world q b w)"
      by (intro same_links_upd [OF Some, where cs = "[Ev_io_start (Read_io q) (fd b)]"])
        (auto simp: connected_world_def same_link_def socket_entry_def)
    ultimately have "inv (connected_world q b w)" by (rule inv_links [OF inv])
    then show ?thesis
    proof (rule invoke_inv [where b = "b\<lparr>state := BS_CONNECTED, read_ev := Some (fd b),
            write_ev := Some (fd b)\<rparr>"])
      show "invoke call connect_callback q (connected_world q b w) = Inr w'"
        using run True by (simp add: connect_cb_eq [OF Some])
    qed (simp_all add: connected_world_def may_call_def)
  next
    case False
    have "socks_inv (connect_fail_world env w)"
      using inv_socks [OF inv] by (simp add: connect_fail_world_def socks_inv_def)
    then have "inv (connect_fail_world env w)"
      by (rule inv_links [OF inv]) (rule same_links_id; simp add: connect_fail_world_def)
    then show ?thesis
      using run False by (auto simp: connect_cb_eq [OF Some] intro: close_inv)
  qed
qed

lemma buf_world_links:
  assumes "inv w" and "socks w q = Some b" and "same_link b b'"
    and "list_all socket_entry cs" and "socks_inv (buf_world q b' err cs w)"
  shows "inv (buf_world q b' err cs w)"
  using assms(4)
  by (intro inv_links [OF assms(1,5) same_links_upd [OF assms(2,3), where cs = cs]])
    (simp_all add: buf_world_def)

lemma read_cb_inv:
  assumes inv: "inv w" and env: "read_env_ok env"
    and st: "\<And>b. socks w q = Some b \<Longrightarrow> state b = BS_CONNECTED"
    and run: "buffered_socket_read_cb call env q w = Inr w'"
  shows "inv w'"
proof (cases "socks w q")
  case None
  then show ?thesis using run by (simp add: buffered_socket_read_cb_def on_sock_def)
next
  case (Some b)
  have si: "socks_inv w" using inv by (rule inv_socks)
  have ok: "sock_ok (calls w) q b" using si Some by (rule socks_inv_sock)
  then have rcb: "read_callback b = None" and bb: "wf_bounded (read_buf b)"
    by (simp_all add: sock_ok_def)
  obtain rb res err new where rd:
      "buffer_read_fd (junk w) env (errno w) (read_buf b) = Inr (rb, res, err)"
      and rb: "wf_bounded rb" "contents rb = contents (read_buf b) @ new" "res \<le> 0 \<longrightarrow> new = []"
    using buffer_read_fd_bounded [OF bb env] by blast
  have off: "offset rb = offset (read_buf b) + length new"
    using offset_contents [OF rb(1)] offset_contents [OF bb] rb(2) by simp
  have link: "same_link b (b\<lparr>read_buf := rb\<rparr>)" by (simp add: same_link_def)
  have quiet: "inv (buf_world q (b\<lparr>read_buf := rb\<rparr>) err [] w)" if "res \<le> 0"
    using sock_ok_read_buf [OF ok rb(1)] off rb(3) that
    by (intro buf_world_links [OF inv Some link] buf_world_inv [OF si Some]) simp_all
  have loud: "inv (buf_world q (b\<lparr>read_buf := rb\<rparr>) err (wakeup q (b\<lparr>read_buf := rb\<rparr>)) w)"
    using wakeup_sock_ok [OF ok rb(1) _ st [OF Some]] off
    by (intro buf_world_links [OF inv Some link] buf_world_inv [OF si Some])
      (simp_all add: wakeup_def socket_entry_def)
  show ?thesis
    using run quiet loud io_error_inv
    by (auto simp: read_cb_eq [OF Some rcb rd] Let_def split: if_splits)
qed

lemma write_cb_inv:
  assumes inv: "inv w" and snd: "send_ok send"
    and st: "\<And>b. socks w q = Some b \<Longrightarrow> state b = BS_CONNECTED \<and> io_active (Write_io q) (calls w)"
    and run: "buffered_socket_write_cb call send q w = Inr w'"
  shows "inv w'"
proof (cases "socks w q")
  case None
  then show ?thesis using run by (simp add: buffered_socket_write_cb_def on_sock_def)
next
  case (Some b)
  have si: "socks_inv w" using inv by (rule inv_socks)
  have ok: "sock_ok (calls w) q b" using si Some by (rule socks_inv_sock)
  then have wcb: "write_callback b = None" and bb: "wf_bounded (write_buf b)"
      and ev: "write_ev b \<noteq> None"
    using st [OF Some] by (simp_all add: sock_ok_def)
  obtain wb res err k where wr: "buffer_write_fd send (errno w) (write_buf b) = Inr (wb, res, err)"
      and wb: "wf_bounded wb"
    using buffer_write_fd_bounded [OF bb snd] by blast
  let ?cs = "if offset wb = 0 then [Ev_io_stop (Write_io q)] else []"
  have "sock_ok (?cs @ calls w) q (b\<lparr>write_buf := wb\<rparr>)"
    using ok wb st [OF Some] by (auto simp: sock_ok_def less_BufferedSocketStates_def)
  then have "inv (buf_world q (b\<lparr>write_buf := wb\<rparr>) err ?cs w)"
    by (intro buf_world_links [OF inv Some] buf_world_inv [OF si Some])
      (simp_all add: same_link_def socket_entry_def)
  then show ?thesis
    using run io_error_inv
    by (auto simp: write_cb_eq [OF Some wcb ev wr] Let_def split: if_splits)
qed

text \<open>The two handlers that run once: the entry says that the timer or the watcher is gone.\<close>

lemma connect_due_inv:
  assumes inv: "inv w" and once: "once_pending q (calls w)"
    and env: "\<And>b. socks w q = Some b \<Longrightarrow> fd b = -1 \<Longrightarrow> \<not> connect_ok env"
    and run: "block [emit (Once_fired q), buffered_socket_connect_cb call env q] w = Inr w'"
  shows "inv w'"
proof -
  let ?w = "w\<lparr>calls := Once_fired q # calls w\<rparr>"
  have run': "buffered_socket_connect_cb call env q ?w = Inr w'"
    using run by (simp add: emit_def)
  have si: "socks_inv w" using inv by (rule inv_socks)
  show ?thesis
  proof (cases "socks w q")
    case None
    then show ?thesis using run' by (simp add: buffered_socket_connect_cb_def on_sock_def)
  next
    case (Some b)
    have ok: "sock_ok (calls w) q b" using si Some by (rule socks_inv_sock)
    then have st: "state b = BS_CONNECTING \<or> \<not> connect_ok env"
      using once env [OF Some] by (auto simp: sock_ok_def)
    have "socks_inv ?w"
      using ok socks_inv_brk [OF si Some] Some
      by (intro socks_inv_step [OF si, where q = q and cs = "[Once_fired q]" and x = "Some b"])
        (auto simp: sock_ok_def)
    moreover have "same_links w ?w"
      using Some by (intro same_links_upd [where cs = "[Once_fired q]" and b = b and b' = b])
        (auto simp: socket_entry_def)
    ultimately have "inv ?w" by (rule inv_links [OF inv])
    then show ?thesis using st Some by (intro connect_cb_inv [OF _ _ _ run']) auto
  qed
qed

lemma read_bytes_due_inv:
  assumes inv: "inv w"
    and run: "block [emit (Timer_expired (Read_bytes_timer q)), buffered_socket_read_bytes_cb call q] w
      = Inr w'"
  shows "inv w'"
proof (cases "socks w q")
  case None
  then show ?thesis using run by (simp add: buffered_socket_read_bytes_cb_def on_sock_def emit_def)
next
  case (Some b)
  let ?cs = "[Timer_expired (Read_bytes_timer q)]"
  let ?w = "w\<lparr>calls := Timer_expired (Read_bytes_timer q) # calls w,
      socks := (socks w)(q \<mapsto> withdraw_read b)\<rparr>"
  have si: "socks_inv w" using inv by (rule inv_socks)
  have "sock_ok (?cs @ calls w) q (withdraw_read b)"
    using socks_inv_sock [OF si Some] by (simp add: sock_ok_def withdraw_read_def)
  then have "socks_inv ?w"
    using socks_inv_brk [OF si Some]
    by (intro socks_inv_step [OF si, where q = q and cs = ?cs and x = "Some (withdraw_read b)"]) simp_all
  moreover have "same_links w ?w"
    by (rule same_links_upd [OF Some, where cs = ?cs])
      (simp_all add: withdraw_read_def same_link_def socket_entry_def)
  ultimately have "inv ?w" by (rule inv_links [OF inv])
  moreover obtain k where "read_bytes_callback b = Some k" "call k q (read_bytes_arg b) ?w = Inr w'"
    using run Some
    by (auto simp: buffered_socket_read_bytes_cb_def sock_simps withdraw_read_def split: option.splits)
  ultimately show ?thesis using call_bytes_inv [OF inv Some] by simp
qed

end

end
