(* ===== verification/Connection.thy ===== *)
theory Connection
  imports Nsq_Types Socket_Inv
begin

section \<open>Connections to nsqd (nsqd_connection.c)\<close>

text \<open>
  \<^verbatim>\<open>src/nsqd_connection.c\<close>: the frame reader on top of a buffered socket. It asks the
  socket for the 4 bytes of a frame's size, then for that many bytes, handles the frame, and
  asks for the next size. The callbacks of its owner are the argument \<open>cc\<close>; \<open>nsqd_call cc\<close>
  is what calling one of the functions of this file through a socket does.
\<close>

record conn_callbacks =
  cc_connect :: "(ptr \<Rightarrow> nsq_proc) option"
  cc_close :: "(ptr \<Rightarrow> nsq_proc) option"
  cc_msg :: "(ptr \<Rightarrow> NSQMessage \<Rightarrow> nsq_proc) option"

text \<open>A call of \<^verbatim>\<open>buffered_socket_write\<close> whose count is ignored.\<close>

definition sock_write :: "byte list \<Rightarrow> nat \<Rightarrow> ptr \<Rightarrow> nsq_proc" where
  "sock_write src len q w = bind_res (buffered_socket_write src len q w) (\<lambda>(n, w'). Inr w')"

text \<open>Statements on \<^verbatim>\<open>conn->command_buf\<close>: reset it, write a command, send it.\<close>

definition reset_command_buf :: "ptr \<Rightarrow> nsq_proc" where
  "reset_command_buf p = upd_conn p (\<lambda>c. c\<lparr>command_buf := buffer_reset (command_buf c)\<rparr>)"

definition write_command :: "((nat \<Rightarrow> byte) \<Rightarrow> buffer \<Rightarrow> fault + buffer) \<Rightarrow> ptr \<Rightarrow> nsq_proc" where
  "write_command f p = on_conn p (\<lambda>c w.
     bind_res (f (junk w) (command_buf c)) (\<lambda>cb. upd_conn p (command_buf_update (\<lambda>_. cb)) w))"

definition flush_command_buf :: "ptr \<Rightarrow> nsq_proc" where
  "flush_command_buf p = on_conn p (\<lambda>c w.
     bind_res (buffered_socket_write_buffer (command_buf c) (conn_bs c) w) (\<lambda>(n, cb, w').
       upd_conn p (command_buf_update (\<lambda>_. cb)) w'))"

definition nsqd_connection_connect_cb :: "conn_callbacks \<Rightarrow> ptr \<Rightarrow> ptr \<Rightarrow> nsq_proc" where
  "nsqd_connection_connect_cb cc buffsock p = block
     [on_conn p (\<lambda>c. sock_write (bytes_of ''  V2'' @ replicate 6 0) 4 (conn_bs c)),
      on_conn p (\<lambda>c. case cc_connect cc of None \<Rightarrow> Inr | Some f \<Rightarrow> f p),
      buffered_socket_read_bytes 4 Nsqd_read_size p buffsock]"

text \<open>
  The pointer \<^verbatim>\<open>msg_size_be\<close> is taken before the drain and read after it.
\<close>

definition nsqd_connection_read_size :: "ptr \<Rightarrow> ptr \<Rightarrow> nsq_proc" where
  "nsqd_connection_read_size buffsock p = on_sock buffsock (\<lambda>b.
     let msg_size_be = data (read_buf b) in block
       [upd_sock buffsock (\<lambda>b. b\<lparr>read_buf := buffer_drain 4 (read_buf b)\<rparr>),
        on_sock buffsock (\<lambda>b w.
          bind_res (mem_read (orig (read_buf b)) msg_size_be 4) (\<lambda>bs.
            upd_conn p (current_msg_size_update (\<lambda>_. ntohl_at bs)) w)),
        on_conn p (\<lambda>c.
          buffered_socket_read_bytes (unat (current_msg_size c)) Nsqd_read_data p buffsock)])"

text \<open>
  \<^verbatim>\<open>strncmp(p, lit, strlen(lit)) == 0\<close> for a literal without NUL: the comparison stops at
  the first difference, and reads the block byte by byte up to there.
\<close>

fun strncmp_eq :: "byte list \<Rightarrow> nat \<Rightarrow> byte list \<Rightarrow> fault + bool" where
  "strncmp_eq m p [] = Inr True"
| "strncmp_eq m p (c # cs) =
     (if length m \<le> p then Inl Out_of_bounds
      else if m ! p = c then strncmp_eq m (Suc p) cs else Inr False)"

definition heartbeat :: "byte list" where "heartbeat = bytes_of ''_heartbeat_''"

definition handle_frame :: "conn_callbacks \<Rightarrow> ptr \<Rightarrow> ptr \<Rightarrow> nsq_proc" where
  "handle_frame cc buffsock p = on_conn p (\<lambda>c. on_sock buffsock (\<lambda>b w.
     if current_frame_type c = NSQ_FRAME_TYPE_RESPONSE then
       bind_res (strncmp_eq (orig (read_buf b)) (current_data c) heartbeat) (\<lambda>eq.
         if eq then block [reset_command_buf p, write_command nsq_nop p, flush_command_buf p] w
         else Inr w)
     else if current_frame_type c = NSQ_FRAME_TYPE_MESSAGE then
       bind_res (nsq_decode_message (junk w) (orig (read_buf b)) (current_data c)
                  (unat (current_msg_size c))) (\<lambda>msg.
         (case cc_msg cc of None \<Rightarrow> Inr w | Some f \<Rightarrow> f p msg w))
     else Inr w))"

definition nsqd_connection_read_data :: "conn_callbacks \<Rightarrow> ptr \<Rightarrow> ptr \<Rightarrow> nsq_proc" where
  "nsqd_connection_read_data cc buffsock p = block
     [on_sock buffsock (\<lambda>b w.
        bind_res (mem_read (orig (read_buf b)) (data (read_buf b)) 4) (\<lambda>bs.
          upd_conn p (current_frame_type_update (\<lambda>_. ntohl_at bs)) w)),
      upd_sock buffsock (\<lambda>b. b\<lparr>read_buf := buffer_drain 4 (read_buf b)\<rparr>),
      upd_conn p (\<lambda>c. c\<lparr>current_msg_size := current_msg_size c - 4\<rparr>),
      on_sock buffsock (\<lambda>b. upd_conn p (current_data_update (\<lambda>_. data (read_buf b)))),
      handle_frame cc buffsock p,
      on_conn p (\<lambda>c. upd_sock buffsock (\<lambda>b.
        b\<lparr>read_buf := buffer_drain (unat (current_msg_size c)) (read_buf b)\<rparr>)),
      buffered_socket_read_bytes 4 Nsqd_read_size p buffsock]"

definition nsqd_connection_close_cb :: "conn_callbacks \<Rightarrow> ptr \<Rightarrow> ptr \<Rightarrow> nsq_proc" where
  "nsqd_connection_close_cb cc buffsock p =
     on_conn p (\<lambda>c. case cc_close cc of None \<Rightarrow> Inr | Some f \<Rightarrow> f p)"

definition nsqd_connection_error_cb :: "ptr \<Rightarrow> ptr \<Rightarrow> nsq_proc" where
  "nsqd_connection_error_cb buffsock p = Inr"

fun nsqd_call :: "conn_callbacks \<Rightarrow> nsqd_fn \<Rightarrow> ptr \<Rightarrow> ptr \<Rightarrow> nsq_proc" where
  "nsqd_call cc Nsqd_connect_cb q p = nsqd_connection_connect_cb cc q p"
| "nsqd_call cc Nsqd_close_cb q p = nsqd_connection_close_cb cc q p"
| "nsqd_call cc Nsqd_error_cb q p = nsqd_connection_error_cb q p"
| "nsqd_call cc Nsqd_read_size q p = nsqd_connection_read_size q p"
| "nsqd_call cc Nsqd_read_data q p = nsqd_connection_read_data cc q p"

subsection \<open>Creation, timers, destruction\<close>

definition new_nsqd_connection ::
  "byte list \<Rightarrow> int \<Rightarrow> nsq_world \<Rightarrow> fault + ptr \<times> nsq_world" where
  "new_nsqd_connection address port = on_rdr (\<lambda>r w.
     let p = brk w;
         (q, w1) = new_buffered_socket address port
           (read_buf_len (cfg r)) (read_buf_capacity (cfg r))
           (write_buf_len (cfg r)) (write_buf_capacity (cfg r))
           (Some Nsqd_connect_cb) (Some Nsqd_close_cb) None None (Some Nsqd_error_cb) p
           (w\<lparr>brk := brk w + 1\<rparr>);
         c = \<lparr>conn_address = c_str address, conn_port = port, conn_bs = q,
              command_buf = new_buffer (junk w) (command_buf_len (cfg r))
                (command_buf_capacity (cfg r)),
              current_msg_size = 0, current_frame_type = 0, current_data = 0,
              reconnect_timer = Timer_null, conn_next = 0\<rparr>
     in Inr (p, w1\<lparr>conns := (conns w1)(p \<mapsto> c)\<rparr>))"

definition nsqd_connection_stop_timer :: "ptr \<Rightarrow> nsq_proc" where
  "nsqd_connection_stop_timer p =
     (if p = 0 then Inr
      else on_conn p (\<lambda>c.
        (case reconnect_timer c of
           Timer_null \<Rightarrow> Inr
         | Timer_allocated \<Rightarrow> block
             [emit (Ev_timer_stop (Reconnect_timer p)),
              upd_conn p (reconnect_timer_update (\<lambda>_. Timer_dangling))]
         | Timer_dangling \<Rightarrow> (\<lambda>_. Inl Use_after_free))))"

definition nsqd_connection_init_timer :: "ptr \<Rightarrow> nsq_proc" where
  "nsqd_connection_init_timer p =
     on_rdr (\<lambda>r. upd_conn p (reconnect_timer_update (\<lambda>_. Timer_allocated)))"

definition free_nsqd_connection :: "ptr \<Rightarrow> nsq_proc" where
  "free_nsqd_connection p =
     (if p = 0 then Inr
      else block
        [nsqd_connection_stop_timer p,
         on_conn p (\<lambda>c. free_buffered_socket (conn_bs c)),
         (\<lambda>w. Inr (w\<lparr>conns := (conns w)(p := None)\<rparr>))])"

definition nsqd_connection_connect :: "connect_env \<Rightarrow> ptr \<Rightarrow> nsq_world \<Rightarrow> fault + int \<times> nsq_world" where
  "nsqd_connection_connect env p = on_conn p (\<lambda>c. buffered_socket_connect env (conn_bs c))"

definition nsqd_connection_disconnect :: "conn_callbacks \<Rightarrow> ptr \<Rightarrow> nsq_proc" where
  "nsqd_connection_disconnect cc p =
     on_conn p (\<lambda>c. buffered_socket_close (nsqd_call cc) (conn_bs c))"

end
