(* ===== verification/Frames.thy ===== *)
theory Frames
  imports Connection Command_Decode
begin

section \<open>Reading frames\<close>

text \<open>
  What the frame reader of nsqd_connection.c does with the bytes of a connection. The
  specification is a parser of the byte stream: a frame is a 4-byte size and that many bytes,
  of which the first 4 are the frame type. The reader works in two phases, each a request for
  a number of bytes; the bytes it has received and not yet handled are \<open>unconsumed\<close>. Whoever
  owns the connection is known by the contract \<open>frame_client\<close> only: its message callback
  returns, hands on exactly one message and leaves the reading alone.
\<close>

subsection \<open>The parser\<close>

definition next_frame :: "byte list \<Rightarrow> (byte list \<times> byte list) option" where
  "next_frame s =
     (if length s < 4 then None
      else let n = be_value (take 4 s) in
        if length s < 4 + n then None else Some (take n (drop 4 s), drop (4 + n) s))"

lemma next_frame_shorter: "next_frame s = Some (f, r) \<Longrightarrow> length r < length s"
  by (auto simp: next_frame_def Let_def split: if_splits)

function split_frames :: "byte list \<Rightarrow> byte list list \<times> byte list" where
  "split_frames s =
     (case next_frame s of
        None \<Rightarrow> ([], s)
      | Some (f, r) \<Rightarrow> (let (fs, t) = split_frames r in (f # fs, t)))"
  by auto
termination
  by (relation "measure length") (auto dest: next_frame_shorter)

declare split_frames.simps [simp del]

definition frame_bytes :: "byte list \<Rightarrow> byte list" where
  "frame_bytes f = be32_bytes (of_nat (length f)) @ f"

lemma next_frame_bytes:
  assumes "length f < 2 ^ 32"
  shows "next_frame (frame_bytes f @ s) = Some (f, s)"
  using assms by (simp add: next_frame_def frame_bytes_def be_value_be32 Let_def unat_of_nat)

lemma split_frames_append:
  assumes "\<forall>f \<in> set fs. length f < 2 ^ 32"
  shows "split_frames (concat (map frame_bytes fs) @ s)
    = (fs @ fst (split_frames s), snd (split_frames s))"
  using assms
proof (induction fs)
  case (Cons f fs)
  then show ?case
    by (subst split_frames.simps) (simp add: next_frame_bytes)
qed simp

lemma split_frames_none: "next_frame s = None \<Longrightarrow> split_frames s = ([], s)"
  by (simp add: split_frames.simps)

text \<open>The messages in a list of frames, as the application gets them.\<close>

definition frame_type :: "byte list \<Rightarrow> 32 word" where
  "frame_type f = ntohl_at (take 4 f)"

definition payload :: "byte list \<Rightarrow> byte list" where
  "payload f = drop 4 f"

definition frame_messages :: "(byte list \<Rightarrow> NSQMessage) \<Rightarrow> byte list \<Rightarrow> NSQMessage list" where
  "frame_messages mk f = (if frame_type f = NSQ_FRAME_TYPE_MESSAGE then [mk (payload f)] else [])"

text \<open>
  The frames that the reader handles without leaving its buffer: a type, the fixed part of a
  message, and no response that stops inside the word it is compared with.
\<close>

definition frame_ok :: "byte list \<Rightarrow> bool" where
  "frame_ok f \<longleftrightarrow> 4 \<le> length f
     \<and> (frame_type f = NSQ_FRAME_TYPE_MESSAGE \<longrightarrow> 26 \<le> length (payload f))
     \<and> (frame_type f = NSQ_FRAME_TYPE_RESPONSE \<longrightarrow> \<not> strict_prefix (payload f) heartbeat)"

lemma strncmp_eq_prefix:
  assumes "mem_read m p (length s) = Inr s" and "\<not> strict_prefix s lit"
  shows "strncmp_eq m p lit = Inr (prefix lit s)"
  using assms
proof (induction lit arbitrary: p s)
  case Nil
  then show ?case by simp
next
  case (Cons c lit)
  then obtain x t where s: "s = x # t" by (cases s) auto
  have len: "p + length s \<le> length m" and at: "s = take (length s) (drop p m)"
    using Cons.prems(1) by (auto simp: mem_read_def split: if_splits)
  have x: "m ! p = x"
    using len at by (metis Suc_le_lessD add_Suc_right hd_drop_conv_nth le_add1 length_Cons
        list.sel(1) order_trans s take_Suc not_less_eq_eq nth_via_drop hd_take zero_less_Suc)
  have t: "mem_read m (Suc p) (length t) = Inr t"
    using mem_read_part [OF Cons.prems(1), of 1 "length t"] s by simp
  show ?case
  proof (cases "x = c")
    case True
    then have "\<not> strict_prefix t lit" using Cons.prems(2) s by simp
    then show ?thesis using Cons.IH [OF t] x len s True by simp
  next
    case False
    then show ?thesis using x len s by auto
  qed
qed

subsection \<open>The state of a connection that is being read\<close>

text \<open>Socket \<open>q\<close> and connection \<open>p\<close> are there, connected, and belong together.\<close>

definition live :: "ptr \<Rightarrow> ptr \<Rightarrow> nsq_world \<Rightarrow> bool" where
  "live q p w \<longleftrightarrow>
     (\<exists>b c. socks w q = Some b \<and> conns w p = Some c \<and> conn_bs c = q \<and> cbarg b = p
        \<and> state b = BS_CONNECTED \<and> wf_bounded (read_buf b) \<and> wf_bounded (write_buf b)
        \<and> read_ev b \<noteq> None \<and> write_ev b \<noteq> None \<and> read_callback b = None \<and> write_callback b = None
        \<and> close_callback b = Some Nsqd_close_cb \<and> error_callback b = Some Nsqd_error_cb
        \<and> wf_bounded (command_buf c) \<and> io_active (Read_io q) (calls w))"

text \<open>What the reader reads, and what the rest of the program may rely on meanwhile.\<close>

definition read_side :: "ptr \<Rightarrow> ptr \<Rightarrow> nsq_world \<Rightarrow> nsq_world \<Rightarrow> bool" where
  "read_side q p w w' \<longleftrightarrow>
     map_option (\<lambda>b. (read_buf b, read_bytes_n b, read_bytes_callback b, read_bytes_arg b)) (socks w' q)
       = map_option (\<lambda>b. (read_buf b, read_bytes_n b, read_bytes_callback b, read_bytes_arg b)) (socks w q)
     \<and> map_option (\<lambda>c. (current_msg_size c, current_data c, current_frame_type c)) (conns w' p)
       = map_option (\<lambda>c. (current_msg_size c, current_data c, current_frame_type c)) (conns w p)
     \<and> timer_active (Read_bytes_timer q) (calls w') = timer_active (Read_bytes_timer q) (calls w)"

definition others_kept :: "ptr \<Rightarrow> nsq_world \<Rightarrow> nsq_world \<Rightarrow> bool" where
  "others_kept p w w' \<longleftrightarrow> rdr w' = rdr w \<and> endpoints w' = endpoints w \<and> junk w' = junk w
     \<and> (\<forall>x. map_option conn_next (conns w' x) = map_option conn_next (conns w x))
     \<and> map_option reconnect_timer (conns w' p) = map_option reconnect_timer (conns w p)"

text \<open>A step that delivers the messages \<open>ms\<close> and leaves the reading alone.\<close>

definition quiet :: "ptr \<Rightarrow> ptr \<Rightarrow> NSQMessage list \<Rightarrow> nsq_world \<Rightarrow> nsq_world \<Rightarrow> bool" where
  "quiet q p ms w w' \<longleftrightarrow> live q p w' \<and> read_side q p w w' \<and> others_kept p w w'
     \<and> delivered p (calls w') = delivered p (calls w) @ ms"

lemma others_kept_refl: "others_kept p w w"
  by (simp add: others_kept_def)

lemma others_kept_trans: "others_kept p w w1 \<Longrightarrow> others_kept p w1 w2 \<Longrightarrow> others_kept p w w2"
  by (simp add: others_kept_def)

lemma quiet_refl: "live q p w \<Longrightarrow> quiet q p [] w w"
  by (simp add: quiet_def read_side_def others_kept_def)

lemma quiet_trans:
  "quiet q p ms w w1 \<Longrightarrow> quiet q p ns w1 w2 \<Longrightarrow> quiet q p (ms @ ns) w w2"
  by (auto simp: quiet_def read_side_def intro: others_kept_trans)

text \<open>A procedure that returns, quietly, on a live connection.\<close>

definition silent :: "ptr \<Rightarrow> ptr \<Rightarrow> nsq_proc \<Rightarrow> bool" where
  "silent q p f \<longleftrightarrow> (\<forall>w. live q p w \<longrightarrow> (\<exists>w'. f w = Inr w' \<and> quiet q p [] w w'))"

lemma silent_Inr: "silent q p Inr"
  by (simp add: silent_def quiet_refl)

lemma silent_block: "list_all (silent q p) fs \<Longrightarrow> silent q p (block fs)"
proof (induction fs)
  case Nil
  then show ?case by (simp add: block_Nil silent_Inr)
next
  case (Cons f fs)
  show ?case
    unfolding silent_def
  proof (intro allI impI)
    fix w assume "live q p w"
    then obtain w1 where w1: "f w = Inr w1" "quiet q p [] w w1"
      using Cons.prems by (auto simp: silent_def)
    then have "live q p w1" by (simp add: quiet_def)
    then obtain w2 where "block fs w1 = Inr w2" "quiet q p [] w1 w2"
      using Cons by (auto simp: silent_def)
    then show "\<exists>w'. block (f # fs) w = Inr w' \<and> quiet q p [] w w'"
      using w1 quiet_trans [of q p "[]" w w1 "[]" w2] by auto
  qed
qed

subsection \<open>Statements that a callback is made of\<close>

lemma silent_emit:
  "(\<And>m. c \<noteq> User_msg p m) \<Longrightarrow> about (Suc q) c \<Longrightarrow> silent q p (emit c)"
  unfolding silent_def
proof (intro allI impI)
  fix w assume c: "\<And>m. c \<noteq> User_msg p m" "about (Suc q) c" and l: "live q p w"
  have 1: "io_active (Read_io q) (c # calls w) = io_active (Read_io q) (calls w)"
    "timer_active (Read_bytes_timer q) (c # calls w) = timer_active (Read_bytes_timer q) (calls w)"
    using c(2) by (simp_all add: about_def del: io_active.simps timer_active.simps)
  have 2: "delivered p (c # calls w) = delivered p (calls w)"
    using c(1) by (cases c) auto
  have "quiet q p [] w (w\<lparr>calls := c # calls w\<rparr>)"
    using l by (simp add: quiet_def live_def read_side_def others_kept_def 1 2
        del: io_active.simps timer_active.simps delivered.simps)
  then show "\<exists>w'. emit c w = Inr w' \<and> quiet q p [] w w'" by (simp add: emit_def)
qed

text \<open>A new command buffer.\<close>

lemma quiet_command_buf:
  assumes "live q p w" and "conns w p = Some c" and "wf_bounded cb"
  shows "upd_conn p (command_buf_update (\<lambda>_. cb)) w = Inr (w\<lparr>conns := (conns w)(p \<mapsto> c\<lparr>command_buf := cb\<rparr>)\<rparr>)
    \<and> quiet q p [] w (w\<lparr>conns := (conns w)(p \<mapsto> c\<lparr>command_buf := cb\<rparr>)\<rparr>)"
  using assms
  by (auto simp: upd_conn_def on_conn_def quiet_def live_def read_side_def others_kept_def)

lemma live_conn:
  assumes "live q p w"
  obtains b c where "socks w q = Some b" "conns w p = Some c" "conn_bs c = q" "wf_bounded (command_buf c)"
    "state b = BS_CONNECTED" "wf_bounded (write_buf b)" "wf_bounded (read_buf b)"
  using assms by (auto simp: live_def)

lemma silent_reset_command_buf: "silent q p (reset_command_buf p)"
  unfolding silent_def
proof (intro allI impI)
  fix w assume l: "live q p w"
  then obtain b c where c: "conns w p = Some c" "wf_bounded (command_buf c)" by (rule live_conn)
  then show "\<exists>w'. reset_command_buf p w = Inr w' \<and> quiet q p [] w w'"
    using quiet_command_buf [OF l c(1) wf_bounded_reset [OF c(2)]]
    by (auto simp: reset_command_buf_def upd_conn_def on_conn_def)
qed

lemma silent_write_command:
  assumes f: "\<And>j. f j = send_command j cmd" and ok: "command_args_ok cmd"
    "length (command_bytes cmd) < 2 ^ 31"
  shows "silent q p (write_command f p)"
  unfolding silent_def
proof (intro allI impI)
  fix w assume l: "live q p w"
  then obtain b c where c: "conns w p = Some c" "wf_bounded (command_buf c)" by (rule live_conn)
  obtain cb where "send_command (junk w) cmd (command_buf c) = Inr cb" "wf_bounded cb"
    using lq.adds_total [OF c(2) pieces_small [OF ok], of "junk w"]
    by (auto simp: send_command_pieces [OF ok(1)])
  then show "\<exists>w'. write_command f p w = Inr w' \<and> quiet q p [] w w'"
    using quiet_command_buf [OF l c(1), of cb] c(1) f
    by (auto simp: write_command_def on_conn_def)
qed

text \<open>Writing to the socket of the connection.\<close>

lemma wf_data_le: "wf_buffer b \<Longrightarrow> offset b \<le> length (drop (data b) (orig b))"
  by (auto simp: wf_buffer_def)

lemma write_live:
  assumes l: "live q p w" and len: "len \<le> length src" "len < 2 ^ 31"
  shows "\<exists>w'. buffered_socket_write src len q w = Inr (len, w') \<and> quiet q p [] w w'
    \<and> conns w' = conns w"
proof -
  obtain b c g where b: "socks w q = Some b" "state b = BS_CONNECTED" "wf_bounded (write_buf b)"
      "write_ev b = Some g"
    using l by (auto simp: live_def)
  obtain wb where wb: "buffer_put (junk w) (take len src) (write_buf b) = Inr wb" "wf_bounded wb"
    using buffer_put_total [OF b(3), of "take len src" "junk w"] len by auto
  have "buffer_add_void (junk w) src len (write_buf b) = Inr wb"
    using wb(1) buffer_add_void_take [OF len(1), of "junk w"] by simp
  then have "buffered_socket_write src len q w = Inr (len,
      w\<lparr>socks := (socks w)(q \<mapsto> b\<lparr>write_buf := wb\<rparr>), calls := Ev_io_start (Write_io q) g # calls w\<rparr>)"
    using b by (simp add: buffered_socket_write_def sock_simps)
  moreover have "quiet q p [] w
      (w\<lparr>socks := (socks w)(q \<mapsto> b\<lparr>write_buf := wb\<rparr>), calls := Ev_io_start (Write_io q) g # calls w\<rparr>)"
    using l b wb(2) by (auto simp: quiet_def live_def read_side_def others_kept_def)
  ultimately show ?thesis by auto
qed

lemma silent_flush: "silent q p (flush_command_buf p)"
  unfolding silent_def
proof (intro allI impI)
  fix w assume l: "live q p w"
  then obtain b c where c: "conns w p = Some c" "conn_bs c = q" "wf_bounded (command_buf c)"
    by (rule live_conn)
  let ?cb = "command_buf c" and ?src = "drop (data (command_buf c)) (orig (command_buf c))"
  show "\<exists>w'. flush_command_buf p w = Inr w' \<and> quiet q p [] w w'"
  proof (cases "offset ?cb = 0")
    case True
    then have "buffered_socket_write_buffer ?cb q w = Inr (0, ?cb, w)"
      by (simp add: buffered_socket_write_buffer_def BUFFER_HAS_DATA_def)
    then show ?thesis
      using quiet_command_buf [OF l c(1,3)] c by (auto simp: flush_command_buf_def on_conn_def)
  next
    case False
    have "offset ?cb \<le> length ?src" "offset ?cb < 2 ^ 31"
      using c(3) wf_data_le [of ?cb] by (auto simp: wf_bounded_def wf_buffer_def)
    then obtain w1 where w1: "buffered_socket_write ?src (offset ?cb) q w = Inr (offset ?cb, w1)"
        "quiet q p [] w w1" "conns w1 = conns w"
      using write_live [OF l] by blast
    then have "buffered_socket_write_buffer ?cb q w = Inr (offset ?cb, buffer_reset ?cb, w1)"
      using False by (simp add: buffered_socket_write_buffer_def BUFFER_HAS_DATA_def Let_def)
    moreover have "live q p w1" "conns w1 p = Some c" using w1 c by (simp_all add: quiet_def)
    ultimately show ?thesis
      using quiet_command_buf [of q p w1 c "buffer_reset ?cb"] wf_bounded_reset [OF c(3)] c w1(2)
        quiet_trans [of q p "[]" w w1 "[]"]
      by (fastforce simp: flush_command_buf_def on_conn_def)
  qed
qed

lemmas silent_rules =
  silent_Inr silent_reset_command_buf silent_flush

subsection \<open>The contract of the owner\<close>

text \<open>
  \<open>own w\<close> is what the owner needs to know of the state; \<open>mk\<close> is the message it hands on for
  a payload. \<open>dead q w\<close>: no watcher or timer of the socket is left.
\<close>

definition dead :: "ptr \<Rightarrow> nsq_world \<Rightarrow> bool" where
  "dead q w \<longleftrightarrow> \<not> io_active (Read_io q) (calls w) \<and> \<not> io_active (Write_io q) (calls w)
     \<and> \<not> timer_active (Read_bytes_timer q) (calls w)"

definition shut :: "ptr \<Rightarrow> ptr \<Rightarrow> nsq_world \<Rightarrow> bool" where
  "shut q p w \<longleftrightarrow> dead q w
     \<and> (\<exists>b c. socks w q = Some b \<and> state b = BS_DISCONNECTED \<and> conns w p = Some c \<and> conn_bs c = q)"

locale frame_client =
  fixes cc :: conn_callbacks and q p :: ptr and own :: "nsq_world \<Rightarrow> bool"
    and mk :: "byte list \<Rightarrow> NSQMessage"
  assumes own_kept: "own w \<Longrightarrow> others_kept p w w' \<Longrightarrow> own w'"
    and msg_returns: "own w \<Longrightarrow> live q p w \<Longrightarrow> 26 \<le> length pl \<Longrightarrow>
      \<exists>w'. (case cc_msg cc of None \<Rightarrow> Inr w | Some f \<Rightarrow> f p (message_of (junk w) pl) w) = Inr w'
        \<and> quiet q p [mk pl] w w'"
    and close_returns: "own w \<Longrightarrow> shut q p w \<Longrightarrow>
      \<exists>w'. nsqd_connection_close_cb cc q p w = Inr w' \<and> dead q w'
        \<and> delivered p (calls w') = delivered p (calls w)"
begin

lemma silent_nop_reply:
  "silent q p (block [reset_command_buf p, write_command nsq_nop p, flush_command_buf p])"
proof -
  have "command_args_ok NOP" "length (command_bytes NOP) < 2 ^ 31"
    using length_takeWhile_le [of "\<lambda>c. c \<noteq> 0" "bytes_of ''NOP''"]
    by (simp_all add: command_args_ok_def command_bytes_def command_pieces_def cmd_pieces_def wire_simps
        c_str_def)
  then have "silent q p (write_command nsq_nop p)"
    by (intro silent_write_command [where cmd = NOP]) simp_all
  then show ?thesis by (intro silent_block) (simp add: silent_rules)
qed

lemma handle_frame_returns:
  assumes own: "own w" and l: "live q p w" and c: "conns w p = Some c" and b: "socks w q = Some b"
    and pl: "mem_read (orig (read_buf b)) (current_data c) (unat (current_msg_size c)) = Inr pl"
    and msg: "current_frame_type c = NSQ_FRAME_TYPE_MESSAGE \<Longrightarrow> 26 \<le> length pl"
    and resp: "current_frame_type c = NSQ_FRAME_TYPE_RESPONSE \<Longrightarrow> \<not> strict_prefix pl heartbeat"
  shows "\<exists>w'. handle_frame cc q p w = Inr w'
    \<and> quiet q p (if current_frame_type c = NSQ_FRAME_TYPE_MESSAGE then [mk pl] else []) w w'"
proof -
  have len: "length pl = unat (current_msg_size c)" using pl by (rule mem_read_length)
  have types: "NSQ_FRAME_TYPE_RESPONSE \<noteq> NSQ_FRAME_TYPE_MESSAGE"
    by (simp add: NSQ_FRAME_TYPE_RESPONSE_def NSQ_FRAME_TYPE_MESSAGE_def)
  consider (response) "current_frame_type c = NSQ_FRAME_TYPE_RESPONSE"
    | (message) "current_frame_type c = NSQ_FRAME_TYPE_MESSAGE"
    | (other) "current_frame_type c \<noteq> NSQ_FRAME_TYPE_RESPONSE"
        "current_frame_type c \<noteq> NSQ_FRAME_TYPE_MESSAGE" by blast
  then show ?thesis
  proof cases
    case response
    have "strncmp_eq (orig (read_buf b)) (current_data c) heartbeat = Inr (prefix heartbeat pl)"
      using strncmp_eq_prefix [OF _ resp [OF response]] pl len by simp
    then show ?thesis
      using silent_nop_reply l b c response types quiet_refl [OF l]
      by (auto simp: handle_frame_def on_conn_def on_sock_def silent_def simp del: block.simps)
  next
    case message
    have "26 \<le> unat (current_msg_size c)" using msg [OF message] len by simp
    moreover have "unat (current_msg_size c) < 2 ^ 64"
      using unat_u32_less [of "current_msg_size c"] by simp
    ultimately have "nsq_decode_message (junk w) (orig (read_buf b)) (current_data c)
        (unat (current_msg_size c)) = Inr (message_of (junk w) pl)"
      by (rule decode_message_of [OF pl])
    then show ?thesis
      using msg_returns [OF own l msg [OF message]] c b message types
      by (auto simp: handle_frame_def on_conn_def on_sock_def)
  next
    case other
    then show ?thesis
      using b c quiet_refl [OF l] by (simp add: handle_frame_def on_conn_def on_sock_def)
  qed
qed

end

subsection \<open>The two phases\<close>

definition rbuf :: "ptr \<Rightarrow> nsq_world \<Rightarrow> byte list" where
  "rbuf q w = (case socks w q of None \<Rightarrow> [] | Some b \<Rightarrow> contents (read_buf b))"

text \<open>The connection waits for \<open>n\<close> bytes; the timer runs exactly when they are there.\<close>

definition reading :: "ptr \<Rightarrow> ptr \<Rightarrow> nsqd_fn \<Rightarrow> nat \<Rightarrow> nsq_world \<Rightarrow> bool" where
  "reading q p k n w \<longleftrightarrow> live q p w
     \<and> (\<exists>b. socks w q = Some b \<and> read_bytes_callback b = Some k \<and> read_bytes_n b = n
          \<and> read_bytes_arg b = p)
     \<and> (timer_active (Read_bytes_timer q) (calls w) \<longleftrightarrow> n \<le> length (rbuf q w))"

definition unconsumed :: "ptr \<Rightarrow> ptr \<Rightarrow> nsq_world \<Rightarrow> byte list \<Rightarrow> bool" where
  "unconsumed q p w u \<longleftrightarrow>
     reading q p Nsqd_read_size 4 w \<and> u = rbuf q w
     \<or> (\<exists>c. conns w p = Some c \<and> reading q p Nsqd_read_data (unat (current_msg_size c)) w
          \<and> u = be32_bytes (current_msg_size c) @ rbuf q w)"

lemma reading_live: "reading q p k n w \<Longrightarrow> live q p w"
  by (simp add: reading_def)

lemma unconsumed_live: "unconsumed q p w u \<Longrightarrow> live q p w"
  by (auto simp: unconsumed_def reading_def)

lemma request_bytes:
  assumes l: "live q p w" and idle: "\<not> timer_active (Read_bytes_timer q) (calls w)"
  shows "\<exists>w'. buffered_socket_read_bytes n k p q w = Inr w' \<and> reading q p k n w'
    \<and> rbuf q w' = rbuf q w \<and> conns w' = conns w \<and> others_kept p w w'
    \<and> delivered p (calls w') = delivered p (calls w)"
proof -
  obtain b where b: "socks w q = Some b" "wf_bounded (read_buf b)" using l by (auto simp: live_def)
  let ?b = "b\<lparr>read_bytes_callback := Some k, read_bytes_arg := p, read_bytes_n := n\<rparr>"
  let ?cs = "if n \<le> offset (read_buf b) then [Ev_timer_start (Read_bytes_timer q)] else []"
  have "buffered_socket_read_bytes n k p q w = Inr (w\<lparr>socks := (socks w)(q \<mapsto> ?b), calls := ?cs @ calls w\<rparr>)"
    using b by (simp add: buffered_socket_read_bytes_def sock_simps BUFFER_HAS_DATA_def)
  then show ?thesis
    using l idle b offset_contents [OF b(2)]
    by (auto simp: reading_def live_def rbuf_def others_kept_def)
qed

text \<open>The timer has fired: the request is withdrawn and its callback runs.\<close>

definition fired :: "ptr \<Rightarrow> nsq_world \<Rightarrow> nsqd_fn BufferedSocket \<Rightarrow> nsq_world" where
  "fired q w b = w\<lparr>calls := Timer_expired (Read_bytes_timer q) # calls w,
                  socks := (socks w)(q \<mapsto> withdraw_read b)\<rparr>"

lemma read_bytes_fires:
  assumes "reading q p k n w"
  obtains b where "socks w q = Some b"
    and "block [emit (Timer_expired (Read_bytes_timer q)), buffered_socket_read_bytes_cb call q] w
      = call k q p (fired q w b)"
    and "live q p (fired q w b)" and "rbuf q (fired q w b) = rbuf q w"
    and "\<not> timer_active (Read_bytes_timer q) (calls (fired q w b))"
    and "conns (fired q w b) = conns w" and "others_kept p w (fired q w b)"
    and "delivered p (calls (fired q w b)) = delivered p (calls w)"
proof -
  obtain b where b: "socks w q = Some b" "read_bytes_callback b = Some k" "read_bytes_arg b = p"
    using assms by (auto simp: reading_def)
  show ?thesis
  proof (rule that [OF b(1)])
    show "block [emit (Timer_expired (Read_bytes_timer q)), buffered_socket_read_bytes_cb call q] w
        = call k q p (fired q w b)"
      using b by (simp add: emit_def buffered_socket_read_bytes_cb_def sock_simps fired_def withdraw_read_def)
    show "live q p (fired q w b)"
      using assms b by (auto simp: reading_def live_def fired_def withdraw_read_def)
  qed (use b in \<open>simp_all add: fired_def rbuf_def withdraw_read_def others_kept_def\<close>)
qed

lemma contents_read:
  assumes "wf_bounded b" and "n \<le> length (contents b)"
  shows "mem_read (orig b) (data b) n = Inr (take n (contents b))"
  using mem_read_part [OF mem_read_contents, of b 0 n] assms offset_contents [OF assms(1)]
  by (simp add: wf_bounded_def)

lemma read_size_phase:
  assumes l: "live q p w" and idle: "\<not> timer_active (Read_bytes_timer q) (calls w)"
    and four: "4 \<le> length (rbuf q w)"
  shows "\<exists>w'. nsqd_connection_read_size q p w = Inr w' \<and> unconsumed q p w' (rbuf q w)
    \<and> others_kept p w w' \<and> delivered p (calls w') = delivered p (calls w)"
proof -
  obtain b c where b: "socks w q = Some b" "wf_bounded (read_buf b)" and c: "conns w p = Some c"
    using l by (auto simp: live_def)
  let ?s = "contents (read_buf b)"
  let ?v = "ntohl_at (take 4 ?s)"
  let ?b = "b\<lparr>read_buf := buffer_drain 4 (read_buf b)\<rparr>"
  let ?w = "w\<lparr>socks := (socks w)(q \<mapsto> ?b), conns := (conns w)(p \<mapsto> c\<lparr>current_msg_size := ?v\<rparr>)\<rparr>"
  have s: "rbuf q w = ?s" using b by (simp add: rbuf_def)
  then have "mem_read (orig (read_buf b)) (data (read_buf b)) 4 = Inr (take 4 ?s)"
    using contents_read [OF b(2)] four by simp
  then have run: "nsqd_connection_read_size q p w = buffered_socket_read_bytes (unat ?v) Nsqd_read_data p q ?w"
    using b c by (simp add: nsqd_connection_read_size_def Let_def sock_simps on_conn_def upd_conn_def)
  have lw: "live q p ?w" using l b c by (auto simp: live_def wf_bounded_drain)
  have okw: "others_kept p w ?w" using c by (simp add: others_kept_def)
  have rb: "rbuf q ?w = drop 4 ?s"
    using b(2) contents_buffer_drain [of "read_buf b" 4] by (simp add: rbuf_def wf_bounded_def)
  obtain w' where w': "buffered_socket_read_bytes (unat ?v) Nsqd_read_data p q ?w = Inr w'"
      "reading q p Nsqd_read_data (unat ?v) w'" "rbuf q w' = rbuf q ?w" "conns w' = conns ?w"
      "others_kept p ?w w'" "delivered p (calls w') = delivered p (calls ?w)"
    using request_bytes [OF lw] idle by auto
  have "rbuf q w = be32_bytes ?v @ rbuf q w'"
    using s rb w'(3) four by (simp add: be32_ntohl)
  then have "unconsumed q p w' (rbuf q w)"
    using w'(2,4) by (auto simp: unconsumed_def)
  then show ?thesis using run w' others_kept_trans [OF okw w'(5)] by auto
qed

context frame_client
begin

lemma read_data_phase:
  assumes own: "own w" and l: "live q p w" and idle: "\<not> timer_active (Read_bytes_timer q) (calls w)"
    and c: "conns w p = Some c" and n: "unat (current_msg_size c) \<le> length (rbuf q w)"
    and f: "f = take (unat (current_msg_size c)) (rbuf q w)" and ok: "frame_ok f"
  shows "\<exists>w'. nsqd_connection_read_data cc q p w = Inr w'
    \<and> unconsumed q p w' (drop (length f) (rbuf q w)) \<and> others_kept p w w'
    \<and> delivered p (calls w') = delivered p (calls w) @ frame_messages mk f"
proof -
  obtain b where b: "socks w q = Some b" "wf_bounded (read_buf b)" using l by (auto simp: live_def)
  let ?s = "contents (read_buf b)" and ?n = "unat (current_msg_size c)"
  have s: "rbuf q w = ?s" using b by (simp add: rbuf_def)
  have len: "length f = ?n" using f n by simp
  have four: "4 \<le> ?n" using ok len by (simp add: frame_ok_def)
  have t4: "take 4 ?s = take 4 f" using f s four by (simp add: min_def)
  let ?rb = "buffer_drain 4 (read_buf b)"
  let ?b = "b\<lparr>read_buf := ?rb\<rparr>"
  let ?c = "c\<lparr>current_frame_type := frame_type f, current_msg_size := current_msg_size c - 4,
              current_data := data ?rb\<rparr>"
  let ?w = "w\<lparr>socks := (socks w)(q \<mapsto> ?b), conns := (conns w)(p \<mapsto> ?c)\<rparr>"
  have rd: "mem_read (orig (read_buf b)) (data (read_buf b)) 4 = Inr (take 4 f)"
    using contents_read [OF b(2), of 4] n s four t4 by simp
  have rb: "wf_bounded ?rb" "contents ?rb = drop 4 ?s"
    using b(2) contents_buffer_drain [of "read_buf b" 4]
    by (simp_all add: wf_bounded_drain) (simp add: wf_bounded_def)
  have size: "unat (current_msg_size c - 4) = ?n - 4"
    using four by (subst unat_sub) (simp_all add: word_le_nat_alt)
  have start: "nsqd_connection_read_data cc q p w = block [handle_frame cc q p,
      on_conn p (\<lambda>c. upd_sock q (\<lambda>b.
        b\<lparr>read_buf := buffer_drain (unat (current_msg_size c)) (read_buf b)\<rparr>)),
      buffered_socket_read_bytes 4 Nsqd_read_size p q] ?w"
    using b c rd
    by (simp add: nsqd_connection_read_data_def sock_simps upd_conn_def on_conn_def frame_type_def)
  have lw: "live q p ?w" using l b c rb by (auto simp: live_def)
  have okw: "others_kept p w ?w" using c by (simp add: others_kept_def)
  have pl: "mem_read (orig ?rb) (data ?rb) (unat (current_msg_size ?c)) = Inr (payload f)"
    using contents_read [OF rb(1), of "?n - 4"] rb(2) n s f
    by (simp add: size payload_def drop_take)
  have "\<exists>w1. handle_frame cc q p ?w = Inr w1 \<and> quiet q p (frame_messages mk f) ?w w1"
    using handle_frame_returns [OF own_kept [OF own okw] lw, of ?c ?b "payload f"] pl ok
    by (simp add: frame_ok_def frame_messages_def)
  then obtain w1 where w1: "handle_frame cc q p ?w = Inr w1" "quiet q p (frame_messages mk f) ?w w1"
    by blast
  have l1: "live q p w1" using w1(2) by (simp add: quiet_def)
  obtain b1 c1 where b1: "socks w1 q = Some b1" "read_buf b1 = ?rb"
      and c1: "conns w1 p = Some c1" "current_msg_size c1 = current_msg_size c - 4"
    using w1(2) l1 by (auto simp: quiet_def read_side_def live_def)
  let ?b2 = "b1\<lparr>read_buf := buffer_drain (?n - 4) ?rb\<rparr>"
  let ?w2 = "w1\<lparr>socks := (socks w1)(q \<mapsto> ?b2)\<rparr>"
  have l2: "live q p ?w2" using l1 b1 rb(1) by (auto simp: live_def wf_bounded_drain)
  have "contents (buffer_drain (?n - 4) ?rb) = drop (length f) ?s"
    using rb contents_buffer_drain [of ?rb "?n - 4"] four len by (simp add: wf_bounded_def)
  then have r2: "rbuf q ?w2 = drop (length f) (rbuf q w)"
    using s by (simp add: rbuf_def)
  have idle2: "\<not> timer_active (Read_bytes_timer q) (calls ?w2)"
    using w1(2) idle by (simp add: quiet_def read_side_def)
  obtain w' where w': "buffered_socket_read_bytes 4 Nsqd_read_size p q ?w2 = Inr w'"
      "reading q p Nsqd_read_size 4 w'" "rbuf q w' = rbuf q ?w2" "others_kept p ?w2 w'"
      "delivered p (calls w') = delivered p (calls ?w2)"
    using request_bytes [OF l2 idle2] by blast
  have "nsqd_connection_read_data cc q p w = Inr w'"
    using start w1(1) b1 c1 w'(1) size by (simp add: on_conn_def upd_sock_def on_sock_def)
  moreover have "unconsumed q p w' (drop (length f) (rbuf q w))"
    using w'(2,3) r2 by (simp add: unconsumed_def)
  moreover have "others_kept p w w'"
  proof -
    have "others_kept p w1 ?w2" by (simp add: others_kept_def)
    then show ?thesis
      using okw w1(2) w'(4) by (auto simp: quiet_def intro: others_kept_trans)
  qed
  moreover have "delivered p (calls w') = delivered p (calls w) @ frame_messages mk f"
    using w'(5) w1(2) by (simp add: quiet_def)
  ultimately show ?thesis by blast
qed

text \<open>One firing of the timer: a size is read, or a whole frame is handled.\<close>

lemma timer_step:
  assumes own: "own w" and u: "unconsumed q p w u"
    and due: "timer_active (Read_bytes_timer q) (calls w)"
    and ok: "\<And>f r. next_frame u = Some (f, r) \<Longrightarrow> frame_ok f"
  shows "\<exists>w' fs u'. block [emit (Timer_expired (Read_bytes_timer q)),
      buffered_socket_read_bytes_cb (nsqd_call cc) q] w = Inr w'
    \<and> own w' \<and> unconsumed q p w' u' \<and> u = concat (map frame_bytes fs) @ u'
    \<and> (\<forall>f \<in> set fs. length f < 2 ^ 32)
    \<and> delivered p (calls w') = delivered p (calls w) @ concat (map (frame_messages mk) fs)"
proof -
  from u consider (size) "reading q p Nsqd_read_size 4 w" "u = rbuf q w"
    | (data) c where "conns w p = Some c" "reading q p Nsqd_read_data (unat (current_msg_size c)) w"
        "u = be32_bytes (current_msg_size c) @ rbuf q w"
    by (auto simp: unconsumed_def)
  then show ?thesis
  proof cases
  case size
  note r = size(1) and u = size(2)
  obtain b where b: "block [emit (Timer_expired (Read_bytes_timer q)),
        buffered_socket_read_bytes_cb (nsqd_call cc) q] w = nsqd_connection_read_size q p (fired q w b)"
      and f: "live q p (fired q w b)" "rbuf q (fired q w b) = rbuf q w"
        "\<not> timer_active (Read_bytes_timer q) (calls (fired q w b))" "others_kept p w (fired q w b)"
        "delivered p (calls (fired q w b)) = delivered p (calls w)"
    using read_bytes_fires [OF r, of "nsqd_call cc"] by (metis nsqd_call.simps(4))
  have "4 \<le> length (rbuf q w)" using r due by (simp add: reading_def)
  then obtain w' where w': "nsqd_connection_read_size q p (fired q w b) = Inr w'"
      "unconsumed q p w' (rbuf q w)" "others_kept p (fired q w b) w'"
      "delivered p (calls w') = delivered p (calls w)"
    using read_size_phase [OF f(1,3)] f(2,5) by auto
  have "own w'" using own_kept [OF own] others_kept_trans [OF f(4) w'(3)] by blast
  then show ?thesis
    using b w' u by (intro exI [of _ w'] exI [of _ "[]"] exI [of _ u]) (simp del: block.simps)
  next
  case (data c)
  note c = data(1) and r = data(2) and u = data(3)
  obtain b where b: "block [emit (Timer_expired (Read_bytes_timer q)),
        buffered_socket_read_bytes_cb (nsqd_call cc) q] w = nsqd_connection_read_data cc q p (fired q w b)"
      and f: "live q p (fired q w b)" "rbuf q (fired q w b) = rbuf q w"
        "\<not> timer_active (Read_bytes_timer q) (calls (fired q w b))" "others_kept p w (fired q w b)"
        "delivered p (calls (fired q w b)) = delivered p (calls w)" "conns (fired q w b) = conns w"
    using read_bytes_fires [OF r, of "nsqd_call cc"] by (metis nsqd_call.simps(5))
  let ?n = "unat (current_msg_size c)"
  let ?f = "take ?n (rbuf q w)"
  have n: "?n \<le> length (rbuf q w)" using r due by (simp add: reading_def)
  have fb: "frame_bytes ?f = be32_bytes (current_msg_size c) @ ?f"
    using n by (simp add: frame_bytes_def min_absorb2)
  have lt: "length ?f < 2 ^ 32" using n unat_u32_less [of "current_msg_size c"] by simp
  have split: "u = frame_bytes ?f @ drop ?n (rbuf q w)" using fb by (simp add: u)
  then have "frame_ok ?f" using ok [of ?f] next_frame_bytes [OF lt] by simp
  then obtain w' where w': "nsqd_connection_read_data cc q p (fired q w b) = Inr w'"
      "unconsumed q p w' (drop (length ?f) (rbuf q w))" "others_kept p (fired q w b) w'"
      "delivered p (calls w') = delivered p (calls w) @ frame_messages mk ?f"
    using read_data_phase [OF own_kept [OF own f(4)] f(1,3), of c ?f] c n f(2,5,6) by auto
  have "own w'" using own_kept [OF own] others_kept_trans [OF f(4) w'(3)] by blast
  moreover have "length ?f = ?n" using n by simp
  ultimately show ?thesis
    using b w' split lt
    by (intro exI [of _ w'] exI [of _ "[?f]"] exI [of _ "drop ?n (rbuf q w)"]) (simp del: block.simps)
  qed
qed

end

subsection \<open>Input and output\<close>

text \<open>The bytes that a call of the read handler takes from the kernel.\<close>

definition taken :: "read_env \<Rightarrow> ptr \<Rightarrow> nsq_world \<Rightarrow> byte list" where
  "taken env q w =
     (case socks w q of
        None \<Rightarrow> []
      | Some b \<Rightarrow>
          if accepts (read_size env) (read_buf b) then
            (case recv env (read_size env) of Recv_bytes bs \<Rightarrow> bs | Recv_error e \<Rightarrow> [])
          else [])"

lemma read_fd_taken:
  assumes "wf_bounded (read_buf b)" and "read_env_ok env" and "socks w q = Some b"
  shows "\<exists>rb res err. buffer_read_fd (junk w) env (errno w) (read_buf b) = Inr (rb, res, err)
    \<and> wf_bounded rb \<and> contents rb = contents (read_buf b) @ taken env q w
    \<and> (res \<le> 0 \<longrightarrow> taken env q w = [])"
proof -
  have wf: "wf_buffer (read_buf b)" "growable (read_size env) (read_buf b)"
    using assms(1) by (simp_all add: wf_bounded_def growable_def)
  show ?thesis
  proof (cases "accepts (read_size env) (read_buf b)")
    case True
    then show ?thesis
      using buffer_read_fd_accepted [OF wf(1) assms(2) True wf(2), of "junk w" "errno w"] assms(1,3)
      by (cases "recv env (read_size env)") (auto simp: wf_bounded_def taken_def)
  next
    case False
    then show ?thesis
      using buffer_read_fd_rejected [OF wf(1) assms(2) False, of "junk w" "errno w"] assms
      by (auto simp: taken_def)
  qed
qed

context frame_client
begin

lemma io_error_closes:
  assumes own: "own w" and l: "live q p w"
  shows "\<exists>w'. io_error (nsqd_call cc) q w = Inr w' \<and> dead q w'
    \<and> delivered p (calls w') = delivered p (calls w)"
proof -
  obtain b c where b: "socks w q = Some b" "state b = BS_CONNECTED" "read_ev b \<noteq> None" "write_ev b \<noteq> None"
      "close_callback b = Some Nsqd_close_cb" "error_callback b = Some Nsqd_error_cb" "cbarg b = p"
      and c: "conns w p = Some c" "conn_bs c = q"
    using l by (auto simp: live_def)
  let ?w = "closed_world q b w"
  have "shut q p ?w"
    using b c by (auto simp: shut_def dead_def closed_world_def close_calls_def)
  moreover have "own ?w"
    by (rule own_kept [OF own]) (simp add: others_kept_def closed_world_def)
  ultimately obtain w' where w': "nsqd_connection_close_cb cc q p ?w = Inr w'" "dead q w'"
      "delivered p (calls w') = delivered p (calls ?w)"
    using close_returns by blast
  have "delivered p (calls ?w) = delivered p (calls w)"
    by (simp add: closed_world_def close_calls_def)
  moreover have "io_error (nsqd_call cc) q w = nsqd_connection_close_cb cc q p ?w"
    using b by (simp add: io_error_def sock_simps nsqd_connection_error_cb_def close_eq [OF b(1)])
      (simp add: closed_world_def sock_simps)
  ultimately show ?thesis using w' by auto
qed

end

text \<open>More bytes: the timer is started as soon as the request can be served.\<close>

lemma reading_more:
  assumes r: "reading q p k n w" and b: "socks w q = Some b"
    and rb: "wf_bounded rb" "contents rb = contents (read_buf b) @ new"
    and cs: "cs = wakeup q (b\<lparr>read_buf := rb\<rparr>) \<or> cs = [] \<and> new = []"
  shows "reading q p k n (buf_world q (b\<lparr>read_buf := rb\<rparr>) err cs w)"
    and "rbuf q (buf_world q (b\<lparr>read_buf := rb\<rparr>) err cs w) = rbuf q w @ new"
proof -
  have off: "offset rb = length (contents rb)" using rb(1) by (rule offset_contents)
  have w: "live q p w" "read_bytes_callback b = Some k" "read_bytes_n b = n" "read_bytes_arg b = p"
    "timer_active (Read_bytes_timer q) (calls w) \<longleftrightarrow> n \<le> length (contents (read_buf b))"
    using r b by (simp_all add: reading_def rbuf_def)
  have "conns (buf_world q b' err cs w) = conns w" for b' by (simp add: buf_world_def)
  moreover have "cs = [] \<or> cs = [Ev_timer_start (Read_bytes_timer q)]"
    using cs by (auto simp: wakeup_def split: if_splits)
  ultimately have "live q p (buf_world q (b\<lparr>read_buf := rb\<rparr>) err cs w)"
    using w(1) b rb(1) by (auto simp: live_def)
  then show "reading q p k n (buf_world q (b\<lparr>read_buf := rb\<rparr>) err cs w)"
    using w cs rb(2) off by (auto simp: reading_def rbuf_def wakeup_def split: if_splits)
  show "rbuf q (buf_world q (b\<lparr>read_buf := rb\<rparr>) err cs w) = rbuf q w @ new"
    using b rb(2) by (simp add: rbuf_def)
qed

lemma unconsumed_more:
  assumes u: "unconsumed q p w u" and b: "socks w q = Some b"
    and rb: "wf_bounded rb" "contents rb = contents (read_buf b) @ new"
    and cs: "cs = wakeup q (b\<lparr>read_buf := rb\<rparr>) \<or> cs = [] \<and> new = []"
  shows "unconsumed q p (buf_world q (b\<lparr>read_buf := rb\<rparr>) err cs w) (u @ new)"
proof -
  have "conns (buf_world q (b\<lparr>read_buf := rb\<rparr>) err cs w) = conns w" by (simp add: buf_world_def)
  then show ?thesis
    using u reading_more [OF _ b rb cs, of p] by (auto simp: unconsumed_def)
qed

context frame_client
begin

lemma readable_step:
  assumes own: "own w" and u: "unconsumed q p w u" and env: "read_env_ok env"
  shows "\<exists>w'. buffered_socket_read_cb (nsqd_call cc) env q w = Inr w'
    \<and> delivered p (calls w') = delivered p (calls w)
    \<and> (own w' \<and> unconsumed q p w' (u @ taken env q w) \<or> dead q w' \<and> taken env q w = [])"
proof -
  have l: "live q p w" using u by (rule unconsumed_live)
  then obtain b where b: "socks w q = Some b" "wf_bounded (read_buf b)" "read_callback b = None"
    by (auto simp: live_def)
  obtain rb res err where rd: "buffer_read_fd (junk w) env (errno w) (read_buf b) = Inr (rb, res, err)"
      and rb: "wf_bounded rb" "contents rb = contents (read_buf b) @ taken env q w"
      and none: "res \<le> 0 \<longrightarrow> taken env q w = []"
    using read_fd_taken [OF b(2) env b(1)] by blast
  let ?w = "\<lambda>cs. buf_world q (b\<lparr>read_buf := rb\<rparr>) err cs w"
  let ?cs = "wakeup q (b\<lparr>read_buf := rb\<rparr>)"
  have own': "own (?w cs)" for cs
    by (rule own_kept [OF own]) (simp add: others_kept_def buf_world_def)
  have del: "delivered p (calls (?w ?cs)) = delivered p (calls w)" by (simp add: wakeup_def)
  have more: "unconsumed q p (?w ?cs) (u @ taken env q w)"
    by (rule unconsumed_more [OF u b(1) rb]) simp
  have quiet: "unconsumed q p (?w []) (u @ taken env q w)" if "res \<le> 0"
    using none that by (intro unconsumed_more [OF u b(1) rb]) simp
  note eq = read_cb_eq [OF b(1,3) rd]
  consider (again) "res = -1" "err = EAGAIN \<or> err = EINTR"
    | (failed) "res = -1 \<or> res = 0" "\<not> (res = -1 \<and> (err = EAGAIN \<or> err = EINTR))"
    | (data) "res \<noteq> -1" "res \<noteq> 0" by blast
  then show ?thesis
  proof cases
    case again
    then have "buffered_socket_read_cb (nsqd_call cc) env q w = Inr (?w [])"
      by (simp add: eq Let_def)
    then show ?thesis using own' quiet again by auto
  next
    case failed
    then have "live q p (?w [])" using quiet unconsumed_live by auto
    then obtain w' where "io_error (nsqd_call cc) q (?w []) = Inr w'" "dead q w'"
        "delivered p (calls w') = delivered p (calls (?w []))"
      using io_error_closes [OF own'] by blast
    then show ?thesis using failed none by (auto simp: eq Let_def)
  next
    case data
    then have "buffered_socket_read_cb (nsqd_call cc) env q w = Inr (?w ?cs)"
      by (simp add: eq Let_def)
    then show ?thesis using own' more del by auto
  qed
qed

text \<open>Output does not disturb the reading.\<close>

lemma writable_step:
  assumes own: "own w" and u: "unconsumed q p w u" and send: "send_ok out"
  shows "\<exists>w'. buffered_socket_write_cb (nsqd_call cc) out q w = Inr w'
    \<and> delivered p (calls w') = delivered p (calls w)
    \<and> (own w' \<and> unconsumed q p w' u \<or> dead q w')"
proof -
  have l: "live q p w" using u by (rule unconsumed_live)
  then obtain b where b: "socks w q = Some b" "wf_bounded (write_buf b)" "write_callback b = None"
      "write_ev b \<noteq> None" by (auto simp: live_def)
  obtain wb res err k where wr: "buffer_write_fd out (errno w) (write_buf b) = Inr (wb, res, err)"
      and wb: "wf_bounded wb"
    using buffer_write_fd_bounded [OF b(2) send] by blast
  let ?cs = "if offset wb = 0 then [Ev_io_stop (Write_io q)] else []"
  let ?w = "buf_world q (b\<lparr>write_buf := wb\<rparr>) err ?cs w"
  have own': "own ?w" by (rule own_kept [OF own]) (simp add: others_kept_def buf_world_def)
  have l': "live q p ?w" using l b(1) wb by (auto simp: live_def buf_world_def)
  have reading: "reading q p k n ?w \<longleftrightarrow> reading q p k n w" for k n
    using l l' b(1) by (auto simp: reading_def rbuf_def)
  have "rbuf q ?w = rbuf q w" "conns ?w = conns w" using b(1) by (simp_all add: rbuf_def buf_world_def)
  then have u': "unconsumed q p ?w u" using u by (simp only: unconsumed_def reading)
  have del: "delivered p (calls ?w) = delivered p (calls w)" by simp
  note eq = write_cb_eq [OF b(1,3,4) wr]
  show ?thesis
  proof (cases "res = -1 \<and> (err = EAGAIN \<or> err = EINTR \<or> err = EINPROGRESS) \<or> res \<noteq> -1 \<and> res \<noteq> 0")
    case True
    then have "buffered_socket_write_cb (nsqd_call cc) out q w = Inr ?w"
      by (auto simp: eq Let_def)
    then show ?thesis using own' u' del by auto
  next
    case False
    then have run: "buffered_socket_write_cb (nsqd_call cc) out q w = io_error (nsqd_call cc) q ?w"
      by (auto simp: eq Let_def)
    show ?thesis using io_error_closes [OF own' l'] del unfolding run by auto
  qed
qed

end

end
