(* ===== verification/Utlist.thy ===== *)
theory Utlist
  imports Prelude
begin

section \<open>Singly linked lists (utlist.h)\<close>

text \<open>
  The three macros of \<^verbatim>\<open>src/utlist.h\<close> that the library expands: \<^verbatim>\<open>LL_APPEND\<close>,
  \<^verbatim>\<open>LL_DELETE\<close> and \<^verbatim>\<open>LL_FOREACH\<close>. A heap maps addresses to cells, \<open>None\<close> where
  nothing is allocated; the macros get the field \<^verbatim>\<open>next\<close> as two functions, one to read and
  one to write it. Their loops need not end on a cyclic list, so they are
  \<open>partial_function (option)\<close>; a loop that does not end is the fault \<open>Diverges\<close>. The locale
  \<open>next_field\<close> holds what they do on a heap that represents a list.
\<close>

type_synonym 'c heap = "ptr \<Rightarrow> 'c option"

definition deref :: "'c heap \<Rightarrow> ptr \<Rightarrow> fault + 'c" where
  "deref h p =
     (if p = 0 then Inl Null_deref
      else (case h p of None \<Rightarrow> Inl Use_after_free | Some c \<Rightarrow> Inr c))"

definition store :: "ptr \<Rightarrow> ('c \<Rightarrow> 'c) \<Rightarrow> 'c heap \<Rightarrow> fault + 'c heap" where
  "store p f h = bind_res (deref h p) (\<lambda>c. Inr (h(p \<mapsto> f c)))"

definition ends :: "(fault + 'a) option \<Rightarrow> fault + 'a" where
  "ends r = (case r of None \<Rightarrow> Inl Diverges | Some x \<Rightarrow> x)"

text \<open>\<^verbatim>\<open>while (_tmp->next) { _tmp = _tmp->next; }\<close>\<close>

partial_function (option) ll_last :: "('c \<Rightarrow> ptr) \<Rightarrow> 'c heap \<Rightarrow> ptr \<Rightarrow> (fault + ptr) option" where
  "ll_last nxt h tmp =
     (case deref h tmp of
        Inl e \<Rightarrow> Some (Inl e)
      | Inr c \<Rightarrow> if nxt c \<noteq> 0 then ll_last nxt h (nxt c) else Some (Inr tmp))"

definition LL_APPEND ::
  "('c \<Rightarrow> ptr) \<Rightarrow> (ptr \<Rightarrow> 'c \<Rightarrow> 'c) \<Rightarrow> ptr \<Rightarrow> ptr \<Rightarrow> 'c heap \<Rightarrow> fault + ptr \<times> 'c heap" where
  "LL_APPEND nxt set_nxt head add h =
     bind_res (store add (set_nxt 0) h) (\<lambda>h1.
       if head \<noteq> 0 then
         bind_res (ends (ll_last nxt h1 head)) (\<lambda>tmp.
         bind_res (store tmp (set_nxt add) h1) (\<lambda>h2. Inr (head, h2)))
       else Inr (add, h1))"

text \<open>\<^verbatim>\<open>while (_tmp->next && (_tmp->next != (del))) { _tmp = _tmp->next; }\<close>\<close>

partial_function (option) ll_before ::
  "('c \<Rightarrow> ptr) \<Rightarrow> 'c heap \<Rightarrow> ptr \<Rightarrow> ptr \<Rightarrow> (fault + ptr) option" where
  "ll_before nxt h del tmp =
     (case deref h tmp of
        Inl e \<Rightarrow> Some (Inl e)
      | Inr c \<Rightarrow> if nxt c \<noteq> 0 \<and> nxt c \<noteq> del then ll_before nxt h del (nxt c) else Some (Inr tmp))"

definition LL_DELETE ::
  "('c \<Rightarrow> ptr) \<Rightarrow> (ptr \<Rightarrow> 'c \<Rightarrow> 'c) \<Rightarrow> ptr \<Rightarrow> ptr \<Rightarrow> 'c heap \<Rightarrow> fault + ptr \<times> 'c heap" where
  "LL_DELETE nxt set_nxt head del h =
     (if head = del then bind_res (deref h head) (\<lambda>c. Inr (nxt c, h))
      else
        bind_res (ends (ll_before nxt h del head)) (\<lambda>tmp.
        bind_res (deref h tmp) (\<lambda>c.
          if nxt c \<noteq> 0 then
            bind_res (deref h del) (\<lambda>d.
            bind_res (store tmp (set_nxt (nxt d)) h) (\<lambda>h1. Inr (head, h1)))
          else Inr (head, h))))"

text \<open>
  \<^verbatim>\<open>for (el = head; el; el = el->next)\<close> with a body that may change the state, and may
  leave the loop (it returns \<open>True\<close> for \<^verbatim>\<open>break\<close>). The field is read in the state the body
  left.
\<close>

partial_function (option) LL_FOREACH ::
  "('c \<Rightarrow> ptr) \<Rightarrow> ('w \<Rightarrow> 'c heap) \<Rightarrow> (ptr \<Rightarrow> 'w \<Rightarrow> fault + bool \<times> 'w) \<Rightarrow> ptr \<Rightarrow> 'w \<Rightarrow>
    (fault + 'w) option" where
  "LL_FOREACH nxt heap stmt el w =
     (if el = 0 then Some (Inr w)
      else (case stmt el w of
              Inl e \<Rightarrow> Some (Inl e)
            | Inr (brk, w') \<Rightarrow>
                if brk then Some (Inr w')
                else (case deref (heap w') el of
                        Inl e \<Rightarrow> Some (Inl e)
                      | Inr c \<Rightarrow> LL_FOREACH nxt heap stmt (nxt c) w')))"

subsection \<open>Heaps that represent a list\<close>

lemma deref_Some [simp]: "h p = Some c \<Longrightarrow> p \<noteq> 0 \<Longrightarrow> deref h p = Inr c"
  by (simp add: deref_def)

lemma deref_null [simp]: "deref h 0 = Inl Null_deref"
  by (simp add: deref_def)

lemma deref_freed: "h p = None \<Longrightarrow> p \<noteq> 0 \<Longrightarrow> deref h p = Inl Use_after_free"
  by (simp add: deref_def)

text \<open>The cells \<open>xs\<close>, in this order, lead from \<open>p\<close> to the null pointer.\<close>

fun ll_list :: "('c \<Rightarrow> ptr) \<Rightarrow> 'c heap \<Rightarrow> ptr \<Rightarrow> ptr list \<Rightarrow> bool" where
  "ll_list nxt h p [] \<longleftrightarrow> p = 0"
| "ll_list nxt h p (x # xs) \<longleftrightarrow>
     p = x \<and> x \<noteq> 0 \<and> (\<exists>c. h x = Some c \<and> ll_list nxt h (nxt c) xs)"

definition ll_rep :: "('c \<Rightarrow> ptr) \<Rightarrow> 'c heap \<Rightarrow> ptr \<Rightarrow> ptr list \<Rightarrow> bool" where
  "ll_rep nxt h p xs \<longleftrightarrow> ll_list nxt h p xs \<and> distinct xs"

lemma ll_list_null: "ll_list nxt h 0 xs \<longleftrightarrow> xs = []"
  by (cases xs) auto

lemma ll_list_unique: "ll_list nxt h p xs \<Longrightarrow> ll_list nxt h p ys \<Longrightarrow> xs = ys"
proof (induction xs arbitrary: p ys)
  case Nil
  then show ?case by (simp add: ll_list_null)
next
  case (Cons x xs)
  then show ?case by (cases ys) auto
qed

lemma ll_list_cong:
  "(\<And>x. x \<in> set xs \<Longrightarrow> map_option nxt (h' x) = map_option nxt (h x)) \<Longrightarrow>
    ll_list nxt h' p xs = ll_list nxt h p xs"
proof (induction xs arbitrary: p)
  case (Cons x xs)
  have "map_option nxt (h' x) = map_option nxt (h x)" using Cons.prems by simp
  moreover have "ll_list nxt h' q xs = ll_list nxt h q xs" for q
    using Cons.prems by (intro Cons.IH) simp
  ultimately show ?case
    by (cases "h x"; cases "h' x") auto
qed simp

lemma ll_list_upd: "x \<notin> set xs \<Longrightarrow> ll_list nxt (h(x := c)) p xs = ll_list nxt h p xs"
  by (rule ll_list_cong) auto

lemma ll_list_mem: "ll_list nxt h p xs \<Longrightarrow> x \<in> set xs \<Longrightarrow> x \<noteq> 0 \<and> h x \<noteq> None"
  by (induction xs arbitrary: p) auto

lemma ll_rep_mem: "ll_rep nxt h p xs \<Longrightarrow> x \<in> set xs \<Longrightarrow> x \<noteq> 0 \<and> h x \<noteq> None"
  unfolding ll_rep_def by (blast dest: ll_list_mem)

lemma ll_last_on_list:
  "ll_list nxt h p xs \<Longrightarrow> xs \<noteq> [] \<Longrightarrow> ll_last nxt h p = Some (Inr (last xs))"
proof (induction xs arbitrary: p)
  case (Cons x xs)
  then show ?case
    by (subst ll_last.simps) (cases xs; auto)
qed simp

lemma ll_before_on_list:
  "ll_list nxt h p (xs @ y # ys) \<Longrightarrow> y \<notin> set xs \<Longrightarrow> xs \<noteq> [] \<Longrightarrow>
    ll_before nxt h y p = Some (Inr (last xs))"
proof (induction xs arbitrary: p)
  case (Cons x xs)
  then show ?case
    by (subst ll_before.simps) (cases xs; auto)
qed simp

lemma ll_before_missing:
  "ll_list nxt h p xs \<Longrightarrow> y \<notin> set xs \<Longrightarrow> xs \<noteq> [] \<Longrightarrow>
    ll_before nxt h y p = Some (Inr (last xs))"
proof (induction xs arbitrary: p)
  case (Cons x xs)
  then show ?case
    by (subst ll_before.simps) (cases xs; auto)
qed simp

text \<open>A loop whose body never breaks and keeps the cells visits them in order.\<close>

fun visit :: "(ptr \<Rightarrow> 'w \<Rightarrow> fault + 'w) \<Rightarrow> ptr list \<Rightarrow> 'w \<Rightarrow> fault + 'w" where
  "visit f [] w = Inr w"
| "visit f (x # xs) w = bind_res (f x w) (visit f xs)"

lemma LL_FOREACH_visits:
  assumes keep: "\<And>x w w'. x \<in> set xs \<Longrightarrow> f x w = Inr w' \<Longrightarrow>
      map_option nxt \<circ> heap w' = map_option nxt \<circ> heap w"
    and "ll_list nxt (heap w) p xs"
  shows "LL_FOREACH nxt heap (\<lambda>x w. bind_res (f x w) (\<lambda>w'. Inr (False, w'))) p w
    = Some (visit f xs w)"
  using assms
proof (induction xs arbitrary: p w)
  case Nil
  then show ?case by (simp add: LL_FOREACH.simps)
next
  case (Cons x xs)
  then obtain c where p: "p = x" "x \<noteq> 0" and c: "heap w x = Some c"
    and rest: "ll_list nxt (heap w) (nxt c) xs" by auto
  show ?case
  proof (cases "f x w")
    case (Inl e)
    then show ?thesis using p by (simp add: LL_FOREACH.simps)
  next
    case (Inr w')
    have same: "map_option nxt (heap w' y) = map_option nxt (heap w y)" for y
      using Cons.prems(1) [of x w w'] Inr by (auto simp: fun_eq_iff)
    obtain c' where c': "heap w' x = Some c'" "nxt c' = nxt c"
      using same [of x] c by auto
    have "ll_list nxt (heap w') (nxt c') xs"
      using rest c'(2) ll_list_cong [of xs nxt "heap w'" "heap w"] same by simp
    then have "LL_FOREACH nxt heap (\<lambda>x w. bind_res (f x w) (\<lambda>w'. Inr (False, w'))) (nxt c') w'
        = Some (visit f xs w')"
      using Cons.prems(1) by (intro Cons.IH) auto
    then show ?thesis
      using p Inr c'(1) by (subst LL_FOREACH.simps) simp
  qed
qed

text \<open>Any loop that returns keeps what its body keeps.\<close>

lemma LL_FOREACH_invariant:
  assumes "LL_FOREACH nxt heap stmt el w = Some r"
  shows "(\<forall>el w b w'. I w \<longrightarrow> stmt el w = Inr (b, w') \<longrightarrow> I w') \<longrightarrow> I w \<longrightarrow> (\<forall>w'. r = Inr w' \<longrightarrow> I w')"
proof (rule LL_FOREACH.raw_induct [where P = "\<lambda>nxt heap stmt el w r.
    (\<forall>el w b w'. I w \<longrightarrow> stmt el w = Inr (b, w') \<longrightarrow> I w') \<longrightarrow> I w \<longrightarrow> (\<forall>w'. r = Inr w' \<longrightarrow> I w')",
    OF _ assms])
  fix LL nxt heap stmt el w r
  assume IH: "\<And>nxt heap stmt el w r. LL nxt heap stmt el w = Some r \<Longrightarrow>
      (\<forall>el w b w'. I w \<longrightarrow> stmt el w = Inr (b, w') \<longrightarrow> I w') \<longrightarrow> I w \<longrightarrow> (\<forall>w'. r = Inr w' \<longrightarrow> I w')"
    and run: "(if el = 0 then Some (Inr w)
      else (case stmt el w of Inl e \<Rightarrow> Some (Inl e)
            | Inr (brk, w') \<Rightarrow>
                if brk then Some (Inr w')
                else (case deref (heap w') el of Inl e \<Rightarrow> Some (Inl e)
                      | Inr c \<Rightarrow> LL nxt heap stmt (nxt c) w'))) = Some r"
  show "(\<forall>el w b w'. I w \<longrightarrow> stmt el w = Inr (b, w') \<longrightarrow> I w') \<longrightarrow> I w \<longrightarrow> (\<forall>w'. r = Inr w' \<longrightarrow> I w')"
  proof (intro impI allI)
    fix v assume step: "\<forall>el w b w'. I w \<longrightarrow> stmt el w = Inr (b, w') \<longrightarrow> I w'"
      and I: "I w" and r: "r = Inr v"
    show "I v"
    proof (cases "el = 0")
      case True
      then show ?thesis using run I r by simp
    next
      case False
      then obtain b w1 where w1: "stmt el w = Inr (b, w1)"
        using run r by (cases "stmt el w") auto
      then have I1: "I w1" using step I by blast
      show ?thesis
      proof (cases b)
        case True
        then show ?thesis using run False w1 r I1 by simp
      next
        case False
        then obtain c where "LL nxt heap stmt (nxt c) w1 = Some r"
          using run \<open>el \<noteq> 0\<close> w1 r by (cases "deref (heap w1) el") auto
        from IH [OF this] step I1 r show ?thesis by blast
      qed
    qed
  qed
qed

text \<open>A loop that searches and changes nothing stops at the first cell that satisfies \<open>P\<close>.\<close>

lemma LL_FOREACH_search:
  assumes "ll_list nxt h p xs" and "\<And>x. x \<in> set xs \<Longrightarrow> Q x = Inr (P x)"
  shows "LL_FOREACH nxt (\<lambda>_. h) (\<lambda>x w. bind_res (Q x) (\<lambda>b. Inr (b, if b then w' else w))) p w
    = Some (Inr (if \<exists>x \<in> set xs. P x then w' else w))"
  using assms
proof (induction xs arbitrary: p)
  case Nil
  then show ?case by (simp add: LL_FOREACH.simps)
next
  case (Cons x xs)
  then show ?case
    by (subst LL_FOREACH.simps) auto
qed

subsection \<open>What the macros do on such a heap\<close>

locale next_field =
  fixes nxt :: "'c \<Rightarrow> ptr" and set_nxt :: "ptr \<Rightarrow> 'c \<Rightarrow> 'c"
  assumes get_set: "nxt (set_nxt x c) = x"
begin

lemma append_appends:
  assumes rep: "ll_rep nxt h p xs" and new: "h a = Some c" "a \<noteq> 0" "a \<notin> set xs"
  shows "\<exists>p' h'. LL_APPEND nxt set_nxt p a h = Inr (p', h') \<and> ll_rep nxt h' p' (xs @ [a])
    \<and> (\<forall>x. x \<noteq> a \<and> x \<notin> set xs \<longrightarrow> h' x = h x)
    \<and> (\<forall>x d. h x = Some d \<longrightarrow> (\<exists>n. h' x = Some (set_nxt n d)) \<or> h' x = h x) \<and> dom h' = dom h"
proof (cases "xs = []")
  case True
  then show ?thesis
    using assms by (auto simp: LL_APPEND_def store_def ll_rep_def get_set)
next
  case False
  let ?h1 = "h(a \<mapsto> set_nxt 0 c)"
  let ?l = "last xs"
  obtain d where d: "h ?l = Some d" "?l \<noteq> 0"
    using ll_rep_mem [OF rep, of ?l] False by fastforce
  have la: "?l \<noteq> a" using new(3) last_in_set [OF False] by metis
  have l1: "ll_list nxt ?h1 p xs" using rep new(3) by (simp add: ll_rep_def ll_list_upd)
  have "p \<noteq> 0" using rep False by (cases xs) (auto simp: ll_rep_def)
  then have run: "LL_APPEND nxt set_nxt p a h = Inr (p, ?h1(?l \<mapsto> set_nxt a d))"
    using new d la ll_last_on_list [OF l1 False]
    by (simp add: LL_APPEND_def store_def ends_def)
  have step: "ll_list nxt ?h1 r ys \<Longrightarrow> ys \<noteq> [] \<Longrightarrow> distinct ys \<Longrightarrow> last ys = ?l \<Longrightarrow> a \<notin> set ys \<Longrightarrow>
      ll_list nxt (?h1(?l \<mapsto> set_nxt a d)) r (ys @ [a])" for r ys
  proof (induction ys arbitrary: r)
    case (Cons y ys)
    show ?case
    proof (cases "ys = []")
      case True
      then show ?thesis using Cons.prems d la new by (auto simp: get_set)
    next
      case False
      then have "y \<noteq> ?l" using Cons.prems last_in_set [OF False] by auto
      then show ?thesis using Cons False by auto
    qed
  qed simp
  have "ll_rep nxt (?h1(?l \<mapsto> set_nxt a d)) p (xs @ [a])"
    using step [OF l1 False] rep new(3) by (simp add: ll_rep_def)
  then show ?thesis
    using run False new d la by (auto simp: dom_def)
qed

lemma delete_removes:
  assumes rep: "ll_rep nxt h p xs" and x: "x \<in> set xs"
  shows "\<exists>p' h'. LL_DELETE nxt set_nxt p x h = Inr (p', h') \<and> ll_rep nxt h' p' (remove1 x xs)
    \<and> h' x = h x \<and> (\<forall>y. y \<notin> set xs \<longrightarrow> h' y = h y)
    \<and> (\<forall>y d. h y = Some d \<longrightarrow> (\<exists>n. h' y = Some (set_nxt n d)) \<or> h' y = h y) \<and> dom h' = dom h"
proof -
  obtain ys zs where xs: "xs = ys @ x # zs" and y: "x \<notin> set ys"
    using split_list_first [OF x] by blast
  have dist: "distinct (ys @ x # zs)" and l: "ll_list nxt h p (ys @ x # zs)"
    using rep xs by (simp_all add: ll_rep_def)
  have rem: "remove1 x xs = ys @ zs" using xs y by (simp add: remove1_append)
  obtain d where d: "h x = Some d" "x \<noteq> 0" using ll_rep_mem [OF rep x] by auto
  show ?thesis
  proof (cases "ys = []")
    case True
    then show ?thesis using l d dist rem by (auto simp: LL_DELETE_def ll_rep_def)
  next
    case False
    let ?l = "last ys"
    obtain c where c: "h ?l = Some c" "?l \<noteq> 0"
      using ll_rep_mem [OF rep, of ?l] False xs by fastforce
    have p: "p \<noteq> x" using l False y by (cases ys) auto
    have nc: "nxt c = x"
      using l False c
    proof (induction ys arbitrary: p)
      case (Cons v vs)
      then show ?case by (cases "vs = []") auto
    qed simp
    have run: "LL_DELETE nxt set_nxt p x h = Inr (p, h(?l \<mapsto> set_nxt (nxt d) c))"
      using p c d nc ll_before_on_list [OF l y False]
      by (simp add: LL_DELETE_def store_def ends_def)
    have "ll_list nxt (h(?l \<mapsto> set_nxt (nxt d) c)) r (vs @ zs)"
      if "ll_list nxt h r (vs @ x # zs)" "vs \<noteq> []" "last vs = ?l" "distinct (vs @ x # zs)" for r vs
      using that
    proof (induction vs arbitrary: r)
      case (Cons v vs)
      show ?case
      proof (cases "vs = []")
        case True
        then have "?l \<notin> set zs" using Cons.prems by auto
        then have "ll_list nxt (h(?l \<mapsto> set_nxt (nxt d) c)) (nxt d) zs"
          using Cons.prems True d(1) ll_list_upd [of ?l zs nxt h] by auto
        then show ?thesis using Cons.prems True c by (simp add: get_set fun_upd_same del: fun_upd_apply)
      next
        case False
        then have "v \<noteq> ?l" using Cons.prems last_in_set [OF False] by auto
        then show ?thesis using Cons False by auto
      qed
    qed simp
    then have "ll_rep nxt (h(?l \<mapsto> set_nxt (nxt d) c)) p (ys @ zs)"
      using l False dist by (simp add: ll_rep_def)
    moreover have "?l \<noteq> x" using y last_in_set [OF False] by metis
    moreover have "?l \<in> set xs" using xs False by simp
    ultimately show ?thesis using run rem c by (auto simp: dom_def)
  qed
qed

text \<open>An element that is not in a list that has others is not found, and nothing changes.\<close>

lemma delete_missing:
  assumes rep: "ll_rep nxt h p xs" and "x \<notin> set xs" and ne: "xs \<noteq> []"
  shows "LL_DELETE nxt set_nxt p x h = Inr (p, h)"
proof -
  have l: "ll_list nxt h p xs" using rep by (simp add: ll_rep_def)
  obtain c where c: "h (last xs) = Some c" "last xs \<noteq> 0"
    using ll_rep_mem [OF rep, of "last xs"] ne by fastforce
  have "nxt c = 0"
    using l ne c
  proof (induction xs arbitrary: p)
    case (Cons v vs)
    then show ?case by (cases "vs = []") auto
  qed simp
  moreover have "p \<noteq> x" using l ne assms(2) by (cases xs) auto
  ultimately show ?thesis
    using ll_before_missing [OF l assms(2) ne] c by (simp add: LL_DELETE_def ends_def)
qed

text \<open>In an empty list the macro reads through the null pointer.\<close>

lemma delete_from_empty: "x \<noteq> 0 \<Longrightarrow> LL_DELETE nxt set_nxt 0 x h = Inl Null_deref"
  by (simp add: LL_DELETE_def ends_def ll_before.simps)

end

subsection \<open>Sequences of operations\<close>

text \<open>The macros in sequence on a head pointer and a heap, and the same on lists.\<close>

datatype list_op = Append ptr | Delete ptr

fun macro_run :: "('c \<Rightarrow> ptr) \<Rightarrow> (ptr \<Rightarrow> 'c \<Rightarrow> 'c) \<Rightarrow> list_op list \<Rightarrow> ptr \<times> 'c heap \<Rightarrow>
    fault + ptr \<times> 'c heap" where
  "macro_run nxt set_nxt [] (p, h) = Inr (p, h)"
| "macro_run nxt set_nxt (Append a # ops) (p, h) =
     bind_res (LL_APPEND nxt set_nxt p a h) (macro_run nxt set_nxt ops)"
| "macro_run nxt set_nxt (Delete a # ops) (p, h) =
     bind_res (LL_DELETE nxt set_nxt p a h) (macro_run nxt set_nxt ops)"

fun list_run :: "list_op list \<Rightarrow> ptr list \<Rightarrow> ptr list" where
  "list_run [] xs = xs"
| "list_run (Append a # ops) xs = list_run ops (xs @ [a])"
| "list_run (Delete a # ops) xs = list_run ops (remove1 a xs)"

text \<open>Only allocated elements are appended, each once, and only listed ones are deleted.\<close>

fun list_ops_ok :: "ptr set \<Rightarrow> list_op list \<Rightarrow> ptr list \<Rightarrow> bool" where
  "list_ops_ok cells [] xs \<longleftrightarrow> True"
| "list_ops_ok cells (Append a # ops) xs \<longleftrightarrow>
     a \<in> cells \<and> a \<noteq> 0 \<and> a \<notin> set xs \<and> list_ops_ok cells ops (xs @ [a])"
| "list_ops_ok cells (Delete a # ops) xs \<longleftrightarrow> a \<in> set xs \<and> list_ops_ok cells ops (remove1 a xs)"

context next_field
begin

lemma macro_run_lists:
  assumes "ll_rep nxt h p xs" and "list_ops_ok (dom h) ops xs"
  shows "\<exists>p' h'. macro_run nxt set_nxt ops (p, h) = Inr (p', h') \<and> ll_rep nxt h' p' (list_run ops xs)
    \<and> dom h' = dom h"
  using assms
proof (induction ops arbitrary: p h xs)
  case (Cons op ops)
  show ?case
  proof (cases op)
    case (Append a)
    then have a: "h a \<noteq> None" "a \<noteq> 0" "a \<notin> set xs" "list_ops_ok (dom h) ops (xs @ [a])"
      using Cons.prems(2) by auto
    then obtain p1 h1 where 1: "LL_APPEND nxt set_nxt p a h = Inr (p1, h1)" "ll_rep nxt h1 p1 (xs @ [a])"
        "dom h1 = dom h"
      using append_appends [OF Cons.prems(1) _ a(2,3)] by blast
    then show ?thesis using Cons.IH [OF 1(2)] a(4) Append by simp
  next
    case (Delete a)
    then have a: "a \<in> set xs" "list_ops_ok (dom h) ops (remove1 a xs)" using Cons.prems(2) by auto
    then obtain p1 h1 where 1: "LL_DELETE nxt set_nxt p a h = Inr (p1, h1)" "ll_rep nxt h1 p1 (remove1 a xs)"
        "dom h1 = dom h"
      using delete_removes [OF Cons.prems(1)] by blast
    then show ?thesis using Cons.IH [OF 1(2)] a(2) Delete by simp
  qed
qed simp

end

end
