(* ===== verification/Http.thy ===== *)
theory Http
  imports Nsq_Types
begin

section \<open>The HTTP client (http.c)\<close>

text \<open>
  The glue of \<^verbatim>\<open>src/http.c\<close> between libcurl's multi interface and libev. libcurl is outside
  the sources: each call of \<^verbatim>\<open>curl_multi_socket_action\<close> or \<^verbatim>\<open>curl_multi_add_handle\<close> gets,
  as an argument, the calls it makes back into this file while it runs and the messages that \<^verbatim>\<open>curl_multi_info_read\<close>
  then yields. \<open>hcall req resp\<close> is what calling the request's callback does.
\<close>

datatype curl_msg = Curl_done ptr int | Curl_other_msg

datatype curl_call =
    Curl_write ptr "byte list" nat nat
  | Curl_socket int int ptr
  | Curl_timer int curl_run
and curl_run = Curl_run "curl_call list" "curl_msg list"

definition on_req :: "ptr \<Rightarrow> (HttpRequest \<Rightarrow> nsq_world \<Rightarrow> fault + 'r) \<Rightarrow> nsq_world \<Rightarrow> fault + 'r" where
  "on_req r f w =
     (if r = 0 then Inl Null_deref
      else (case reqs w r of None \<Rightarrow> Inl Use_after_free | Some x \<Rightarrow> f x w))"

definition upd_req :: "ptr \<Rightarrow> (HttpRequest \<Rightarrow> HttpRequest) \<Rightarrow> nsq_proc" where
  "upd_req r f = on_req r (\<lambda>x w. Inr (w\<lparr>reqs := (reqs w)(r \<mapsto> f x)\<rparr>))"

subsection \<open>Requests and responses\<close>

text \<open>When \<^verbatim>\<open>curl_easy_init\<close> fails, the request is lost and null is returned.\<close>

definition new_http_request :: "bool \<Rightarrow> byte list \<Rightarrow> nsq_world \<Rightarrow> fault + ptr \<times> nsq_world" where
  "new_http_request easy_ok url w =
     (let r = brk w; w1 = w\<lparr>brk := r + 1\<rparr> in
      if \<not> easy_ok then Inr (0, w1)
      else Inr (r, w1\<lparr>reqs := (reqs w)(r \<mapsto>
             \<lparr>req_url = c_str url, req_has_httpc = False,
              req_data = new_buffer (junk w) 4096 0\<rparr>)\<rparr>))"

definition free_http_request :: "ptr \<Rightarrow> nsq_proc" where
  "free_http_request r =
     (if r = 0 then Inr
      else on_req r (\<lambda>x.
        if \<not> req_has_httpc x then (\<lambda>_. Inl Null_deref)
        else block
          [emit (Curl_remove_handle r), emit (Curl_easy_cleanup r),
           (\<lambda>w. Inr (w\<lparr>reqs := (reqs w)(r := None)\<rparr>))]))"

definition new_http_response :: "int \<Rightarrow> ptr \<Rightarrow> nsq_world \<Rightarrow> fault + ptr \<times> nsq_world" where
  "new_http_response code r w =
     (let p = brk w in
      Inr (p, w\<lparr>brk := p + 1, resps := (resps w)(p \<mapsto> \<lparr>status_code = code, resp_data = r\<rparr>)\<rparr>))"

definition free_http_response :: "ptr \<Rightarrow> nsq_proc" where
  "free_http_response p w =
     (if p = 0 then Inr w
      else (case resps w p of
              None \<Rightarrow> Inl Double_free
            | Some x \<Rightarrow> Inr (w\<lparr>resps := (resps w)(p := None)\<rparr>)))"

subsection \<open>Callbacks of libcurl and of the event loop\<close>

definition write_cb :: "ptr \<Rightarrow> byte list \<Rightarrow> nat \<Rightarrow> nat \<Rightarrow> nsq_proc" where
  "write_cb r src sz nmemb = on_req r (\<lambda>x w.
     let realsize = sz * nmemb mod 2 ^ 64 in
     bind_res (buffer_add_void (junk w) src realsize (req_data x)) (\<lambda>d.
       upd_req r (req_data_update (\<lambda>_. d)) w))"

fun check_multi_info :: "(ptr \<Rightarrow> ptr \<Rightarrow> nsq_proc) \<Rightarrow> curl_msg list \<Rightarrow> nsq_proc" where
  "check_multi_info hcall [] w = Inr w"
| "check_multi_info hcall (Curl_other_msg # ms) w = check_multi_info hcall ms w"
| "check_multi_info hcall (Curl_done r code # ms) w =
     bind_res
       (on_req r (\<lambda>x w. bind_res (new_http_response code r w) (\<lambda>(p, w1). hcall r p w1)) w)
       (check_multi_info hcall ms)"

text \<open>\<^verbatim>\<open>CURL_POLL_IN\<close> = 1, \<^verbatim>\<open>CURL_POLL_OUT\<close> = 2, \<^verbatim>\<open>CURL_POLL_REMOVE\<close> = 4; libev's flags
  \<^verbatim>\<open>EV_READ\<close> and \<^verbatim>\<open>EV_WRITE\<close> are 1 and 2.\<close>

definition poll_kind :: "int \<Rightarrow> nat" where
  "poll_kind what = (if what mod 2 = 1 then 1 else 0) + (if what div 2 mod 2 = 1 then 2 else 0)"

definition start_http_socket :: "int \<Rightarrow> int \<Rightarrow> ptr \<Rightarrow> nsq_proc" where
  "start_http_socket s what sock w =
     (case http_socks w sock of
        None \<Rightarrow> Inl Use_after_free
      | Some x \<Rightarrow> block
          [if evset x then emit (Ev_io_stop (Http_io sock)) else Inr,
           (\<lambda>w. Inr (w\<lparr>http_socks := (http_socks w)(sock \<mapsto>
                   \<lparr>sockfd = s, action = what, ev_kind = poll_kind what, evset = True\<rparr>)\<rparr>)),
           emit (Ev_io_start (Http_io sock) s)] w)"

definition sock_cb :: "int \<Rightarrow> int \<Rightarrow> ptr \<Rightarrow> nsq_proc" where
  "sock_cb s what sock w =
     (if what = 4 then
        (if sock = 0 then Inr w
         else (case http_socks w sock of
                 None \<Rightarrow> Inl Use_after_free
               | Some x \<Rightarrow> block
                   [if evset x then emit (Ev_io_stop (Http_io sock)) else Inr,
                    (\<lambda>w. Inr (w\<lparr>http_socks := (http_socks w)(sock := None)\<rparr>))] w))
      else if sock = 0 then
        (let new = brk w;
             w1 = w\<lparr>brk := new + 1, http_socks := (http_socks w)(new \<mapsto>
                     \<lparr>sockfd = 0, action = 0, ev_kind = 0, evset = False\<rparr>)\<rparr>
         in block [start_http_socket s what new, emit (Curl_multi_assign s new)] w1)
      else start_http_socket s what sock w)"

text \<open>
  \<^verbatim>\<open>timer_cb\<close> and \<^verbatim>\<open>multi_timer_cb\<close> call each other through libcurl; the recursion is on
  the calls that libcurl makes. The delay is computed in whole seconds.
\<close>

fun curl_callback :: "(ptr \<Rightarrow> ptr \<Rightarrow> nsq_proc) \<Rightarrow> curl_call \<Rightarrow> nsq_proc"
  and curl_callbacks :: "(ptr \<Rightarrow> ptr \<Rightarrow> nsq_proc) \<Rightarrow> curl_call list \<Rightarrow> nsq_proc"
  and multi_timer_cb :: "(ptr \<Rightarrow> ptr \<Rightarrow> nsq_proc) \<Rightarrow> int \<Rightarrow> curl_run \<Rightarrow> nsq_proc"
  and timer_cb :: "(ptr \<Rightarrow> ptr \<Rightarrow> nsq_proc) \<Rightarrow> curl_run \<Rightarrow> nsq_proc" where
  "curl_callback hcall (Curl_write r src sz nmemb) w = write_cb r src sz nmemb w"
| "curl_callback hcall (Curl_socket s what sock) w = sock_cb s what sock w"
| "curl_callback hcall (Curl_timer timeout_ms run) w = multi_timer_cb hcall timeout_ms run w"
| "multi_timer_cb hcall timeout_ms run w =
     bind_res (emit (Ev_timer_stop Http_timer) w) (\<lambda>w1.
       if 0 < timeout_ms then
         block [emit (Ev_timer_set Http_timer (timeout_ms div 1000)),
                emit (Ev_timer_start Http_timer)] w1
       else timer_cb hcall run w1)"
| "curl_callbacks hcall [] w = Inr w"
| "curl_callbacks hcall (c # cs) w = bind_res (curl_callback hcall c w) (curl_callbacks hcall cs)"
| "timer_cb hcall (Curl_run cs ms) w =
     bind_res (emit (Curl_socket_action (-1) 0) w) (\<lambda>w1.
     bind_res (curl_callbacks hcall cs w1) (check_multi_info hcall ms))"

fun event_cb :: "(ptr \<Rightarrow> ptr \<Rightarrow> nsq_proc) \<Rightarrow> int \<Rightarrow> nat \<Rightarrow> curl_run \<Rightarrow> nsq_proc" where
  "event_cb hcall wfd revents (Curl_run cs ms) w =
     bind_res (emit (Curl_socket_action wfd (int (poll_kind (int revents)))) w) (\<lambda>w1.
     bind_res (curl_callbacks hcall cs w1) (check_multi_info hcall ms))"

subsection \<open>The client\<close>

text \<open>
  A reader has one client, so there is no state for it: its \<^verbatim>\<open>multi\<close> handle is libcurl's, its
  timer is \<open>Http_timer\<close>. \<open>exists\<close> is whether the argument is a pointer, \<open>cs\<close> are the
  calls that \<^verbatim>\<open>curl_multi_cleanup\<close> makes back.
\<close>

definition new_http_client :: nsq_proc where
  "new_http_client = block
     [emit Curl_multi_init,
      emit (Curl_multi_setopt Socketfunction), emit (Curl_multi_setopt Socketdata),
      emit (Curl_multi_setopt Timerfunction), emit (Curl_multi_setopt Timerdata)]"

definition free_http_client :: "(ptr \<Rightarrow> ptr \<Rightarrow> nsq_proc) \<Rightarrow> curl_call list \<Rightarrow> bool \<Rightarrow> nsq_proc" where
  "free_http_client hcall cs exists =
     (if exists
      then block [emit Curl_multi_cleanup, curl_callbacks hcall cs, emit (Ev_timer_stop Http_timer)]
      else Inr)"

lemma new_http_client_calls:
  "new_http_client w = Inr (w\<lparr>calls := [Curl_multi_setopt Timerdata, Curl_multi_setopt Timerfunction,
     Curl_multi_setopt Socketdata, Curl_multi_setopt Socketfunction, Curl_multi_init] @ calls w\<rparr>)"
  by (simp add: new_http_client_def emit_def)

lemma free_http_client_stops:
  assumes "free_http_client hcall cs True w = Inr w'"
  shows "\<not> timer_active Http_timer (calls w')"
  using assms by (auto simp: free_http_client_def emit_def bind_res_Inr_iff)

subsection \<open>Sending a request\<close>

text \<open>
  \<^verbatim>\<open>curl_multi_add_handle\<close> calls back too, documented is the request for a timer: \<open>cs\<close>
  are the calls it makes.
\<close>

definition http_client_get ::
  "(ptr \<Rightarrow> ptr \<Rightarrow> nsq_proc) \<Rightarrow> bool \<Rightarrow> curl_call list \<Rightarrow> ptr \<Rightarrow> nsq_world \<Rightarrow>
    fault + int \<times> nsq_world" where
  "http_client_get hcall add_ok cs r w =
     bind_res (upd_req r (req_has_httpc_update (\<lambda>_. True)) w) (\<lambda>w1.
       if \<not> add_ok then Inr (0, w1)
       else bind_res (block [emit (Curl_add_handle r), curl_callbacks hcall cs] w1) (\<lambda>w2.
         Inr (1, w2)))"

end
