(* ===== verification/Json.thy ===== *)
theory Json
  imports Prelude
begin

section \<open>JSON (json.c)\<close>

text \<open>
  The wrappers of \<^verbatim>\<open>src/json.c\<close> around one of two libraries, chosen when the program is
  compiled: jansson (\<^verbatim>\<open>WITH_JANSSON\<close>) or json-c. Both are outside the sources; each is a
  record of the functions that the wrappers call, on values of a type \<open>'j\<close>. A null pointer
  is \<open>None\<close>; what a library does with one is its own matter. \<open>json_lib_of\<close> is what is left
  for the callers, who see the wrappers only.
\<close>

record 'j jansson =
  jansson_loadb :: "byte list \<Rightarrow> nat \<Rightarrow> 'j option"
  jansson_array_size :: "'j \<Rightarrow> nat"
  jansson_array_get :: "'j \<Rightarrow> nat \<Rightarrow> 'j option"
  jansson_object_get :: "'j option \<Rightarrow> byte list \<Rightarrow> 'j option"
  jansson_string_value :: "'j option \<Rightarrow> byte list option"
  jansson_integer_value :: "'j option \<Rightarrow> int"

text \<open>
  \<^verbatim>\<open>json_tokener_parse_ex\<close> gets an \<^verbatim>\<open>int\<close>; \<^verbatim>\<open>json_object_object_get_ex\<close> returns whether
  the key is there, and stores the value or null.
\<close>

record 'j json_c =
  json_tokener_parse_ex :: "byte list \<Rightarrow> int \<Rightarrow> 'j option"
  json_object_array_length :: "'j \<Rightarrow> nat"
  json_object_array_get_idx :: "'j \<Rightarrow> nat \<Rightarrow> 'j option"
  json_object_object_get_ex :: "'j option \<Rightarrow> byte list \<Rightarrow> bool \<times> 'j option"
  json_object_get_string :: "'j option \<Rightarrow> byte list option"
  json_object_get_int :: "'j option \<Rightarrow> 32 word"

datatype 'j backend = With_jansson "'j jansson" | With_json_c "'j json_c"

subsection \<open>The wrappers\<close>

fun nsq_json_loadb :: "'j backend \<Rightarrow> byte list \<Rightarrow> nat \<Rightarrow> nat \<Rightarrow> 'j option" where
  "nsq_json_loadb (With_jansson l) buf buflen flags = jansson_loadb l (take buflen buf) flags"
| "nsq_json_loadb (With_json_c l) buf buflen flags = json_tokener_parse_ex l buf (to_int32 buflen)"

fun nsq_json_array_length :: "'j backend \<Rightarrow> 'j \<Rightarrow> nat" where
  "nsq_json_array_length (With_jansson l) a = jansson_array_size l a"
| "nsq_json_array_length (With_json_c l) a = json_object_array_length l a"

fun nsq_json_array_get :: "'j backend \<Rightarrow> 'j \<Rightarrow> nat \<Rightarrow> 'j option" where
  "nsq_json_array_get (With_jansson l) a i = jansson_array_get l a i"
| "nsq_json_array_get (With_json_c l) a i = json_object_array_get_idx l a i"

fun nsq_json_object_get :: "'j backend \<Rightarrow> 'j option \<Rightarrow> byte list \<Rightarrow> bool \<times> 'j option" where
  "nsq_json_object_get (With_jansson l) jsobj key =
     (let v = jansson_object_get l jsobj key in (v \<noteq> None, v))"
| "nsq_json_object_get (With_json_c l) jsobj key = json_object_object_get_ex l jsobj key"

fun nsq_json_string_value :: "'j backend \<Rightarrow> 'j option \<Rightarrow> byte list option" where
  "nsq_json_string_value (With_jansson l) v = jansson_string_value l v"
| "nsq_json_string_value (With_json_c l) v = json_object_get_string l v"

text \<open>\<^verbatim>\<open>nsq_json_int_t\<close> is 64 bits wide with jansson, 32 with json-c.\<close>

fun nsq_json_int_value :: "'j backend \<Rightarrow> 'j option \<Rightarrow> int" where
  "nsq_json_int_value (With_jansson l) v = jansson_integer_value l v"
| "nsq_json_int_value (With_json_c l) v = sint (json_object_get_int l v)"

subsection \<open>What the callers see\<close>

record 'j json_lib =
  json_loadb :: "byte list \<Rightarrow> 'j option"
  json_object_get :: "'j option \<Rightarrow> byte list \<Rightarrow> 'j option"
  json_array_length :: "'j \<Rightarrow> nat"
  json_array_get :: "'j \<Rightarrow> nat \<Rightarrow> 'j option"
  json_string_value :: "'j option \<Rightarrow> byte list option"
  json_int_value :: "'j option \<Rightarrow> int"

text \<open>
  \<^verbatim>\<open>src/nsqlookupd.c\<close> loads a whole buffer with no flags, and uses only the pointer that an
  object lookup stores.
\<close>

definition json_lib_of :: "'j backend \<Rightarrow> 'j json_lib" where
  "json_lib_of lib = \<lparr>json_loadb = (\<lambda>text. nsq_json_loadb lib text (length text) 0),
     json_object_get = (\<lambda>v key. snd (nsq_json_object_get lib v key)),
     json_array_length = nsq_json_array_length lib, json_array_get = nsq_json_array_get lib,
     json_string_value = nsq_json_string_value lib, json_int_value = nsq_json_int_value lib\<rparr>"

text \<open>
  \<^verbatim>\<open>tcp_port = nsq_json_int_value(...)\<close> converts to a 32-bit \<^verbatim>\<open>int\<close>.
\<close>

definition int_of_json_int :: "int \<Rightarrow> int" where
  "int_of_json_int v = (let r = v mod 2 ^ 32 in if r < 2 ^ 31 then r else r - 2 ^ 32)"

lemma int_of_json_int_id: "- (2 ^ 31) \<le> v \<Longrightarrow> v < 2 ^ 31 \<Longrightarrow> int_of_json_int v = v"
proof (cases "v < 0")
  case True
  assume v: "- (2 ^ 31) \<le> v"
  have "v mod 2 ^ 32 = (v + 2 ^ 32) mod 2 ^ 32" by simp
  also have "\<dots> = v + 2 ^ 32" using True v by (intro mod_pos_pos_trivial) simp_all
  finally show ?thesis using v by (simp add: int_of_json_int_def)
qed (simp add: int_of_json_int_def)

lemma int_of_json_int_json_c:
  "int_of_json_int (nsq_json_int_value (With_json_c l) v) = nsq_json_int_value (With_json_c l) v"
  using sint_ge [of "json_object_get_int l v"] sint_lt [of "json_object_get_int l v"]
  by (intro int_of_json_int_id) simp_all

subsection \<open>What the libraries document\<close>

text \<open>
  The values of a JSON document. A library is said to read them, through a \<open>view\<close> of its own
  values, if each accessor gives what is documented for a value of the type that it is for. What
  the accessors give for other values differs between the libraries (jansson returns null or 0, json-c
  prints or converts the value; json-c has no value for \<^verbatim>\<open>null\<close>) and is left open. A 32-bit
  integer is one that both can return, a string without a zero byte one that a C string can hold.
\<close>

datatype json = JNull | JBool bool | JInt int | JReal | JString "byte list" | JArray "json list"
  | JObject "(byte list \<times> json) list"

definition jansson_reads :: "('j \<Rightarrow> json) \<Rightarrow> 'j jansson \<Rightarrow> bool" where
  "jansson_reads view l \<longleftrightarrow> (\<forall>v.
     (\<forall>xs. view v = JArray xs \<longrightarrow> jansson_array_size l v = length xs
        \<and> (\<forall>i < length xs. xs ! i \<noteq> JNull \<longrightarrow> map_option view (jansson_array_get l v i) = Some (xs ! i)))
     \<and> (\<forall>kvs key. view v = JObject kvs \<longrightarrow> map_of kvs key \<noteq> Some JNull \<longrightarrow>
          map_option view (jansson_object_get l (Some v) key) = map_of kvs key)
     \<and> (\<forall>s. view v = JString s \<longrightarrow> 0 \<notin> set s \<longrightarrow> jansson_string_value l (Some v) = Some s)
     \<and> (\<forall>n. view v = JInt n \<longrightarrow> - (2 ^ 63) \<le> n \<longrightarrow> n < 2 ^ 63 \<longrightarrow> jansson_integer_value l (Some v) = n))"

definition json_c_reads :: "('j \<Rightarrow> json) \<Rightarrow> 'j json_c \<Rightarrow> bool" where
  "json_c_reads view l \<longleftrightarrow> (\<forall>v.
     (\<forall>xs. view v = JArray xs \<longrightarrow> json_object_array_length l v = length xs
        \<and> (\<forall>i < length xs. xs ! i \<noteq> JNull \<longrightarrow> map_option view (json_object_array_get_idx l v i) = Some (xs ! i)))
     \<and> (\<forall>kvs key. view v = JObject kvs \<longrightarrow> map_of kvs key \<noteq> Some JNull \<longrightarrow>
          map_option view (snd (json_object_object_get_ex l (Some v) key)) = map_of kvs key)
     \<and> (\<forall>s. view v = JString s \<longrightarrow> 0 \<notin> set s \<longrightarrow> json_object_get_string l (Some v) = Some s)
     \<and> (\<forall>n. view v = JInt n \<longrightarrow> - (2 ^ 31) \<le> n \<longrightarrow> n < 2 ^ 31 \<longrightarrow> json_object_get_int l (Some v) = word_of_int n))"

fun backend_reads :: "('j \<Rightarrow> json) \<Rightarrow> 'j backend \<Rightarrow> bool" where
  "backend_reads view (With_jansson l) \<longleftrightarrow> jansson_reads view l"
| "backend_reads view (With_json_c l) \<longleftrightarrow> json_c_reads view l"

lemma backend_array:
  assumes "backend_reads view b" and "view v = JArray xs"
  shows "json_array_length (json_lib_of b) v = length xs"
    and "i < length xs \<Longrightarrow> xs ! i \<noteq> JNull \<Longrightarrow> map_option view (json_array_get (json_lib_of b) v i) = Some (xs ! i)"
  using assms by (cases b; simp add: json_lib_of_def jansson_reads_def json_c_reads_def)+

lemma backend_object:
  assumes "backend_reads view b" and "view v = JObject kvs" and "map_of kvs key \<noteq> Some JNull"
  shows "map_option view (json_object_get (json_lib_of b) (Some v) key) = map_of kvs key"
  using assms by (cases b) (simp_all add: json_lib_of_def jansson_reads_def json_c_reads_def Let_def)

lemma backend_string:
  assumes "backend_reads view b" and "view v = JString s" and "0 \<notin> set s"
  shows "json_string_value (json_lib_of b) (Some v) = Some s"
  using assms by (cases b) (simp_all add: json_lib_of_def jansson_reads_def json_c_reads_def)

lemma backend_int:
  assumes "backend_reads view b" and "view v = JInt n" and "- (2 ^ 31) \<le> n" and "n < 2 ^ 31"
  shows "int_of_json_int (json_int_value (json_lib_of b) (Some v)) = n"
proof (cases b)
  case (With_jansson l)
  have "- (2 ^ 63) \<le> n" "n < 2 ^ 63" using assms(3,4) by simp_all
  then show ?thesis using assms With_jansson by (simp add: json_lib_of_def jansson_reads_def int_of_json_int_id)
next
  case (With_json_c l)
  have "sint (word_of_int n :: 32 word) = n"
    using assms(3,4) by (simp add: sint_word_ariths signed_of_int signed_take_bit_int_eq_self)
  then show ?thesis using assms With_json_c by (simp add: json_lib_of_def json_c_reads_def int_of_json_int_id)
qed

end
