(* ===== verification/Reader.thy ===== *)
theory Reader
  imports Connection Utlist Http Json
begin

section \<open>The reader (reader.c, nsqlookupd.c)\<close>

text \<open>
  \<^verbatim>\<open>src/reader.c\<close> and \<^verbatim>\<open>src/nsqlookupd.c\<close>: the reader with its list of connections and
  its list of lookupd endpoints, the callbacks it gives to a connection, the two timers, and
  the callback that connects to the producers that a lookupd names. The callbacks of the
  application are the argument \<open>app\<close>, any procedures; each call of one is also recorded in
  the history. \<open>net p\<close> is what the network answers to the connection allocated at \<open>p\<close>.
\<close>

record application =
  app_connect :: "(ptr \<Rightarrow> nsq_proc) option"
  app_close :: "(ptr \<Rightarrow> nsq_proc) option"
  app_msg :: "(ptr \<Rightarrow> NSQMessage \<Rightarrow> nsq_proc) option"

subsection \<open>The two lists\<close>

definition set_conn_next :: "ptr \<Rightarrow> NSQDConnection \<Rightarrow> NSQDConnection" where
  "set_conn_next n c = c\<lparr>conn_next := n\<rparr>"

definition set_ep_next :: "ptr \<Rightarrow> NSQLookupdEndpoint \<Rightarrow> NSQLookupdEndpoint" where
  "set_ep_next n e = e\<lparr>ep_next := n\<rparr>"

interpretation conn_list: next_field conn_next set_conn_next
  by unfold_locales (simp add: set_conn_next_def)

interpretation ep_list: next_field ep_next set_ep_next
  by unfold_locales (simp add: set_ep_next_def)

definition append_conn :: "ptr \<Rightarrow> nsq_proc" where
  "append_conn p = on_rdr (\<lambda>r w.
     bind_res (LL_APPEND conn_next set_conn_next (conns_head r) p (conns w)) (\<lambda>(h, hp).
       Inr (w\<lparr>conns := hp, rdr := Some (r\<lparr>conns_head := h\<rparr>)\<rparr>)))"

definition delete_conn :: "ptr \<Rightarrow> nsq_proc" where
  "delete_conn p = on_rdr (\<lambda>r w.
     bind_res (LL_DELETE conn_next set_conn_next (conns_head r) p (conns w)) (\<lambda>(h, hp).
       Inr (w\<lparr>conns := hp, rdr := Some (r\<lparr>conns_head := h\<rparr>)\<rparr>)))"

definition append_endpoint :: "ptr \<Rightarrow> nsq_proc" where
  "append_endpoint e = on_rdr (\<lambda>r w.
     bind_res (LL_APPEND ep_next set_ep_next (lookupd_head r) e (endpoints w)) (\<lambda>(h, hp).
       Inr (w\<lparr>endpoints := hp, rdr := Some (r\<lparr>lookupd_head := h\<rparr>)\<rparr>)))"

subsection \<open>The callbacks of a connection\<close>

definition nsq_reader_connect_cb :: "application \<Rightarrow> ptr \<Rightarrow> nsq_proc" where
  "nsq_reader_connect_cb app p = block
     [(case app_connect app of None \<Rightarrow> Inr | Some f \<Rightarrow> block [emit (User_connect p), f p]),
      reset_command_buf p,
      on_rdr (\<lambda>r. write_command (\<lambda>j. nsq_subscribe j (topic r) (channel r)) p),
      flush_command_buf p,
      reset_command_buf p,
      on_rdr (\<lambda>r. write_command (\<lambda>j. nsq_ready j (max_in_flight r)) p),
      flush_command_buf p]"

definition terminate_id :: "NSQMessage \<Rightarrow> NSQMessage" where
  "terminate_id msg = msg\<lparr>id_bytes := (id_bytes msg)[16 := 0]\<rparr>"

definition nsq_reader_msg_cb :: "application \<Rightarrow> ptr \<Rightarrow> NSQMessage \<Rightarrow> nsq_proc" where
  "nsq_reader_msg_cb app p msg = on_rdr (\<lambda>r.
     (case app_msg app of
        None \<Rightarrow> Inr
      | Some f \<Rightarrow> block [emit (User_msg p (terminate_id msg)), f p (terminate_id msg)]))"

definition ev_timer_again_reconnect :: "ptr \<Rightarrow> nsq_proc" where
  "ev_timer_again_reconnect p = on_conn p (\<lambda>c.
     (case reconnect_timer c of
        Timer_null \<Rightarrow> (\<lambda>_. Inl Null_deref)
      | Timer_allocated \<Rightarrow> emit (Ev_timer_again (Reconnect_timer p))
      | Timer_dangling \<Rightarrow> (\<lambda>_. Inl Use_after_free)))"

definition nsq_reader_close_cb :: "application \<Rightarrow> ptr \<Rightarrow> nsq_proc" where
  "nsq_reader_close_cb app p = block
     [(case app_close app of None \<Rightarrow> Inr | Some f \<Rightarrow> block [emit (User_close p), f p]),
      delete_conn p,
      on_rdr (\<lambda>r. if lookupd_head r = 0 then ev_timer_again_reconnect p
                  else free_nsqd_connection p)]"

definition reader_cc :: "application \<Rightarrow> conn_callbacks" where
  "reader_cc app = \<lparr>cc_connect = Some (nsq_reader_connect_cb app),
                    cc_close = Some (nsq_reader_close_cb app),
                    cc_msg = Some (nsq_reader_msg_cb app)\<rparr>"

subsection \<open>Connecting\<close>

definition nsq_reader_connect_to_nsqd ::
  "(ptr \<Rightarrow> connect_env) \<Rightarrow> byte list \<Rightarrow> int \<Rightarrow> nsq_world \<Rightarrow> fault + int \<times> nsq_world" where
  "nsq_reader_connect_to_nsqd net address port w =
     bind_res (new_nsqd_connection address port w) (\<lambda>(p, w1).
     bind_res (nsqd_connection_connect (net p) p w1) (\<lambda>(rc, w2).
     bind_res (if 0 < rc then append_conn p w2 else Inr w2) (\<lambda>w3.
     bind_res (on_rdr (\<lambda>r. if lookupd_head r = 0 then nsqd_connection_init_timer p else Inr) w3)
       (\<lambda>w4. Inr (rc, w4)))))"

definition nsq_reader_reconnect_cb :: "(ptr \<Rightarrow> connect_env) \<Rightarrow> ptr \<Rightarrow> nsq_proc" where
  "nsq_reader_reconnect_cb net p = block
     [on_conn p (\<lambda>c. on_rdr (\<lambda>r w.
        if lookupd_head r = 0 then
          bind_res (nsq_reader_connect_to_nsqd net (conn_address c) (conn_port c) w)
            (\<lambda>(rc, w1). Inr w1)
        else Inr w)),
      free_nsqd_connection p]"

subsection \<open>Lookupd endpoints\<close>

definition new_nsqlookupd_endpoint :: "byte list \<Rightarrow> int \<Rightarrow> nsq_world \<Rightarrow> ptr \<times> nsq_world" where
  "new_nsqlookupd_endpoint address port w =
     (let e = brk w in
      (e, w\<lparr>brk := e + 1, endpoints := (endpoints w)(e \<mapsto>
             \<lparr>ep_address = c_str address, ep_port = port, ep_next = 0\<rparr>)\<rparr>))"

definition free_nsqlookupd_endpoint :: "ptr \<Rightarrow> nsq_proc" where
  "free_nsqlookupd_endpoint e w =
     (if e = 0 then Inr w
      else (case endpoints w e of
              None \<Rightarrow> Inl Double_free
            | Some x \<Rightarrow> Inr (w\<lparr>endpoints := (endpoints w)(e := None)\<rparr>)))"

definition foreach_conn :: "(ptr \<Rightarrow> nsq_proc) \<Rightarrow> nsq_proc" where
  "foreach_conn f = on_rdr (\<lambda>r w.
     ends (LL_FOREACH conn_next conns (\<lambda>p w. bind_res (f p w) (\<lambda>w'. Inr (False, w')))
             (conns_head r) w))"

definition foreach_endpoint :: "(ptr \<Rightarrow> nsq_proc) \<Rightarrow> nsq_proc" where
  "foreach_endpoint f = on_rdr (\<lambda>r w.
     ends (LL_FOREACH ep_next endpoints (\<lambda>e w. bind_res (f e w) (\<lambda>w'. Inr (False, w')))
             (lookupd_head r) w))"

definition nsq_reader_add_nsqlookupd_endpoint ::
  "byte list \<Rightarrow> int \<Rightarrow> nsq_world \<Rightarrow> fault + int \<times> nsq_world" where
  "nsq_reader_add_nsqlookupd_endpoint address port w =
     bind_res
       (on_rdr (\<lambda>r.
          if lookupd_head r = 0 then
            block [foreach_conn nsqd_connection_stop_timer, emit (Ev_timer_again Lookupd_poll_timer)]
          else Inr) w)
       (\<lambda>w1. let (e, w2) = new_nsqlookupd_endpoint address port w1 in
          bind_res (append_endpoint e w2) (\<lambda>w3. Inr (1, w3)))"

subsection \<open>The answer of a lookupd\<close>

definition strcmp_eq :: "byte list \<Rightarrow> byte list option \<Rightarrow> fault + bool" where
  "strcmp_eq s t = (case t of None \<Rightarrow> Inl Null_deref | Some t' \<Rightarrow> Inr (c_str s = c_str t'))"

text \<open>\<^verbatim>\<open>LL_FOREACH(rdr->conns, conn)\<close> looking for the address and the port.\<close>

definition same_peer :: "byte list option \<Rightarrow> int \<Rightarrow> nsq_world \<Rightarrow> ptr \<Rightarrow> fault + bool" where
  "same_peer address port w p =
     on_conn p (\<lambda>c. on_sock (conn_bs c) (\<lambda>b w.
       bind_res (strcmp_eq (sock_address b) address) (\<lambda>eq. Inr (eq \<and> sock_port b = port)))) w"

definition find_conn :: "byte list option \<Rightarrow> int \<Rightarrow> nsq_world \<Rightarrow> fault + bool" where
  "find_conn address port w = on_rdr (\<lambda>r w.
     ends (LL_FOREACH conn_next (\<lambda>_. conns w)
       (\<lambda>p found. bind_res (same_peer address port w p) (\<lambda>b. Inr (b, if b then True else found)))
       (conns_head r) False)) w"

definition lookupd_producer ::
  "'j json_lib \<Rightarrow> (ptr \<Rightarrow> connect_env) \<Rightarrow> 'j option \<Rightarrow> nsq_proc" where
  "lookupd_producer lib net producer w =
     (let address = json_string_value lib
            (json_object_get lib producer (bytes_of ''broadcast_address''));
          port = int_of_json_int
            (json_int_value lib (json_object_get lib producer (bytes_of ''tcp_port''))) in
      bind_res (find_conn address port w) (\<lambda>found.
        if found then Inr w
        else
          (case address of
             None \<Rightarrow> Inl Null_deref
           | Some a \<Rightarrow>
               bind_res (nsq_reader_connect_to_nsqd net a port w) (\<lambda>(rc, w1). Inr w1))))"

definition nsq_lookupd_request_cb ::
  "'j json_lib \<Rightarrow> (ptr \<Rightarrow> connect_env) \<Rightarrow> ptr \<Rightarrow> ptr \<Rightarrow> nsq_proc" where
  "nsq_lookupd_request_cb lib net req resp w =
     (case resps w resp of
        None \<Rightarrow> Inl Use_after_free
      | Some x \<Rightarrow>
          if status_code x \<noteq> 200 then block [free_http_response resp, free_http_request req] w
          else
            on_req (resp_data x) (\<lambda>rq w.
              bind_res (mem_read (orig (req_data rq)) (data (req_data rq))
                          (BUFFER_HAS_DATA (req_data rq))) (\<lambda>text.
                (case json_loadb lib text of
                   None \<Rightarrow> Inr w
                 | Some jsobj \<Rightarrow>
                     (case json_object_get lib (Some jsobj) (bytes_of ''producers'') of
                        None \<Rightarrow> Inr w
                      | Some producers \<Rightarrow>
                          block
                            (map (\<lambda>i. lookupd_producer lib net (json_array_get lib producers i))
                               [0..<json_array_length lib producers]
                             @ [free_http_response resp, free_http_request req]) w)))) w)"

subsection \<open>Polling a lookupd\<close>

text \<open>
  The poll timer: count the endpoints, pick one with \<^verbatim>\<open>rand()\<close> and send a request to it.
  The URL is printed into an array of 256 bytes.
\<close>

record poll_env =
  rand_ret :: nat
  easy_init_ok :: bool
  add_handle_ok :: bool
  add_handle_calls :: "curl_call list"

definition lookup_url :: "NSQLookupdEndpoint \<Rightarrow> byte list \<Rightarrow> byte list" where
  "lookup_url e t =
     bytes_of ''http://'' @ ep_address e @ bytes_of '':'' @ sprintf_d (ep_port e)
     @ bytes_of ''/lookup?topic='' @ t"

definition send_lookup ::
  "'j json_lib \<Rightarrow> (ptr \<Rightarrow> connect_env) \<Rightarrow> poll_env \<Rightarrow> ptr \<Rightarrow> nsq_proc" where
  "send_lookup lib net env el = on_rdr (\<lambda>r w.
     bind_res (deref (endpoints w) el) (\<lambda>e.
       let buf = lookup_url e (topic r) in
       if 256 < length buf + 1 then Inl Out_of_bounds
       else
         bind_res (new_http_request (easy_init_ok env) buf w) (\<lambda>(req, w1).
         bind_res (http_client_get (nsq_lookupd_request_cb lib net) (add_handle_ok env)
                    (add_handle_calls env) req w1) (\<lambda>(rc, w2). Inr w2))))"

definition nsq_reader_lookupd_poll_cb ::
  "'j json_lib \<Rightarrow> (ptr \<Rightarrow> connect_env) \<Rightarrow> poll_env \<Rightarrow> nsq_proc" where
  "nsq_reader_lookupd_poll_cb lib net env = block
     [on_rdr (\<lambda>r w.
        bind_res (ends (LL_FOREACH ep_next (\<lambda>_. endpoints w) (\<lambda>el n. Inr (False, n + 1))
                          (lookupd_head r) (0 :: nat))) (\<lambda>count.
          if count = 0 then Inr w
          else
            bind_res
              (ends (LL_FOREACH ep_next (\<lambda>(i, w). endpoints w)
                 (\<lambda>el (i, w).
                    if i = rand_ret env mod count then
                      bind_res (send_lookup lib net env el w) (\<lambda>w'. Inr (True, (i + 1, w')))
                    else Inr (False, (i + 1, w)))
                 (lookupd_head r) (0 :: nat, w)))
              (\<lambda>(i, w'). Inr w'))),
      emit (Ev_timer_again Lookupd_poll_timer)]"

subsection \<open>Creation and destruction\<close>

definition or_default :: "nat \<Rightarrow> nat \<Rightarrow> nat" where
  "or_default n d = (if n \<le> 0 then d else n)"

definition default_cfg :: NSQReaderCfg where
  "default_cfg = \<lparr>lookupd_interval = 5, command_buf_len = 4096, command_buf_capacity = 4096,
     read_buf_len = 16 * 1024, read_buf_capacity = 16 * 1024,
     write_buf_len = 16 * 1024, write_buf_capacity = 16 * 1024\<rparr>"

definition reader_cfg :: "NSQReaderCfg option \<Rightarrow> NSQReaderCfg" where
  "reader_cfg c =
     (case c of
        None \<Rightarrow> default_cfg
      | Some c \<Rightarrow> \<lparr>lookupd_interval = (if lookupd_interval c \<le> 0 then 5 else lookupd_interval c),
          command_buf_len = or_default (command_buf_len c) 4096,
          command_buf_capacity = or_default (command_buf_capacity c) 4096,
          read_buf_len = or_default (read_buf_len c) (16 * 1024),
          read_buf_capacity = or_default (read_buf_capacity c) (16 * 1024),
          write_buf_len = or_default (write_buf_len c) (16 * 1024),
          write_buf_capacity = or_default (write_buf_capacity c) (16 * 1024)\<rparr>)"

definition new_nsq_reader :: "byte list \<Rightarrow> byte list \<Rightarrow> NSQReaderCfg option \<Rightarrow> nsq_proc" where
  "new_nsq_reader t ch c w =
     new_http_client
       (w\<lparr>rdr := Some \<lparr>topic = c_str t, channel = c_str ch, max_in_flight = 1,
                     conns_head = 0, lookupd_head = 0, cfg = reader_cfg c\<rparr>\<rparr>)"

definition free_nsq_reader :: "application \<Rightarrow> nsq_proc" where
  "free_nsq_reader app = block
     [foreach_conn (nsqd_connection_disconnect (reader_cc app)),
      foreach_endpoint free_nsqlookupd_endpoint,
      on_rdr (\<lambda>r w. Inr (w\<lparr>rdr := None\<rparr>))]"

text \<open>
  The message handler of \<^verbatim>\<open>src/test.c\<close>: acknowledge the message, ask for the next one.
\<close>

definition message_handler :: "ptr \<Rightarrow> NSQMessage \<Rightarrow> nsq_proc" where
  "message_handler p msg = block
     [reset_command_buf p,
      write_command (\<lambda>j. nsq_finish j (id_bytes msg)) p,
      flush_command_buf p,
      reset_command_buf p,
      on_rdr (\<lambda>r. write_command (\<lambda>j. nsq_ready j (max_in_flight r)) p),
      flush_command_buf p]"

definition test_app :: application where
  "test_app = \<lparr>app_connect = None, app_close = None, app_msg = Some message_handler\<rparr>"

end
