(* ===== verification/Reader_Inv.thy ===== *)
theory Reader_Inv
  imports Reader Command_Decode
begin

section \<open>The invariant of the program\<close>

text \<open>
  What every handler of the event loop keeps, for any application whose callbacks keep it:
  the invariant of the socket layer; sockets and connections point at each other, with the
  functions of nsqd_connection.c as callbacks; the two lists are well formed; a connection
  whose reconnect timer runs is closed and in no list. A procedure keeps the invariant under
  a precondition (\<open>keeps\<close>) when each run that returns leads to a state of the invariant in
  which no address was used again (\<open>advances\<close>); statements compose by the rules of the
  collection \<open>keeps_rules\<close>.
\<close>

definition cfg_ok :: "NSQReaderCfg \<Rightarrow> bool" where
  "cfg_ok c \<longleftrightarrow> 0 < command_buf_len c \<and> command_buf_len c < 2 ^ 31
     \<and> 0 < command_buf_capacity c \<and> command_buf_capacity c < 2 ^ 31
     \<and> 0 < read_buf_len c \<and> read_buf_len c < 2 ^ 31
     \<and> 0 < read_buf_capacity c \<and> read_buf_capacity c < 2 ^ 31
     \<and> 0 < write_buf_len c \<and> write_buf_len c < 2 ^ 31
     \<and> 0 < write_buf_capacity c \<and> write_buf_capacity c < 2 ^ 31"

definition sock_linked :: "nsq_world \<Rightarrow> ptr \<Rightarrow> nsqd_fn BufferedSocket \<Rightarrow> bool" where
  "sock_linked w q b \<longleftrightarrow> (\<exists>c. conns w (cbarg b) = Some c \<and> conn_bs c = q)
     \<and> connect_callback b = Some Nsqd_connect_cb \<and> close_callback b = Some Nsqd_close_cb
     \<and> error_callback b = Some Nsqd_error_cb
     \<and> (read_bytes_callback b \<noteq> None \<longrightarrow> read_bytes_arg b = cbarg b
          \<and> (read_bytes_callback b = Some Nsqd_read_size \<or> read_bytes_callback b = Some Nsqd_read_data))"

definition links_ok :: "nsq_world \<Rightarrow> bool" where
  "links_ok w \<longleftrightarrow> (\<forall>q b. socks w q = Some b \<longrightarrow> sock_linked w q b)
     \<and> (\<forall>p c. conns w p = Some c \<longrightarrow> wf_bounded (command_buf c)
          \<and> (\<exists>b. socks w (conn_bs c) = Some b \<and> cbarg b = p))"

lemma links_conn:
  "links_ok w \<Longrightarrow> conns w p = Some c \<Longrightarrow>
    wf_bounded (command_buf c) \<and> (\<exists>b. socks w (conn_bs c) = Some b \<and> cbarg b = p)"
  by (simp add: links_ok_def)

lemma links_sock: "links_ok w \<Longrightarrow> socks w q = Some b \<Longrightarrow> sock_linked w q b"
  by (simp add: links_ok_def)

definition alloc_ok :: "nsq_world \<Rightarrow> bool" where
  "alloc_ok w \<longleftrightarrow> 0 < brk w \<and> conns w 0 = None
     \<and> (\<forall>p \<ge> brk w. conns w p = None \<and> endpoints w p = None
          \<and> \<not> timer_active (Reconnect_timer p) (calls w))"

definition conn_list :: "nsq_world \<Rightarrow> ptr list \<Rightarrow> bool" where
  "conn_list w xs \<longleftrightarrow>
     (case rdr w of None \<Rightarrow> xs = [] | Some r \<Rightarrow> ll_rep conn_next (conns w) (conns_head r) xs)"

definition recon_ok :: "nsq_world \<Rightarrow> ptr list \<Rightarrow> bool" where
  "recon_ok w xs \<longleftrightarrow> (\<forall>p. timer_active (Reconnect_timer p) (calls w) \<longrightarrow>
     p \<notin> set xs
     \<and> (\<forall>c b. conns w p = Some c \<longrightarrow> socks w (conn_bs c) = Some b \<longrightarrow> state b = BS_DISCONNECTED))"

definition rdr_ok :: "nsq_world \<Rightarrow> bool" where
  "rdr_ok w \<longleftrightarrow> (\<forall>r. rdr w = Some r \<longrightarrow> cfg_ok (cfg r)
     \<and> int_range (max_in_flight r) \<and> length (topic r) < 2 ^ 29 \<and> length (channel r) < 2 ^ 29
     \<and> (\<exists>es. ll_rep ep_next (endpoints w) (lookupd_head r) es))"

definition net_inv :: "nsq_world \<Rightarrow> bool" where
  "net_inv w \<longleftrightarrow> socks_inv w \<and> links_ok w \<and> alloc_ok w \<and> rdr_ok w
     \<and> (\<exists>xs. conn_list w xs \<and> recon_ok w xs)"

lemma net_invE:
  assumes "net_inv w"
  obtains xs where "socks_inv w" "links_ok w" "alloc_ok w" "rdr_ok w" "conn_list w xs" "recon_ok w xs"
  using assms by (auto simp: net_inv_def)

subsection \<open>Later states\<close>

definition advances :: "nsq_world \<Rightarrow> nsq_world \<Rightarrow> bool" where
  "advances w w' \<longleftrightarrow> brk w \<le> brk w'
     \<and> (\<forall>q b'. q < brk w \<longrightarrow> socks w' q = Some b' \<longrightarrow>
          (\<exists>b. socks w q = Some b \<and> cbarg b' = cbarg b
             \<and> (state b = BS_DISCONNECTED \<longrightarrow> state b' = BS_DISCONNECTED)))
     \<and> (\<forall>p c'. p < brk w \<longrightarrow> conns w' p = Some c' \<longrightarrow>
          (\<exists>c. conns w p = Some c \<and> conn_bs c' = conn_bs c))"

lemma advances_refl: "advances w w"
  by (simp add: advances_def)

lemma advances_trans:
  assumes "advances w w1" and "advances w1 w2" shows "advances w w2"
proof -
  have le: "brk w \<le> brk w1" "brk w1 \<le> brk w2" using assms by (simp_all add: advances_def)
  have "\<exists>b. socks w q = Some b \<and> cbarg b' = cbarg b
      \<and> (state b = BS_DISCONNECTED \<longrightarrow> state b' = BS_DISCONNECTED)"
    if q: "q < brk w" and b': "socks w2 q = Some b'" for q b'
  proof -
    obtain b1 where "socks w1 q = Some b1" "cbarg b' = cbarg b1"
        "state b1 = BS_DISCONNECTED \<longrightarrow> state b' = BS_DISCONNECTED"
      using assms(2) less_le_trans [OF q le(1)] b' unfolding advances_def by blast
    then show ?thesis using assms(1) q unfolding advances_def by fastforce
  qed
  moreover have "\<exists>c. conns w p = Some c \<and> conn_bs c' = conn_bs c"
    if q: "p < brk w" and b': "conns w2 p = Some c'" for p c'
  proof -
    obtain c1 where "conns w1 p = Some c1" "conn_bs c' = conn_bs c1"
      using assms(2) less_le_trans [OF q le(1)] b' unfolding advances_def by blast
    then show ?thesis using assms(1) q unfolding advances_def by fastforce
  qed
  ultimately show ?thesis using le by (simp add: advances_def)
qed

text \<open>The same sockets and the same owners, whatever else changed.\<close>

lemma advances_same:
  "socks w' = socks w \<Longrightarrow> brk w \<le> brk w' \<Longrightarrow>
    (\<And>p. map_option conn_bs (conns w' p) = map_option conn_bs (conns w p)) \<Longrightarrow> advances w w'"
  by (auto simp: advances_def) (metis map_option_eq_Some)

definition lasting :: "(nsq_world \<Rightarrow> bool) \<Rightarrow> bool" where
  "lasting P \<longleftrightarrow> (\<forall>w w'. P w \<longrightarrow> advances w w' \<longrightarrow> P w')"

definition keeps :: "(nsq_world \<Rightarrow> bool) \<Rightarrow> nsq_proc \<Rightarrow> bool" where
  "keeps P f \<longleftrightarrow> (\<forall>w w'. net_inv w \<longrightarrow> P w \<longrightarrow> f w = Inr w' \<longrightarrow> net_inv w' \<and> advances w w')"

lemma keepsI:
  "(\<And>w w'. net_inv w \<Longrightarrow> P w \<Longrightarrow> f w = Inr w' \<Longrightarrow> net_inv w' \<and> advances w w') \<Longrightarrow> keeps P f"
  by (simp add: keeps_def)

lemma keepsD:
  "keeps P f \<Longrightarrow> net_inv w \<Longrightarrow> P w \<Longrightarrow> f w = Inr w' \<Longrightarrow> net_inv w' \<and> advances w w'"
  by (simp add: keeps_def)

named_theorems keeps_rules \<open>procedures that keep the invariant of the program\<close>

lemma keeps_weaken: "keeps P f \<Longrightarrow> (\<And>w. Q w \<Longrightarrow> P w) \<Longrightarrow> keeps Q f"
  by (simp add: keeps_def)

lemma keeps_Inr [keeps_rules]: "keeps P Inr"
  by (simp add: keeps_def advances_refl)

lemma keeps_fail [keeps_rules]: "keeps P (\<lambda>_. Inl e)"
  by (simp add: keeps_def)

lemma keeps_seq:
  assumes "lasting P" and "keeps P f" and "keeps P g"
  shows "keeps P (\<lambda>w. bind_res (f w) g)"
proof (rule keepsI)
  fix w w' assume "net_inv w" "P w" "bind_res (f w) g = Inr w'"
  then obtain w1 where w1: "f w = Inr w1" "g w1 = Inr w'" by (auto simp: bind_res_Inr_iff)
  have 1: "net_inv w1" "advances w w1" using keepsD [OF assms(2)] \<open>net_inv w\<close> \<open>P w\<close> w1 by auto
  have "P w1" using assms(1) \<open>P w\<close> 1 by (auto simp: lasting_def)
  then show "net_inv w' \<and> advances w w'"
    using keepsD [OF assms(3) 1(1) _ w1(2)] advances_trans [OF 1(2)] by auto
qed

lemma keeps_block: "lasting P \<Longrightarrow> list_all (keeps P) fs \<Longrightarrow> keeps P (block fs)"
proof (induction fs)
  case Nil
  then show ?case by (simp add: block_Nil keeps_Inr)
next
  case (Cons f fs)
  have "keeps P (\<lambda>w. bind_res (f w) (block fs))" using Cons by (intro keeps_seq) simp_all
  then show ?case by (simp add: keeps_def)
qed

lemma keeps_if: "(c \<Longrightarrow> keeps P f) \<Longrightarrow> (\<not> c \<Longrightarrow> keeps P g) \<Longrightarrow> keeps P (if c then f else g)"
  by simp

lemma keeps_if_app:
  "(c \<Longrightarrow> keeps P f) \<Longrightarrow> (\<not> c \<Longrightarrow> keeps P g) \<Longrightarrow> keeps P (\<lambda>w. if c then f w else g w)"
  by (cases c) simp_all

lemma keeps_on_conn:
  "(\<And>c. keeps (\<lambda>w. P w \<and> conns w p = Some c) (f c)) \<Longrightarrow> keeps P (on_conn p f)"
  by (auto simp: keeps_def on_conn_def split: option.splits)

lemma keeps_on_sock:
  "(\<And>b. keeps (\<lambda>w. P w \<and> socks w q = Some b) (f b)) \<Longrightarrow> keeps P (on_sock q f)"
  by (auto simp: keeps_def on_sock_def split: option.splits)

lemma keeps_on_rdr:
  "(\<And>r. keeps (\<lambda>w. P w \<and> rdr w = Some r) (f r)) \<Longrightarrow> keeps P (on_rdr f)"
  by (auto simp: keeps_def on_rdr_def split: option.splits)

text \<open>The same without the fact about the state, which a procedure would have to preserve.\<close>

lemma keeps_on_conn_any: "(\<And>c. keeps P (f c)) \<Longrightarrow> keeps P (on_conn p f)"
  by (auto simp: keeps_def on_conn_def split: option.splits)

lemma keeps_on_sock_any: "(\<And>b. keeps P (f b)) \<Longrightarrow> keeps P (on_sock q f)"
  by (auto simp: keeps_def on_sock_def split: option.splits)

lemma keeps_on_rdr_any: "(\<And>r. keeps P (f r)) \<Longrightarrow> keeps P (on_rdr f)"
  by (auto simp: keeps_def on_rdr_def split: option.splits)

text \<open>A computation that reads the state only.\<close>

lemma keeps_bind:
  "(\<And>w x. m w = Inr x \<Longrightarrow> keeps P (f x)) \<Longrightarrow> keeps P (\<lambda>w. bind_res (m w) (\<lambda>x. f x w))"
  by (auto simp: keeps_def bind_res_Inr_iff)

subsection \<open>Elementary statements\<close>

lemma more_eq:
  fixes w w' :: nsq_world
  shows "sock_world.more w' = sock_world.more w \<Longrightarrow>
    conns w' = conns w \<and> endpoints w' = endpoints w \<and> rdr w' = rdr w"
  by (cases w; cases w') simp

lemma socket_entries_reconnect:
  "list_all socket_entry cs \<Longrightarrow>
    timer_active (Reconnect_timer p) (cs @ l) = timer_active (Reconnect_timer p) l"
  by (induction cs) (auto simp: socket_entry_def split: ext_call.splits timer.splits)

lemma rel_option_SomeD2: "rel_option R x (Some b') \<Longrightarrow> \<exists>b. x = Some b \<and> R b b'"
  by (cases x) auto

lemma rel_option_SomeD1: "rel_option R (Some b) y \<Longrightarrow> \<exists>b'. y = Some b' \<and> R b b'"
  by (cases y) auto

lemma same_links_net:
  assumes inv: "net_inv w" and si: "socks_inv w'" and same: "same_links w w'"
  shows "net_inv w' \<and> advances w w'"
proof -
  obtain xs where w: "links_ok w" "alloc_ok w" "rdr_ok w" "conn_list w xs" "recon_ok w xs"
    using inv by (rule net_invE)
  have eq: "conns w' = conns w" "endpoints w' = endpoints w" "rdr w' = rdr w" "brk w' = brk w"
    using same more_eq [of w' w] by (simp_all add: same_links_def)
  have timer: "timer_active (Reconnect_timer p) (calls w') = timer_active (Reconnect_timer p) (calls w)" for p
    using same socket_entries_reconnect by (auto simp: same_links_def)
  have bwd: "\<exists>b. socks w q = Some b \<and> same_link b b'" if "socks w' q = Some b'" for q b'
    using same that rel_option_SomeD2 [of same_link "socks w q" b'] by (metis same_links_def)
  have fwd: "\<exists>b'. socks w' q = Some b' \<and> same_link b b'" if "socks w q = Some b" for q b
    using same that rel_option_SomeD1 [of same_link b "socks w' q"] by (metis same_links_def)
  have "sock_linked w' q b'" if b': "socks w' q = Some b'" for q b'
  proof -
    obtain b where b: "socks w q = Some b" "same_link b b'" using bwd [OF b'] by blast
    then have "sock_linked w q b" using w(1) by (simp add: links_ok_def)
    then show ?thesis using b(2) by (auto simp: sock_linked_def same_link_def eq)
  qed
  moreover have "wf_bounded (command_buf c) \<and> (\<exists>b'. socks w' (conn_bs c) = Some b' \<and> cbarg b' = p)"
    if pc: "conns w' p = Some c" for p c
  proof -
    obtain b where b: "wf_bounded (command_buf c)" "socks w (conn_bs c) = Some b" "cbarg b = p"
      using links_conn [OF w(1), of p c] pc eq(1) by auto
    then show ?thesis using fwd [OF b(2)] by (auto simp: same_link_def)
  qed
  ultimately have "links_ok w'" by (simp add: links_ok_def)
  moreover have "alloc_ok w'" using w(2) by (simp add: alloc_ok_def eq timer)
  moreover have "rdr_ok w'" using w(3) by (simp add: rdr_ok_def eq)
  moreover have "conn_list w' xs" using w(4) by (simp only: conn_list_def eq)
  moreover have "recon_ok w' xs"
    using w(5) bwd by (fastforce simp: recon_ok_def eq timer same_link_def)
  moreover have "advances w w'"
    using bwd by (fastforce simp: advances_def eq same_link_def)
  ultimately show ?thesis using si by (auto simp: net_inv_def)
qed

text \<open>A change that leaves the sockets alone and, of the connections, their links.\<close>

definition conn_like :: "NSQDConnection \<Rightarrow> NSQDConnection \<Rightarrow> bool" where
  "conn_like c c' \<longleftrightarrow> conn_bs c' = conn_bs c
     \<and> (wf_bounded (command_buf c) \<longrightarrow> wf_bounded (command_buf c'))"

definition heap_like :: "nsq_world \<Rightarrow> nsq_world \<Rightarrow> bool" where
  "heap_like w w' \<longleftrightarrow> socks w' = socks w \<and> brk w \<le> brk w'
     \<and> (\<forall>p. rel_option conn_like (conns w p) (conns w' p))
     \<and> (\<forall>p \<ge> brk w'. endpoints w' p = None)
     \<and> (\<forall>p. timer_active (Reconnect_timer p) (calls w') \<longrightarrow> timer_active (Reconnect_timer p) (calls w))"

lemma conn_like_refl [simp]: "conn_like c c"
  by (simp add: conn_like_def)

lemma heap_like_net:
  assumes inv: "net_inv w" and si: "socks_inv w'" and like: "heap_like w w'" and rdr: "rdr_ok w'"
    and lists: "\<And>xs. conn_list w xs \<Longrightarrow> recon_ok w xs \<Longrightarrow> \<exists>ys. conn_list w' ys \<and> recon_ok w' ys"
  shows "net_inv w' \<and> advances w w'"
proof -
  obtain xs where w: "links_ok w" "alloc_ok w" "conn_list w xs" "recon_ok w xs"
    using inv by (rule net_invE)
  have bwd: "\<exists>c. conns w p = Some c \<and> conn_like c c'" if "conns w' p = Some c'" for p c'
    using like that rel_option_SomeD2 [of conn_like "conns w p" c'] by (metis heap_like_def)
  have fwd: "\<exists>c'. conns w' p = Some c' \<and> conn_like c c'" if "conns w p = Some c" for p c
    using like that rel_option_SomeD1 [of conn_like c "conns w' p"] by (metis heap_like_def)
  have socks: "socks w' = socks w" and brk: "brk w \<le> brk w'" using like by (simp_all add: heap_like_def)
  have "sock_linked w' q b" if b: "socks w' q = Some b" for q b
    using links_sock [OF w(1), of q b] b fwd by (fastforce simp: socks sock_linked_def conn_like_def)
  moreover have "wf_bounded (command_buf c') \<and> (\<exists>b. socks w' (conn_bs c') = Some b \<and> cbarg b = p)"
    if pc: "conns w' p = Some c'" for p c'
    using links_conn [OF w(1), of p] bwd [OF pc] by (auto simp: socks conn_like_def)
  ultimately have "links_ok w'" by (simp add: links_ok_def)
  moreover have "alloc_ok w'"
  proof -
    have "conns w' p = None" if "brk w' \<le> p" for p
      using w(2) bwd [of p] brk that by (cases "conns w' p") (auto simp: alloc_ok_def)
    moreover have "conns w' 0 = None"
      using w(2) bwd [of 0] by (cases "conns w' 0") (auto simp: alloc_ok_def)
    ultimately show ?thesis using w(2) like brk by (auto simp: alloc_ok_def heap_like_def)
  qed
  moreover have "map_option conn_bs (conns w' p) = map_option conn_bs (conns w p)" for p
    using fwd [of p] bwd [of p] by (cases "conns w p"; cases "conns w' p") (auto simp: conn_like_def)
  then have "advances w w'" using socks brk by (intro advances_same) simp_all
  ultimately show ?thesis using si rdr lists [OF w(3,4)] by (auto simp: net_inv_def)
qed

lemma recon_ok_like: "recon_ok w xs \<Longrightarrow> heap_like w w' \<Longrightarrow> set ys \<subseteq> set xs \<Longrightarrow> recon_ok w' ys"
  unfolding recon_ok_def
proof (intro allI impI conjI)
  fix p assume r: "\<forall>p. timer_active (Reconnect_timer p) (calls w) \<longrightarrow> p \<notin> set xs
      \<and> (\<forall>c b. conns w p = Some c \<longrightarrow> socks w (conn_bs c) = Some b \<longrightarrow> state b = BS_DISCONNECTED)"
    and like: "heap_like w w'" and sub: "set ys \<subseteq> set xs"
    and t: "timer_active (Reconnect_timer p) (calls w')"
  have tw: "timer_active (Reconnect_timer p) (calls w)" using like t by (simp add: heap_like_def)
  then show "p \<notin> set ys" using r sub by blast
  fix c b assume c: "conns w' p = Some c" and b: "socks w' (conn_bs c) = Some b"
  then obtain c0 where "conns w p = Some c0" "conn_like c0 c"
    using like rel_option_SomeD2 [of conn_like "conns w p" c] by (metis heap_like_def)
  then show "state b = BS_DISCONNECTED"
    using r tw b like by (auto simp: conn_like_def heap_like_def)
qed

text \<open>Nothing of the lists was touched.\<close>

lemma heap_like_frame:
  assumes inv: "net_inv w" and si: "socks_inv w'" and like: "heap_like w w'"
    and "rdr w' = rdr w" and "endpoints w' = endpoints w"
    and "\<And>p. map_option conn_next (conns w' p) = map_option conn_next (conns w p)"
  shows "net_inv w' \<and> advances w w'"
proof (rule heap_like_net [OF inv si like])
  show "rdr_ok w'" using inv assms(4,5) by (auto simp: net_inv_def rdr_ok_def)
  have "conn_list w' xs = conn_list w xs" for xs
    using assms(4,6) ll_list_cong [of xs conn_next "conns w'" "conns w"]
    by (auto simp: conn_list_def ll_rep_def split: option.split)
  then show "\<exists>ys. conn_list w' ys \<and> recon_ok w' ys" if "conn_list w xs" "recon_ok w xs" for xs
    using that recon_ok_like [OF that(2) like order_refl] by blast
qed

definition neutral :: "ext_call \<Rightarrow> bool" where
  "neutral c \<longleftrightarrow> (\<forall>q. about q c)
     \<and> (\<forall>p l. timer_active (Reconnect_timer p) (c # l) \<longrightarrow> timer_active (Reconnect_timer p) l)"

lemma neutral_simps [simp]:
  "neutral (User_connect p)" "neutral (User_close p)" "neutral (User_msg p m)"
  "neutral (Ev_timer_stop (Reconnect_timer p))" "neutral (Ev_timer_again Lookupd_poll_timer)"
  "neutral (Timer_expired Http_timer)" "neutral (Ev_timer_stop Http_timer)" "neutral (Ev_timer_start Http_timer)"
  "neutral (Ev_timer_set t n)" "neutral (Curl_add_handle r)" "neutral (Curl_remove_handle r)"
  "neutral (Curl_easy_cleanup r)" "neutral (Curl_multi_assign f r)"
  "neutral (Curl_socket_action f n)" "neutral (Ev_io_start (Http_io r) f)"
  "neutral (Ev_io_stop (Http_io r))"
  by (simp_all add: neutral_def)

lemma keeps_emit: "neutral c \<Longrightarrow> keeps P (emit c)"
proof (rule keepsI)
  fix w w' assume c: "neutral c" and inv: "net_inv w" and "emit c w = Inr w'"
  then have w': "w' = w\<lparr>calls := c # calls w\<rparr>" by (simp add: emit_def)
  have "socks_inv w'"
    unfolding w' using inv c by (intro socks_inv_emit) (auto simp: net_inv_def neutral_def)
  moreover have "heap_like w w'"
    using inv c by (auto simp: heap_like_def w' neutral_def net_inv_def alloc_ok_def
        option.rel_refl simp del: timer_active.simps)
  ultimately show "net_inv w' \<and> advances w w'"
    by (rule heap_like_frame [OF inv]) (simp_all add: w')
qed

lemma keeps_upd_conn:
  assumes "\<And>c. P' c \<Longrightarrow> conn_like c (f c) \<and> conn_next (f c) = conn_next c"
  shows "keeps (\<lambda>w. \<forall>c. conns w p = Some c \<longrightarrow> P' c) (upd_conn p f)"
proof (rule keepsI)
  fix w w' assume inv: "net_inv w" and P: "\<forall>c. conns w p = Some c \<longrightarrow> P' c"
    and run: "upd_conn p f w = Inr w'"
  obtain c where c: "conns w p = Some c" and w': "w' = w\<lparr>conns := (conns w)(p \<mapsto> f c)\<rparr>"
    using run by (auto simp: upd_conn_def on_conn_def split: option.splits)
  have "conn_like c (f c)" "conn_next (f c) = conn_next c" using assms P c by simp_all
  then show "net_inv w' \<and> advances w w'"
    using inv c
    by (intro heap_like_frame [OF inv])
      (auto simp: w' heap_like_def net_inv_def alloc_ok_def option.rel_refl socks_inv_def)
qed

lemma keeps_upd_conn_any [keeps_rules]:
  "(\<And>c. conn_like c (f c) \<and> conn_next (f c) = conn_next c) \<Longrightarrow> keeps P (upd_conn p f)"
  using keeps_upd_conn [of "\<lambda>_. True" f p] by (rule keeps_weaken) auto

lemma keeps_upd_command_buf:
  "wf_bounded cb \<Longrightarrow> keeps P (upd_conn p (command_buf_update (\<lambda>_. cb)))"
  by (rule keeps_upd_conn_any) (simp add: conn_like_def)

lemma keeps_reset_command_buf [keeps_rules]: "keeps P (reset_command_buf p)"
  unfolding reset_command_buf_def
  by (rule keeps_upd_conn_any) (simp add: conn_like_def wf_bounded_reset)

text \<open>A command that is written leaves a bounded buffer bounded.\<close>

lemma send_command_bounded:
  assumes "command_args_ok c" and "length (command_bytes c) < 2 ^ 31" and "wf_bounded b"
    and "send_command j c b = Inr b'"
  shows "wf_bounded b'"
  using lq.adds_total [OF assms(3) pieces_small [OF assms(1,2)], of j] assms(4)
  by (auto simp: send_command_pieces [OF assms(1)])

lemma keeps_write_command:
  assumes f: "\<And>j b b'. wf_bounded b \<Longrightarrow> f j b = Inr b' \<Longrightarrow> wf_bounded b'"
  shows "keeps P (write_command f p)"
proof (rule keepsI)
  fix w w' assume inv: "net_inv w" and run: "write_command f p w = Inr w'"
  then obtain c cb where c: "conns w p = Some c" and cb: "f (junk w) (command_buf c) = Inr cb"
      and upd: "upd_conn p (command_buf_update (\<lambda>_. cb)) w = Inr w'"
    by (auto simp: write_command_def on_conn_def bind_res_Inr_iff split: option.splits)
  have "wf_bounded (command_buf c)"
    using inv links_conn [OF _ c] by (auto simp: net_inv_def)
  then have "keeps (\<lambda>_. True) (upd_conn p (command_buf_update (\<lambda>_. cb)))"
    using f cb by (intro keeps_upd_command_buf) blast
  then show "net_inv w' \<and> advances w w'" using inv upd by (simp add: keeps_def)
qed

lemma keeps_send_command:
  assumes "\<And>j. f j = send_command j c" and "command_args_ok c" and "length (command_bytes c) < 2 ^ 31"
  shows "keeps P (write_command f p)"
  using assms send_command_bounded by (intro keeps_write_command) auto

lemma write_same_links:
  assumes "buffered_socket_write src len q w = Inr (n, w')"
  shows "same_links w w'"
proof -
  obtain b where b: "socks w q = Some b"
    using assms by (auto simp: buffered_socket_write_def on_sock_def split: option.splits)
  show ?thesis
  proof (cases "state b = BS_CONNECTED")
    case True
    then obtain wb g where w': "w' = w\<lparr>socks := (socks w)(q \<mapsto> b\<lparr>write_buf := wb\<rparr>),
          calls := Ev_io_start (Write_io q) g # calls w\<rparr>"
      using assms b
      by (cases "write_ev b") (auto simp: buffered_socket_write_def sock_simps bind_res_Inr_iff)
    show ?thesis
      by (rule same_links_upd [OF b, where cs = "[Ev_io_start (Write_io q) g]"
            and b' = "b\<lparr>write_buf := wb\<rparr>"])
        (simp_all add: w' same_link_def socket_entry_def)
  next
    case False
    then have "w' = w" using assms b by (simp add: buffered_socket_write_def sock_simps)
    then show ?thesis by (simp add: same_links_id)
  qed
qed

lemma net_inv_socks: "net_inv w \<Longrightarrow> socks_inv w"
  by (simp add: net_inv_def)

lemma keeps_sock_write [keeps_rules]: "len < 2 ^ 31 \<Longrightarrow> keeps P (sock_write src len q)"
proof (rule keepsI)
  fix w w' assume len: "len < 2 ^ 31" and inv: "net_inv w" and "sock_write src len q w = Inr w'"
  then obtain n where "buffered_socket_write src len q w = Inr (n, w')"
    by (auto simp: sock_write_def bind_res_Inr_iff)
  then show "net_inv w' \<and> advances w w'"
    using same_links_net [OF inv write_inv [OF net_inv_socks [OF inv] len] write_same_links] by blast
qed

lemma keeps_flush [keeps_rules]: "keeps P (flush_command_buf p)"
proof (rule keepsI)
  fix w w' assume inv: "net_inv w" and run: "flush_command_buf p w = Inr w'"
  then obtain c n cb w1 where c: "conns w p = Some c"
      and wr: "buffered_socket_write_buffer (command_buf c) (conn_bs c) w = Inr (n, cb, w1)"
      and upd: "upd_conn p (command_buf_update (\<lambda>_. cb)) w1 = Inr w'"
    by (auto simp: flush_command_buf_def on_conn_def bind_res_Inr_iff split: option.splits)
  have cb0: "wf_bounded (command_buf c)" using inv links_conn [OF _ c] by (auto simp: net_inv_def)
  have 1: "socks_inv w1" "wf_bounded cb"
    using write_buffer_inv [OF net_inv_socks [OF inv] cb0 wr] by simp_all
  have "same_links w w1"
    using wr write_same_links
    by (auto simp: buffered_socket_write_buffer_def Let_def bind_res_Inr_iff same_links_id
        split: if_splits)
  then have 2: "net_inv w1 \<and> advances w w1" by (rule same_links_net [OF inv 1(1)])
  have "net_inv w' \<and> advances w1 w'"
    using keepsD [OF keeps_upd_command_buf [OF 1(2), of "\<lambda>_. True" p] _ _ upd] 2 by simp
  with 2 show "net_inv w' \<and> advances w w'" using advances_trans by blast
qed

text \<open>A change of one socket, its links kept right.\<close>

lemma sock_change_net:
  assumes inv: "net_inv w" and si: "socks_inv w'" and b: "socks w q = Some b"
    and socks: "socks w' = (socks w)(q \<mapsto> b')" and link: "sock_linked w q b'" "cbarg b' = cbarg b"
    and st: "state b = BS_DISCONNECTED \<longrightarrow> state b' = BS_DISCONNECTED"
    and cs: "calls w' = cs @ calls w" "list_all socket_entry cs"
    and brk: "brk w' = brk w" and more: "sock_world.more w' = sock_world.more w"
  shows "net_inv w' \<and> advances w w'"
proof -
  obtain xs where w: "links_ok w" "alloc_ok w" "rdr_ok w" "conn_list w xs" "recon_ok w xs"
    using inv by (rule net_invE)
  have eq: "conns w' = conns w" "endpoints w' = endpoints w" "rdr w' = rdr w"
    using more_eq [OF more] by simp_all
  have timer: "timer_active (Reconnect_timer p) (calls w') = timer_active (Reconnect_timer p) (calls w)" for p
    using cs socket_entries_reconnect by simp
  have "sock_linked w' r x" if "socks w' r = Some x" for r x
  proof -
    have "sock_linked w r x"
      using links_sock [OF w(1), of r x] link(1) socks that by (cases "r = q") simp_all
    then show ?thesis by (simp add: sock_linked_def eq)
  qed
  moreover have "wf_bounded (command_buf c) \<and> (\<exists>x. socks w' (conn_bs c) = Some x \<and> cbarg x = p)"
    if pc: "conns w' p = Some c" for p c
    using links_conn [OF w(1), of p c] pc eq(1) socks b link(2) by auto
  ultimately have "links_ok w'" by (simp add: links_ok_def)
  moreover have "alloc_ok w'" using w(2) by (simp add: alloc_ok_def eq timer brk)
  moreover have "rdr_ok w'" using w(3) by (simp add: rdr_ok_def eq)
  moreover have "conn_list w' xs" using w(4) by (simp only: conn_list_def eq)
  moreover have "recon_ok w' xs" using w(5) b st by (auto simp: recon_ok_def eq timer socks)
  moreover have "advances w w'" using b link(2) st by (auto simp: advances_def eq brk socks)
  ultimately show ?thesis using si by (auto simp: net_inv_def)
qed

lemma keeps_drain [keeps_rules]:
  "keeps P (upd_sock q (\<lambda>b. b\<lparr>read_buf := buffer_drain n (read_buf b)\<rparr>))"
proof (rule keepsI)
  fix w w' assume inv: "net_inv w"
    and run: "upd_sock q (\<lambda>b. b\<lparr>read_buf := buffer_drain n (read_buf b)\<rparr>) w = Inr w'"
  then obtain b where b: "socks w q = Some b"
    by (auto simp: upd_sock_def on_sock_def split: option.splits)
  let ?b = "b\<lparr>read_buf := buffer_drain n (read_buf b)\<rparr>"
  have w': "w' = w\<lparr>socks := (socks w)(q \<mapsto> ?b)\<rparr>" using run b by (simp add: sock_simps)
  have ok: "sock_ok (calls w) q b" using net_inv_socks [OF inv] b by (rule socks_inv_sock)
  moreover have "offset (buffer_drain n (read_buf b)) \<le> offset (read_buf b)"
    by (simp add: buffer_drain_def buffer_reset_def)
  ultimately have "sock_ok (calls w) q ?b" by (auto simp: sock_ok_def wf_bounded_drain)
  then have "socks_inv w'"
    using socks_inv_brk [OF net_inv_socks [OF inv] b]
    by (intro socks_inv_step [OF net_inv_socks [OF inv], where q = q and cs = "[]" and x = "Some ?b"])
      (simp_all add: w')
  moreover have "same_links w w'"
    by (rule same_links_upd [OF b, where cs = "[]" and b' = ?b]) (simp_all add: w' same_link_def)
  ultimately show "net_inv w' \<and> advances w w'" by (rule same_links_net [OF inv])
qed

text \<open>The socket \<open>q\<close> and the connection \<open>p\<close> belong together, if they are still there.\<close>

definition joined :: "ptr \<Rightarrow> ptr \<Rightarrow> nsq_world \<Rightarrow> bool" where
  "joined q p w \<longleftrightarrow> q < brk w \<and> p < brk w \<and> (\<forall>b. socks w q = Some b \<longrightarrow> cbarg b = p)
     \<and> (\<forall>c. conns w p = Some c \<longrightarrow> conn_bs c = q)"

definition joined_closed :: "ptr \<Rightarrow> ptr \<Rightarrow> nsq_world \<Rightarrow> bool" where
  "joined_closed q p w \<longleftrightarrow>
     joined q p w \<and> (\<forall>b. socks w q = Some b \<longrightarrow> state b = BS_DISCONNECTED)"

lemma advances_sock:
  "advances w w' \<Longrightarrow> q < brk w \<Longrightarrow> socks w' q = Some b' \<Longrightarrow>
    \<exists>b. socks w q = Some b \<and> cbarg b' = cbarg b
      \<and> (state b = BS_DISCONNECTED \<longrightarrow> state b' = BS_DISCONNECTED)"
  by (simp add: advances_def)

lemma advances_conn:
  "advances w w' \<Longrightarrow> p < brk w \<Longrightarrow> conns w' p = Some c' \<Longrightarrow>
    \<exists>c. conns w p = Some c \<and> conn_bs c' = conn_bs c"
  by (simp add: advances_def)

lemma joined_advances:
  assumes j: "joined q p w" and a: "advances w w'" shows "joined q p w'"
proof -
  have lt: "q < brk w" "p < brk w" "brk w \<le> brk w'"
    using j a by (simp_all add: joined_def advances_def)
  have "cbarg b' = p" if "socks w' q = Some b'" for b'
    using advances_sock [OF a lt(1) that] j by (auto simp: joined_def)
  moreover have "conn_bs c' = q" if "conns w' p = Some c'" for c'
    using advances_conn [OF a lt(2) that] j by (auto simp: joined_def)
  ultimately show ?thesis using lt by (simp add: joined_def)
qed

lemma lasting_joined: "lasting (joined q p)"
  by (auto simp: lasting_def intro: joined_advances)

lemma lasting_joined_closed: "lasting (joined_closed q p)"
  unfolding lasting_def
proof (intro allI impI)
  fix w w' assume j: "joined_closed q p w" and a: "advances w w'"
  have "q < brk w" using j by (simp add: joined_closed_def joined_def)
  then have "state b' = BS_DISCONNECTED" if "socks w' q = Some b'" for b'
    using advances_sock [OF a _ that] j by (auto simp: joined_closed_def)
  then show "joined_closed q p w'"
    using joined_advances [OF _ a] j by (simp add: joined_closed_def)
qed

lemma lasting_True [simp]: "lasting (\<lambda>_. True)"
  by (simp add: lasting_def)

lemma keeps_read_bytes:
  assumes "k = Nsqd_read_size \<or> k = Nsqd_read_data"
  shows "keeps (joined q p) (buffered_socket_read_bytes n k p q)"
proof (rule keepsI)
  fix w w' assume inv: "net_inv w" and j: "joined q p w"
    and run: "buffered_socket_read_bytes n k p q w = Inr w'"
  then obtain b where b: "socks w q = Some b"
    by (auto simp: buffered_socket_read_bytes_def on_sock_def split: option.splits)
  let ?b = "b\<lparr>read_bytes_callback := Some k, read_bytes_arg := p, read_bytes_n := n\<rparr>"
  let ?cs = "if n \<le> offset (read_buf b) then [Ev_timer_start (Read_bytes_timer q)] else []"
  have w': "w' = w\<lparr>socks := (socks w)(q \<mapsto> ?b), calls := ?cs @ calls w\<rparr>"
    using run b by (auto simp: buffered_socket_read_bytes_def sock_simps BUFFER_HAS_DATA_def
        split: if_splits)
  have "sock_linked w q b" using inv links_sock [OF _ b] by (simp add: net_inv_def)
  then have "sock_linked w q ?b" using assms j b by (auto simp: sock_linked_def joined_def)
  moreover have "socks_inv w'" using net_inv_socks [OF inv] run by (rule read_bytes_inv)
  ultimately show "net_inv w' \<and> advances w w'"
    by (intro sock_change_net [OF inv _ b, where b' = ?b and cs = ?cs])
      (simp_all add: w' socket_entry_def)
qed

subsection \<open>Lists and lifetimes\<close>

definition unlisted :: "ptr \<Rightarrow> nsq_world \<Rightarrow> bool" where
  "unlisted p w \<longleftrightarrow> (\<forall>xs. conn_list w xs \<longrightarrow> p \<notin> set xs)"

lemma conn_list_unique: "conn_list w xs \<Longrightarrow> conn_list w ys \<Longrightarrow> xs = ys"
  by (auto simp: conn_list_def ll_rep_def dest: ll_list_unique split: option.splits)

lemma unlistedI: "conn_list w xs \<Longrightarrow> p \<notin> set xs \<Longrightarrow> unlisted p w"
  using conn_list_unique by (auto simp: unlisted_def)

text \<open>A connection whose reconnect timer runs is closed and in no list.\<close>

definition closed_conn :: "ptr \<Rightarrow> nsq_world \<Rightarrow> bool" where
  "closed_conn p w \<longleftrightarrow> (\<forall>c b. conns w p = Some c \<longrightarrow> socks w (conn_bs c) = Some b \<longrightarrow>
     state b = BS_DISCONNECTED)"

lemma timer_unlisted:
  assumes "net_inv w" and "timer_active (Reconnect_timer p) (calls w)"
  shows "unlisted p w \<and> closed_conn p w"
proof -
  obtain xs where "conn_list w xs" "recon_ok w xs" using assms(1) by (rule net_invE)
  then show ?thesis
    using assms(2) unlistedI [of w xs p] by (auto simp: recon_ok_def closed_conn_def)
qed

text \<open>A list operation that rewrites \<^verbatim>\<open>next\<close> fields and the head only.\<close>

lemma relist_net:
  assumes inv: "net_inv w" and r: "rdr w = Some r"
    and w': "w' = w\<lparr>conns := hp, rdr := Some (r\<lparr>conns_head := h\<rparr>)\<rparr>"
    and next_only: "\<forall>x d. conns w x = Some d \<longrightarrow> (\<exists>n. hp x = Some (set_conn_next n d)) \<or> hp x = conns w x"
    and dom: "dom hp = dom (conns w)"
    and rep: "\<And>xs. conn_list w xs \<Longrightarrow> recon_ok w xs \<Longrightarrow> ll_rep conn_next hp h (f xs)
               \<and> (\<forall>p \<in> set (f xs) - set xs. \<not> timer_active (Reconnect_timer p) (calls w))"
  shows "net_inv w' \<and> advances w w'"
proof (rule heap_like_net [OF inv])
  show "socks_inv w'" using net_inv_socks [OF inv] by (simp add: w' socks_inv_def)
  have "rel_option conn_like (conns w p) (hp p)" for p
  proof (cases "conns w p")
    case None
    then have "hp p = None" using dom by (metis domIff)
    with None show ?thesis by simp
  next
    case (Some d)
    then have "(\<exists>n. hp p = Some (set_conn_next n d)) \<or> hp p = Some d" using next_only by metis
    with Some show ?thesis by (auto simp: conn_like_def set_conn_next_def)
  qed
  then show like: "heap_like w w'"
    using inv by (simp add: heap_like_def w' net_inv_def alloc_ok_def)
  show "rdr_ok w'" using inv r by (simp add: net_inv_def rdr_ok_def w')
  fix xs assume xs: "conn_list w xs" "recon_ok w xs"
  have "recon_ok w' xs" using recon_ok_like [OF xs(2) like order_refl] .
  then have "recon_ok w' (f xs)"
    using rep [OF xs] by (auto simp: recon_ok_def w')
  moreover have "conn_list w' (f xs)" using rep [OF xs] by (simp add: conn_list_def w')
  ultimately show "\<exists>ys. conn_list w' ys \<and> recon_ok w' ys" by blast
qed

lemma delete_conn_net:
  assumes inv: "net_inv w" and run: "delete_conn p w = Inr w'" and p: "p \<noteq> 0"
  shows "net_inv w' \<and> advances w w' \<and> unlisted p w'"
proof -
  obtain r h hp where r: "rdr w = Some r"
      and del: "LL_DELETE conn_next set_conn_next (conns_head r) p (conns w) = Inr (h, hp)"
      and w': "w' = w\<lparr>conns := hp, rdr := Some (r\<lparr>conns_head := h\<rparr>)\<rparr>"
    using run by (auto simp: delete_conn_def on_rdr_def bind_res_Inr_iff split: option.splits)
  obtain xs where xs: "conn_list w xs" using inv by (rule net_invE)
  then have rep: "ll_rep conn_next (conns w) (conns_head r) xs" by (simp add: conn_list_def r)
  have ys: "ll_rep conn_next hp h (remove1 p xs)"
    and next_only: "\<forall>x d. conns w x = Some d \<longrightarrow> (\<exists>n. hp x = Some (set_conn_next n d)) \<or> hp x = conns w x"
    and dom: "dom hp = dom (conns w)"
  proof -
    consider (listed) "p \<in> set xs" | (missing) "p \<notin> set xs" "xs \<noteq> []" | (empty) "xs = []" by auto
    then have "ll_rep conn_next hp h (remove1 p xs)
      \<and> (\<forall>x d. conns w x = Some d \<longrightarrow> (\<exists>n. hp x = Some (set_conn_next n d)) \<or> hp x = conns w x)
      \<and> dom hp = dom (conns w)"
    proof cases
      case listed
      then show ?thesis using conn_list.delete_removes [OF rep] del by fastforce
    next
      case missing
      then show ?thesis
        using conn_list.delete_missing [OF rep] del rep by (simp add: remove1_idem)
    next
      case empty
      then have "conns_head r = 0" using rep by (simp add: ll_rep_def)
      then show ?thesis using del conn_list.delete_from_empty [OF p] by simp
    qed
    then show "ll_rep conn_next hp h (remove1 p xs)"
      "\<forall>x d. conns w x = Some d \<longrightarrow> (\<exists>n. hp x = Some (set_conn_next n d)) \<or> hp x = conns w x"
      "dom hp = dom (conns w)" by simp_all
  qed
  have "net_inv w' \<and> advances w w'"
  proof (rule relist_net [OF inv r w' next_only dom, where f = "remove1 p"])
    fix zs assume "conn_list w zs"
    then have "zs = xs" using xs by (rule conn_list_unique)
    then show "ll_rep conn_next hp h (remove1 p zs)
        \<and> (\<forall>x \<in> set (remove1 p zs) - set zs. \<not> timer_active (Reconnect_timer x) (calls w))"
      using ys set_remove1_subset [of p zs] by blast
  qed
  moreover have "unlisted p w'"
    using ys rep by (intro unlistedI [of w' "remove1 p xs"])
      (simp_all add: conn_list_def w' ll_rep_def)
  ultimately show ?thesis by simp
qed

lemma append_conn_net:
  assumes inv: "net_inv w" and run: "append_conn p w = Inr w'" and c: "conns w p = Some c"
    and p: "p \<noteq> 0" "unlisted p w" "\<not> timer_active (Reconnect_timer p) (calls w)"
  shows "net_inv w' \<and> advances w w'"
proof -
  obtain r h hp where r: "rdr w = Some r"
      and app: "LL_APPEND conn_next set_conn_next (conns_head r) p (conns w) = Inr (h, hp)"
      and w': "w' = w\<lparr>conns := hp, rdr := Some (r\<lparr>conns_head := h\<rparr>)\<rparr>"
    using run by (auto simp: append_conn_def on_rdr_def bind_res_Inr_iff split: option.splits)
  obtain xs where xs: "conn_list w xs" using inv by (rule net_invE)
  then have rep: "ll_rep conn_next (conns w) (conns_head r) xs" by (simp add: conn_list_def r)
  have "p \<notin> set xs" using p(2) xs by (simp add: unlisted_def)
  note new = conn_list.append_appends [OF rep c p(1) this]
  then have ys: "ll_rep conn_next hp h (xs @ [p])"
    and next_only: "\<forall>x d. conns w x = Some d \<longrightarrow> (\<exists>n. hp x = Some (set_conn_next n d)) \<or> hp x = conns w x"
    and dom: "dom hp = dom (conns w)" using app by auto
  show ?thesis
  proof (rule relist_net [OF inv r w' next_only dom, where f = "\<lambda>zs. zs @ [p]"])
    fix zs assume "conn_list w zs"
    then have "zs = xs" using xs by (rule conn_list_unique)
    then show "ll_rep conn_next hp h (zs @ [p])
        \<and> (\<forall>x \<in> set (zs @ [p]) - set zs. \<not> timer_active (Reconnect_timer x) (calls w))"
      using ys p(3) by auto
  qed
qed

text \<open>Freeing a connection, and its socket with it, once it is closed and unlisted.\<close>

lemma free_pair_net:
  assumes inv: "net_inv w" and c: "conns w p = Some c" and b: "socks w (conn_bs c) = Some b"
    and closed: "state b = BS_DISCONNECTED" and un: "unlisted p w"
    and w': "w' = w\<lparr>socks := (socks w)(conn_bs c := None), conns := (conns w)(p := None)\<rparr>"
  shows "net_inv w' \<and> advances w w'"
proof -
  obtain xs where w: "socks_inv w" "links_ok w" "alloc_ok w" "rdr_ok w" "conn_list w xs" "recon_ok w xs"
    using inv by (rule net_invE)
  have pc: "cbarg b = p" using links_conn [OF w(2) c] b by auto
  have "free_buffered_socket (conn_bs c) w = Inr (w\<lparr>socks := (socks w)(conn_bs c := None)\<rparr>)"
    using b by (simp add: free_buffered_socket_def)
  then have "socks_inv (w\<lparr>socks := (socks w)(conn_bs c := None)\<rparr>)"
    using b closed by (intro free_socket_inv [OF w(1)]) auto
  then have "socks_inv w'" by (simp add: w' socks_inv_def)
  moreover have "sock_linked w' q x" if x: "socks w' q = Some x" for q x
  proof -
    have q: "q \<noteq> conn_bs c" "socks w q = Some x" using x by (auto simp: w' split: if_splits)
    have l: "sock_linked w q x" using links_sock [OF w(2) q(2)] .
    then have "cbarg x \<noteq> p" using q(1) c by (auto simp: sock_linked_def)
    with l show ?thesis by (simp add: sock_linked_def w')
  qed
  moreover have "wf_bounded (command_buf d) \<and> (\<exists>x. socks w' (conn_bs d) = Some x \<and> cbarg x = r)"
    if d: "conns w' r = Some d" for r d
  proof -
    have r: "r \<noteq> p" "conns w r = Some d" using d by (auto simp: w' split: if_splits)
    then obtain x where x: "wf_bounded (command_buf d)" "socks w (conn_bs d) = Some x" "cbarg x = r"
      using links_conn [OF w(2) r(2)] by blast
    then have "conn_bs d \<noteq> conn_bs c" using r(1) pc b by auto
    with x show ?thesis by (simp add: w')
  qed
  ultimately have 1: "socks_inv w'" "links_ok w'" by (simp_all add: links_ok_def)
  have "p \<notin> set xs" using un w(5) by (simp add: unlisted_def)
  then have "conn_list w' xs"
    using w(5) by (auto simp: conn_list_def w' ll_rep_def ll_list_upd split: option.splits)
  moreover have "recon_ok w' xs" using w(6) by (auto simp: recon_ok_def w')
  moreover have "alloc_ok w'" "rdr_ok w'" "advances w w'"
    using w by (auto simp: alloc_ok_def rdr_ok_def advances_def w')
  ultimately show ?thesis using 1 by (auto simp: net_inv_def)
qed

lemma stop_timer_net:
  assumes inv: "net_inv w" and run: "nsqd_connection_stop_timer p w = Inr w'"
  shows "net_inv w' \<and> advances w w' \<and> (unlisted p w \<longrightarrow> unlisted p w')
    \<and> (\<forall>q. map_option conn_bs (conns w' q) = map_option conn_bs (conns w q)) \<and> socks w' = socks w"
proof -
  let ?upd = "upd_conn p (reconnect_timer_update (\<lambda>_. Timer_dangling))"
  have "keeps (\<lambda>_. True) (block [emit (Ev_timer_stop (Reconnect_timer p)), ?upd])"
    by (intro keeps_block) (simp_all add: keeps_emit keeps_upd_conn_any conn_like_def)
  then have "keeps (\<lambda>_. True) (nsqd_connection_stop_timer p)"
    unfolding nsqd_connection_stop_timer_def
    by (intro keeps_if keeps_Inr keeps_on_conn_any) (auto split: timer_ptr.split intro: keeps_Inr keeps_fail)
  then have 1: "net_inv w' \<and> advances w w'" using inv run by (simp add: keeps_def)
  have same: "rdr w' = rdr w \<and> socks w' = socks w
      \<and> (\<forall>q. map_option conn_next (conns w' q) = map_option conn_next (conns w q)
           \<and> map_option conn_bs (conns w' q) = map_option conn_bs (conns w q))"
    using run
    by (auto simp: nsqd_connection_stop_timer_def on_conn_def upd_conn_def emit_def
        split: if_splits option.splits timer_ptr.splits)
  then have "conn_list w' xs = conn_list w xs" for xs
    using ll_list_cong [of xs conn_next "conns w'" "conns w"]
    by (auto simp: conn_list_def ll_rep_def split: option.split)
  then show ?thesis using 1 same by (auto simp: unlisted_def)
qed

lemma free_conn_net:
  assumes inv: "net_inv w" and run: "free_nsqd_connection p w = Inr w'"
    and un: "unlisted p w" and closed: "closed_conn p w"
  shows "net_inv w' \<and> advances w w'"
proof (cases "p = 0")
  case True
  then show ?thesis using inv run by (simp add: free_nsqd_connection_def advances_refl)
next
  case False
  then obtain w1 w2 where w1: "nsqd_connection_stop_timer p w = Inr w1"
      and w2: "on_conn p (\<lambda>c. free_buffered_socket (conn_bs c)) w1 = Inr w2"
      and w': "w' = w2\<lparr>conns := (conns w2)(p := None)\<rparr>"
    using run by (auto simp: free_nsqd_connection_def bind_res_Inr_iff)
  note 1 = stop_timer_net [OF inv w1]
  obtain c b where c: "conns w1 p = Some c" and b: "socks w1 (conn_bs c) = Some b"
      and w2': "w2 = w1\<lparr>socks := (socks w1)(conn_bs c := None)\<rparr>"
    using w2 by (auto simp: on_conn_def free_buffered_socket_def split: option.splits)
  obtain c0 where "conns w p = Some c0" "conn_bs c0 = conn_bs c"
    using 1 c by (metis map_option_eq_Some)
  then have "state b = BS_DISCONNECTED" using closed 1 b by (auto simp: closed_conn_def)
  then have "net_inv w' \<and> advances w1 w'"
    using 1 un by (intro free_pair_net [OF _ c b]) (simp_all add: w' w2')
  then show ?thesis using 1 advances_trans by blast
qed

text \<open>Restarting the reconnect timer of a connection that is closed and unlisted.\<close>

lemma again_net:
  assumes inv: "net_inv w" and run: "ev_timer_again_reconnect p w = Inr w'"
    and un: "unlisted p w" and closed: "closed_conn p w"
  shows "net_inv w' \<and> advances w w'"
proof -
  obtain xs where w: "socks_inv w" "links_ok w" "alloc_ok w" "rdr_ok w" "conn_list w xs" "recon_ok w xs"
    using inv by (rule net_invE)
  obtain c where c: "conns w p = Some c"
      and w': "w' = w\<lparr>calls := Ev_timer_again (Reconnect_timer p) # calls w\<rparr>"
    using run by (auto simp: ev_timer_again_reconnect_def on_conn_def emit_def
        split: option.splits timer_ptr.splits)
  have "socks_inv w'" unfolding w' by (rule socks_inv_emit [OF w(1)]) simp
  moreover have "links_ok w'" using w(2) by (simp add: links_ok_def sock_linked_def w')
  moreover have "alloc_ok w'" using w(3) c by (auto simp: alloc_ok_def w')
  moreover have "rdr_ok w'" "conn_list w' xs"
    using w(4,5) by (simp_all add: rdr_ok_def conn_list_def w' split: option.splits)
  moreover have "recon_ok w' xs"
    using w(5,6) un closed by (auto simp: recon_ok_def w' unlisted_def closed_conn_def)
  moreover have "advances w w'" by (simp add: advances_def w')
  ultimately show ?thesis by (auto simp: net_inv_def)
qed

subsection \<open>The callbacks\<close>

text \<open>An application whose callbacks keep the invariant.\<close>

definition app_ok :: "application \<Rightarrow> bool" where
  "app_ok app \<longleftrightarrow>
     (\<forall>f p. app_connect app = Some f \<longrightarrow> keeps (\<lambda>_. True) (f p))
     \<and> (\<forall>f p. app_close app = Some f \<longrightarrow> keeps (\<lambda>_. True) (f p))
     \<and> (\<forall>f p m. app_msg app = Some f \<longrightarrow> length (id_bytes m) = 17 \<longrightarrow> keeps (\<lambda>_. True) (f p m))"

lemma keeps_top: "keeps (\<lambda>_. True) f \<Longrightarrow> keeps P f"
  by (rule keeps_weaken) simp_all

text \<open>The commands that the reader sends with its own topic, channel and credit.\<close>

lemma c_str_le: "length (c_str s) \<le> length s"
  by (simp add: strlen_le)

lemma keeps_rdr_command:
  assumes "\<And>j r. f j r = send_command j (c r)"
    and "\<And>r. int_range (max_in_flight r) \<Longrightarrow> length (topic r) < 2 ^ 29 \<Longrightarrow>
      length (channel r) < 2 ^ 29 \<Longrightarrow> command_args_ok (c r) \<and> length (command_bytes (c r)) < 2 ^ 31"
  shows "keeps P (on_rdr (\<lambda>r. write_command (\<lambda>j. f j r) p))"
proof (rule keepsI)
  fix w w' assume inv: "net_inv w" and run: "on_rdr (\<lambda>r. write_command (\<lambda>j. f j r) p) w = Inr w'"
  then obtain r where r: "rdr w = Some r" and wr: "write_command (\<lambda>j. f j r) p w = Inr w'"
    by (auto simp: on_rdr_def split: option.splits)
  have "rdr_ok w" using inv by (simp add: net_inv_def)
  then have "command_args_ok (c r) \<and> length (command_bytes (c r)) < 2 ^ 31"
    using r by (intro assms(2)) (simp_all add: rdr_ok_def)
  then have "keeps (\<lambda>_. True) (write_command (\<lambda>j. f j r) p)"
    using assms(1) by (intro keeps_send_command [where c = "c r"]) simp_all
  then show "net_inv w' \<and> advances w w'" using inv wr by (simp add: keeps_def)
qed

lemma strlen_Cons [simp]: "strlen [] = 0" "strlen (x # s) = (if x = 0 then 0 else Suc (strlen s))"
  by (simp_all add: strlen_def)

lemma SUB_small:
  "length t < 2 ^ 29 \<Longrightarrow> length ch < 2 ^ 29 \<Longrightarrow>
    command_args_ok (SUB t ch) \<and> length (command_bytes (SUB t ch)) < 2 ^ 31"
  using strlen_le [of t] strlen_le [of ch]
  by (simp add: command_args_ok_def command_bytes_def command_pieces_def cmd_pieces_def wire_simps)

lemma RDY_small:
  "int_range n \<Longrightarrow> command_args_ok (RDY n) \<and> length (command_bytes (RDY n)) < 2 ^ 31"
  using length_sprintf_d [of n]
  by (simp add: command_args_ok_def command_bytes_def command_pieces_def cmd_pieces_def wire_simps)

lemma FIN_small:
  "length i < 2 ^ 30 \<Longrightarrow> command_args_ok (FIN i) \<and> length (command_bytes (FIN i)) < 2 ^ 31"
  using strlen_le [of i]
  by (simp add: command_args_ok_def command_bytes_def command_pieces_def cmd_pieces_def wire_simps)

lemma NOP_small: "command_args_ok NOP \<and> length (command_bytes NOP) < 2 ^ 31"
  by (simp add: command_args_ok_def command_bytes_def command_pieces_def cmd_pieces_def wire_simps)

lemma keeps_rdr_sub [keeps_rules]:
  "keeps P (on_rdr (\<lambda>r. write_command (\<lambda>j. nsq_subscribe j (topic r) (channel r)) p))"
  using SUB_small by (intro keeps_rdr_command [where c = "\<lambda>r. SUB (topic r) (channel r)"]) simp_all

lemma keeps_rdr_rdy [keeps_rules]:
  "keeps P (on_rdr (\<lambda>r. write_command (\<lambda>j. nsq_ready j (max_in_flight r)) p))"
  using RDY_small by (intro keeps_rdr_command [where c = "\<lambda>r. RDY (max_in_flight r)"]) simp_all

lemma keeps_nop [keeps_rules]: "keeps P (write_command nsq_nop p)"
  using NOP_small by (intro keeps_send_command [where c = NOP]) simp_all

end
