(* ===== verification/Reader_Client.thy ===== *)
theory Reader_Client
  imports Reader_Inv
begin

section \<open>The reader as a client of the socket layer\<close>

text \<open>
  The functions that nsqd_connection.c registers with a socket keep the invariant of the
  program, with the reader's callbacks behind them and any well-behaved application behind
  those. That makes the reader a client in the sense of \<open>socket_client\<close>, so every handler
  of buffered_socket.c keeps the invariant too.
\<close>

lemma keeps_case_option:
  "(x = None \<Longrightarrow> keeps P g) \<Longrightarrow> (\<And>y. x = Some y \<Longrightarrow> keeps P (f y)) \<Longrightarrow>
    keeps P (case x of None \<Rightarrow> g | Some y \<Rightarrow> f y)"
  by (cases x) simp_all

lemma keeps_case_option_app:
  "(x = None \<Longrightarrow> keeps P g) \<Longrightarrow> (\<And>y. x = Some y \<Longrightarrow> keeps P (f y)) \<Longrightarrow>
    keeps P (\<lambda>w. case x of None \<Rightarrow> g w | Some y \<Rightarrow> f y w)"
  by (cases x) simp_all

text \<open>The application's callbacks, recorded and run.\<close>

lemma keeps_app:
  "lasting P \<Longrightarrow> neutral c \<Longrightarrow> keeps (\<lambda>_. True) f \<Longrightarrow> keeps P (block [emit c, f])"
  by (intro keeps_block) (simp_all add: keeps_emit keeps_top)

lemma keeps_reader_connect_cb:
  assumes "app_ok app" and "lasting P"
  shows "keeps P (nsq_reader_connect_cb app p)"
proof -
  have "keeps P (case app_connect app of None \<Rightarrow> Inr | Some f \<Rightarrow> block [emit (User_connect p), f p])"
    using assms
    by (intro keeps_case_option keeps_Inr keeps_app) (simp_all add: app_ok_def)
  then show ?thesis
    unfolding nsq_reader_connect_cb_def using assms(2)
    by (intro keeps_block) (simp_all add: keeps_rules)
qed

lemma keeps_reader_msg_cb:
  assumes "app_ok app" and "lasting P" and "length (id_bytes msg) = 17"
  shows "keeps P (nsq_reader_msg_cb app p msg)"
  unfolding nsq_reader_msg_cb_def using assms
  by (intro keeps_on_rdr_any keeps_case_option keeps_Inr keeps_app) (simp_all add: app_ok_def terminate_id_def)

lemma decode_id_length: "nsq_decode_message j m a n = Inr msg \<Longrightarrow> length (id_bytes msg) = 17"
  by (auto simp: nsq_decode_message_def bind_res_Inr_iff Let_def dest: mem_read_length)

lemma joined_closed_conn: "joined_closed q p w \<Longrightarrow> closed_conn p w"
  by (auto simp: joined_closed_def joined_def closed_conn_def)

lemma keeps_reader_close_cb:
  assumes "app_ok app" and "p \<noteq> 0"
  shows "keeps (joined_closed q p) (nsq_reader_close_cb app p)"
proof (rule keepsI)
  fix w w' assume inv: "net_inv w" and j: "joined_closed q p w"
    and run: "nsq_reader_close_cb app p w = Inr w'"
  let ?call = "case app_close app of None \<Rightarrow> Inr | Some f \<Rightarrow> block [emit (User_close p), f p]"
  obtain w1 w2 where w1: "?call w = Inr w1" and w2: "delete_conn p w1 = Inr w2"
      and last: "on_rdr (\<lambda>r. if lookupd_head r = 0 then ev_timer_again_reconnect p
                  else free_nsqd_connection p) w2 = Inr w'"
    using run by (auto simp: nsq_reader_close_cb_def bind_res_Inr_iff)
  have "keeps (\<lambda>_. True) ?call"
    using assms(1) by (intro keeps_case_option keeps_Inr keeps_app) (simp_all add: app_ok_def)
  then have 1: "net_inv w1 \<and> advances w w1" using inv w1 by (simp add: keeps_def)
  then have 2: "net_inv w2 \<and> advances w1 w2 \<and> unlisted p w2"
    using delete_conn_net [OF _ w2 assms(2)] by simp
  have "joined_closed q p w2"
    using lasting_joined_closed j 1 2 unfolding lasting_def by blast
  then have closed: "closed_conn p w2" by (rule joined_closed_conn)
  have "ev_timer_again_reconnect p w2 = Inr w' \<or> free_nsqd_connection p w2 = Inr w'"
    using last by (simp add: on_rdr_def split: option.splits if_splits)
  then have "net_inv w' \<and> advances w2 w'"
    using 2 closed again_net [of w2 p w'] free_conn_net [of w2 p w'] by blast
  then show "net_inv w' \<and> advances w w'" using 1 2 advances_trans by blast
qed

subsection \<open>The functions of a connection\<close>

lemma keeps_connect_cb:
  assumes "app_ok app"
  shows "keeps (joined q p) (nsqd_connection_connect_cb (reader_cc app) q p)"
  unfolding nsqd_connection_connect_cb_def
  using keeps_reader_connect_cb [OF assms lasting_joined] keeps_read_bytes
  by (intro keeps_block lasting_joined)
    (simp add: reader_cc_def keeps_on_conn_any keeps_sock_write)

lemma keeps_read_size: "keeps (joined q p) (nsqd_connection_read_size q p)"
proof -
  have "keeps (joined q p) (on_sock q (\<lambda>b w.
      bind_res (mem_read (orig (read_buf b)) a 4) (\<lambda>bs.
        upd_conn p (current_msg_size_update (\<lambda>_. ntohl_at bs)) w)))" for a
    by (intro keeps_on_sock_any keeps_bind keeps_upd_conn_any) (simp add: conn_like_def)
  then show ?thesis
    unfolding nsqd_connection_read_size_def Let_def
    by (intro keeps_on_sock_any keeps_block lasting_joined)
      (simp add: keeps_drain keeps_on_conn_any keeps_read_bytes)
qed

lemma keeps_handle_frame:
  assumes "app_ok app" and "lasting P"
  shows "keeps P (handle_frame (reader_cc app) q p)"
proof -
  have "keeps P (block [reset_command_buf p, write_command nsq_nop p, flush_command_buf p])"
    using assms(2) by (intro keeps_block) (simp_all add: keeps_rules)
  then have "keeps P (\<lambda>w. bind_res (strncmp_eq m a heartbeat) (\<lambda>eq.
      if eq then block [reset_command_buf p, write_command nsq_nop p, flush_command_buf p] w
      else Inr w))" for m a
    by (intro keeps_bind keeps_if_app keeps_Inr)
  moreover have "keeps P (\<lambda>w. bind_res (nsq_decode_message (junk w) m a n) (\<lambda>msg.
      (case cc_msg (reader_cc app) of None \<Rightarrow> Inr w | Some f \<Rightarrow> f p msg w)))" for m a n
    using keeps_reader_msg_cb [OF assms] decode_id_length
    by (intro keeps_bind) (simp add: reader_cc_def)
  ultimately show ?thesis
    unfolding handle_frame_def
    by (intro keeps_on_conn_any keeps_on_sock_any keeps_if_app keeps_Inr)
qed

lemma keeps_read_data:
  assumes "app_ok app"
  shows "keeps (joined q p) (nsqd_connection_read_data (reader_cc app) q p)"
proof -
  have "keeps (joined q p) (on_sock q (\<lambda>b w.
      bind_res (mem_read (orig (read_buf b)) (data (read_buf b)) 4) (\<lambda>bs.
        upd_conn p (current_frame_type_update (\<lambda>_. ntohl_at bs)) w)))"
    by (intro keeps_on_sock_any keeps_bind keeps_upd_conn_any) (simp add: conn_like_def)
  moreover have "keeps (joined q p)
      (on_sock q (\<lambda>b. upd_conn p (current_data_update (\<lambda>_. data (read_buf b)))))"
    by (intro keeps_on_sock_any keeps_upd_conn_any) (simp add: conn_like_def)
  moreover have "keeps (joined q p) (upd_conn p (\<lambda>c. c\<lparr>current_msg_size := current_msg_size c - 4\<rparr>))"
    by (intro keeps_upd_conn_any) (simp add: conn_like_def)
  ultimately show ?thesis
    unfolding nsqd_connection_read_data_def
    using keeps_handle_frame [OF assms lasting_joined]
    by (intro keeps_block lasting_joined)
      (simp add: keeps_drain keeps_on_conn_any keeps_read_bytes)
qed

lemma joinedI:
  assumes "net_inv w" and "socks w q = Some b"
  shows "joined q (cbarg b) w \<and> cbarg b \<noteq> 0"
proof -
  have w: "socks_inv w" "links_ok w" "alloc_ok w" using assms(1) by (simp_all add: net_inv_def)
  obtain c where c: "conns w (cbarg b) = Some c" "conn_bs c = q"
    using links_sock [OF w(2) assms(2)] by (auto simp: sock_linked_def)
  have "cbarg b < brk w"
    using w(3) c(1) by (metis alloc_ok_def not_le option.distinct(1))
  moreover have "cbarg b \<noteq> 0" using w(3) c(1) by (metis alloc_ok_def option.distinct(1))
  ultimately show ?thesis
    using c assms(2) socks_inv_brk [OF w(1) assms(2)] by (simp add: joined_def)
qed

lemma nsqd_call_net:
  assumes ok: "app_ok app" and inv: "net_inv w" and b: "socks w q = Some b"
    and may: "may_call k arg b" and run: "nsqd_call (reader_cc app) k q arg w = Inr w'"
  shows "net_inv w' \<and> advances w w'"
proof -
  have arg: "arg = cbarg b" using may by (simp add: may_call_def)
  then have j: "joined q arg w" "arg \<noteq> 0" using joinedI [OF inv b] by simp_all
  have link: "sock_linked w q b" using inv links_sock [OF _ b] by (simp add: net_inv_def)
  show ?thesis
  proof (cases k)
    case Nsqd_connect_cb
    then show ?thesis using keepsD [OF keeps_connect_cb [OF ok] inv j(1)] run by simp
  next
    case Nsqd_close_cb
    then have "state b = BS_DISCONNECTED" using may link by (auto simp: may_call_def sock_linked_def)
    then have "joined_closed q arg w" using j(1) b by (simp add: joined_closed_def)
    moreover have "nsq_reader_close_cb app arg w = Inr w'"
      using run Nsqd_close_cb
      by (auto simp: nsqd_connection_close_cb_def reader_cc_def on_conn_def split: option.splits)
    ultimately show ?thesis using keepsD [OF keeps_reader_close_cb [OF ok j(2)] inv] by blast
  next
    case Nsqd_error_cb
    then show ?thesis using run inv by (simp add: nsqd_connection_error_cb_def advances_refl)
  next
    case Nsqd_read_size
    then show ?thesis using may link by (auto simp: may_call_def sock_linked_def)
  next
    case Nsqd_read_data
    then show ?thesis using may link by (auto simp: may_call_def sock_linked_def)
  qed
qed

lemma nsqd_call_bytes_net:
  assumes ok: "app_ok app" and inv: "net_inv w" and b: "socks w q = Some b"
    and k: "read_bytes_callback b = Some k"
    and inv1: "net_inv w1" and b1: "socks w1 q = Some (withdraw_read b)"
    and run: "nsqd_call (reader_cc app) k q (read_bytes_arg b) w1 = Inr w'"
  shows "net_inv w'"
proof -
  have "sock_linked w q b" using inv links_sock [OF _ b] by (simp add: net_inv_def)
  then have arg: "read_bytes_arg b = cbarg (withdraw_read b)"
      and k2: "k = Nsqd_read_size \<or> k = Nsqd_read_data"
    using k by (simp_all add: sock_linked_def withdraw_read_def)
  have j: "joined q (read_bytes_arg b) w1" using joinedI [OF inv1 b1] arg by simp
  from k2 show ?thesis
  proof
    assume "k = Nsqd_read_size"
    then show ?thesis using keepsD [OF keeps_read_size inv1 j] run by simp
  next
    assume "k = Nsqd_read_data"
    then show ?thesis using keepsD [OF keeps_read_data [OF ok] inv1 j] run by simp
  qed
qed

subsection \<open>Interpretation\<close>

locale reader_app =
  fixes app :: application
  assumes callbacks_ok: "app_ok app"

sublocale reader_app \<subseteq> client: socket_client net_inv "nsqd_call (reader_cc app)"
proof
  fix w w' :: nsq_world
  show "net_inv w \<Longrightarrow> socks_inv w" by (rule net_inv_socks)
  show "net_inv w \<Longrightarrow> socks_inv w' \<Longrightarrow> same_links w w' \<Longrightarrow> net_inv w'"
    using same_links_net by blast
next
  fix w q b k arg w'
  assume "net_inv w" and "socks w q = Some b" and "may_call k arg b"
    and "nsqd_call (reader_cc app) k q arg w = Inr w'"
  then show "net_inv w'" using nsqd_call_net [OF callbacks_ok] by blast
qed (rule nsqd_call_bytes_net [OF callbacks_ok])

text \<open>The program of \<^verbatim>\<open>src/test.c\<close>.\<close>

lemma keeps_message_handler:
  assumes "length (id_bytes msg) = 17"
  shows "keeps P (message_handler p msg)"
proof (rule keeps_top)
  have "keeps (\<lambda>_. True) (write_command (\<lambda>j. nsq_finish j (id_bytes msg)) p)"
    using FIN_small [of "id_bytes msg"] assms
    by (intro keeps_send_command [where c = "FIN (id_bytes msg)"]) simp_all
  then show "keeps (\<lambda>_. True) (message_handler p msg)"
    unfolding message_handler_def by (intro keeps_block) (simp_all add: keeps_rules)
qed

lemma test_app_ok: "app_ok test_app"
  using keeps_message_handler by (simp add: app_ok_def test_app_def)

interpretation test_reader: reader_app test_app
  by unfold_locales (rule test_app_ok)

end
