(* ===== verification/Reader_Ops.thy ===== *)
theory Reader_Ops
  imports Reader_Client
begin

section \<open>The operations of the reader keep the invariant\<close>

text \<open>
  Creating and connecting a connection, the reconnect and the poll timer, adding an
  endpoint, the answer of a lookupd, and the callbacks of the HTTP client: each keeps the
  invariant of the program.
\<close>

subsection \<open>A new connection\<close>

lemma new_connection_net:
  assumes inv: "net_inv w" and run: "new_nsqd_connection address port w = Inr (p, w')"
  shows "net_inv w' \<and> advances w w' \<and> p = brk w \<and> p \<noteq> 0 \<and> unlisted p w' \<and> calls w' = calls w
    \<and> (\<exists>c b. conns w' p = Some c \<and> socks w' (conn_bs c) = Some b \<and> state b = BS_INIT)"
proof -
  obtain xs where w: "socks_inv w" "links_ok w" "alloc_ok w" "rdr_ok w" "conn_list w xs" "recon_ok w xs"
    using inv by (rule net_invE)
  obtain r where r: "rdr w = Some r"
    using run by (auto simp: new_nsqd_connection_def on_rdr_def split: option.splits)
  have cfg: "cfg_ok (cfg r)" using w(4) r by (simp add: rdr_ok_def)
  let ?q = "brk w + 1"
  let ?w1 = "w\<lparr>brk := ?q\<rparr>"
  obtain w2 where w2: "new_buffered_socket address port
      (read_buf_len (cfg r)) (read_buf_capacity (cfg r)) (write_buf_len (cfg r))
      (write_buf_capacity (cfg r)) (Some Nsqd_connect_cb) (Some Nsqd_close_cb) None None
      (Some Nsqd_error_cb) (brk w) ?w1 = (?q, w2)"
    by (simp add: new_buffered_socket_def Let_def)
  obtain b where b: "w2 = ?w1\<lparr>socks := (socks w)(?q \<mapsto> b), brk := ?q + 1\<rparr>"
      "cbarg b = brk w" "state b = BS_INIT" "connect_callback b = Some Nsqd_connect_cb"
      "close_callback b = Some Nsqd_close_cb" "error_callback b = Some Nsqd_error_cb"
      "read_bytes_callback b = None"
    using w2 by (auto simp: new_buffered_socket_def Let_def)
  obtain c where p: "p = brk w" and w': "w' = w2\<lparr>conns := (conns w)(brk w \<mapsto> c)\<rparr>"
      and c: "conn_bs c = ?q" "command_buf c = new_buffer (junk w) (command_buf_len (cfg r))
        (command_buf_capacity (cfg r))"
    using run r w2 b(1) by (auto simp: new_nsqd_connection_def on_rdr_def Let_def)
  have "socks_inv ?w1" using w(1) by (simp add: socks_inv_def)
  then have "socks_inv w2"
    using cfg by (intro new_socket_inv [OF _ _ _ _ _ _ _ _ _ w2]) (simp_all add: cfg_ok_def)
  then have si: "socks_inv w'" by (simp add: w' socks_inv_def)
  have fresh: "conns w (brk w) = None" "socks w ?q = None" "socks w (brk w) = None"
      "\<not> timer_active (Reconnect_timer (brk w)) (calls w)"
    using w(1,3) by (simp_all add: alloc_ok_def socks_inv_def)
  have wb: "wf_bounded (command_buf c)"
    using cfg by (simp add: c(2) wf_bounded_def wf_new_buffer cfg_ok_def) (simp add: new_buffer_def)
  have old: "conn_bs d \<noteq> ?q" if "conns w x = Some d" for x d
    using links_conn [OF w(2) that] fresh(2) by auto
  have new_or_old: "x = brk w \<and> d = c \<or> x \<noteq> brk w \<and> conns w x = Some d" if "conns w' x = Some d" for x d
    using that by (auto simp: w' split: if_splits)
  have "sock_linked w' s x" if x: "socks w' s = Some x" for s x
  proof (cases "s = ?q")
    case True
    then show ?thesis using x b c by (simp add: sock_linked_def w')
  next
    case False
    then have "socks w s = Some x" using x b(1) by (simp add: w')
    then have l: "sock_linked w s x" using links_sock [OF w(2)] by blast
    then have "cbarg x \<noteq> brk w" using fresh(1) by (auto simp: sock_linked_def)
    with l show ?thesis by (simp add: sock_linked_def w' b(1))
  qed
  moreover have "wf_bounded (command_buf d) \<and> (\<exists>x. socks w' (conn_bs d) = Some x \<and> cbarg x = y)"
    if d: "conns w' y = Some d" for y d
    using new_or_old [OF d]
  proof
    assume "y = brk w \<and> d = c"
    then show ?thesis using wb b c by (simp add: w')
  next
    assume y: "y \<noteq> brk w \<and> conns w y = Some d"
    then obtain x where x: "wf_bounded (command_buf d)" "socks w (conn_bs d) = Some x" "cbarg x = y"
      using links_conn [OF w(2)] by blast
    moreover have "conn_bs d \<noteq> ?q" using y old by blast
    ultimately show ?thesis by (simp add: w' b(1))
  qed
  ultimately have "links_ok w'" by (simp add: links_ok_def)
  moreover have "alloc_ok w'" using w(3) by (simp add: alloc_ok_def w' b(1))
  moreover have "rdr_ok w'" using w(4) by (simp add: rdr_ok_def w' b(1))
  moreover have notin: "brk w \<notin> set xs"
    using w(5) r fresh(1) ll_rep_mem [of conn_next "conns w" "conns_head r" xs "brk w"]
    by (auto simp: conn_list_def)
  then have list: "conn_list w' xs"
    using w(5) r by (simp add: conn_list_def w' b(1) ll_rep_def ll_list_upd)
  moreover have "recon_ok w' xs"
    using w(6) fresh(4) old by (auto simp: recon_ok_def w' b(1))
  moreover have "advances w w'"
    using fresh by (auto simp: advances_def w' b(1))
  moreover have "unlisted p w'" using unlistedI [OF list notin] p by simp
  moreover have "brk w \<noteq> 0" using w(3) by (simp add: alloc_ok_def)
  ultimately show ?thesis using si p b c by (auto simp: net_inv_def w')
qed

lemma connect_net:
  assumes inv: "net_inv w" and c: "conns w p = Some c" and b: "socks w (conn_bs c) = Some b"
    and st: "state b = BS_INIT" and run: "nsqd_connection_connect env p w = Inr (rc, w')"
  shows "net_inv w' \<and> advances w w' \<and> conns w' = conns w
    \<and> (\<exists>cs. calls w' = cs @ calls w \<and> list_all socket_entry cs)
    \<and> (\<forall>xs. conn_list w' xs = conn_list w xs)"
proof -
  let ?q = "conn_bs c"
  have run': "buffered_socket_connect env ?q w = Inr (rc, w')"
    using run c by (simp add: nsqd_connection_connect_def on_conn_def)
  have w': "w' = w\<lparr>socks := (socks w)(?q \<mapsto> connect_sock env b),
      calls := connect_calls env ?q @ calls w, errno := connect_errno_after env (errno w)\<rparr>"
    using run' connect_eq [OF b, of env] st by simp
  have "socks_inv w'"
    using b st by (intro connect_inv [OF net_inv_socks [OF inv] _ run']) simp
  moreover have "sock_linked w ?q b" using inv links_sock [OF _ b] by (simp add: net_inv_def)
  then have "sock_linked w ?q (connect_sock env b)"
    by (simp add: sock_linked_def connect_sock_def split: connect_outcome.split)
  moreover have "cbarg (connect_sock env b) = cbarg b"
    by (simp add: connect_sock_def split: connect_outcome.split)
  moreover have cs: "list_all socket_entry (connect_calls env ?q)"
    by (simp add: connect_calls_def socket_entry_def split: connect_outcome.split)
  ultimately have "net_inv w' \<and> advances w w'"
    using st by (intro sock_change_net [OF inv _ b, where b' = "connect_sock env b"
          and cs = "connect_calls env ?q"]) (simp_all add: w')
  moreover have "rdr w' = rdr w" "conns w' = conns w" by (simp_all add: w')
  ultimately show ?thesis using cs by (auto simp: w' conn_list_def cong: option.case_cong)
qed

text \<open>Connecting stops no reconnect timer.\<close>

lemma connect_to_nsqd_net:
  assumes inv: "net_inv w" and run: "nsq_reader_connect_to_nsqd net address port w = Inr (rc, w')"
  shows "net_inv w' \<and> advances w w' \<and> (\<forall>p. timer_active (Reconnect_timer p) (calls w) \<longrightarrow>
    timer_active (Reconnect_timer p) (calls w'))"
proof -
  obtain p w1 w2 w3 where new: "new_nsqd_connection address port w = Inr (p, w1)"
      and con: "nsqd_connection_connect (net p) p w1 = Inr (rc, w2)"
      and app: "(if 0 < rc then append_conn p w2 else Inr w2) = Inr w3"
      and tim: "on_rdr (\<lambda>r. if lookupd_head r = 0 then nsqd_connection_init_timer p else Inr) w3 = Inr w'"
    using run by (auto simp: nsq_reader_connect_to_nsqd_def bind_res_Inr_iff)
  obtain c b where 1: "net_inv w1" "advances w w1" "p = brk w" "p \<noteq> 0" "unlisted p w1"
      "calls w1 = calls w" and c: "conns w1 p = Some c" "socks w1 (conn_bs c) = Some b" "state b = BS_INIT"
    using new_connection_net [OF inv new] by blast
  note 2 = connect_net [OF 1(1) c con]
  have idle: "\<not> timer_active (Reconnect_timer p) (calls w)"
    using inv 1(3) by (simp add: net_inv_def alloc_ok_def)
  have same: "timer_active (Reconnect_timer x) (calls w2) = timer_active (Reconnect_timer x) (calls w)" for x
    using 2 socket_entries_reconnect 1(6) by auto
  have 3: "net_inv w3 \<and> advances w2 w3 \<and> calls w3 = calls w2"
  proof (cases "0 < rc")
    case True
    then have run3: "append_conn p w2 = Inr w3" using app by simp
    have "unlisted p w2" using 1(5) 2 by (simp add: unlisted_def)
    then have "net_inv w3 \<and> advances w2 w3"
      using 2 c(1) same idle by (intro append_conn_net [OF _ run3 _ 1(4)]) auto
    moreover have "calls w3 = calls w2"
      using run3 by (auto simp: append_conn_def on_rdr_def bind_res_Inr_iff split: option.splits)
    ultimately show ?thesis by simp
  next
    case False
    then show ?thesis using app 2 by (simp add: advances_refl)
  qed
  have "keeps (\<lambda>_. True) (on_rdr (\<lambda>r. if lookupd_head r = 0 then nsqd_connection_init_timer p else Inr))"
    unfolding nsqd_connection_init_timer_def
    by (intro keeps_on_rdr_any keeps_if keeps_upd_conn_any keeps_Inr) (simp add: conn_like_def)
  from keepsD [OF this _ _ tim] have 4: "net_inv w' \<and> advances w3 w'" using 3 by simp
  have "calls w' = calls w3"
    using tim by (auto simp: on_rdr_def nsqd_connection_init_timer_def upd_conn_def on_conn_def
        split: option.splits if_splits)
  then show ?thesis using 1(2) 2 3 4 same advances_trans by metis
qed

lemma reconnect_cb_net:
  assumes inv: "net_inv w" and t: "timer_active (Reconnect_timer p) (calls w)"
    and run: "nsq_reader_reconnect_cb net p w = Inr w'"
  shows "net_inv w' \<and> advances w w'"
proof -
  obtain c where c: "conns w p = Some c"
    using run by (auto simp: nsq_reader_reconnect_cb_def on_conn_def split: option.splits)
  obtain r where r: "rdr w = Some r"
    using run c by (auto simp: nsq_reader_reconnect_cb_def on_conn_def on_rdr_def split: option.splits)
  obtain w1 where free: "free_nsqd_connection p w1 = Inr w'"
      and con: "(if lookupd_head r = 0 then
          bind_res (nsq_reader_connect_to_nsqd net (conn_address c) (conn_port c) w)
            (\<lambda>(rc, w1). Inr w1) else Inr w) = Inr w1"
    using run c r unfolding nsq_reader_reconnect_cb_def on_conn_def on_rdr_def block.simps
      bind_res_Inr_iff by auto
  have 1: "net_inv w1 \<and> advances w w1 \<and> timer_active (Reconnect_timer p) (calls w1)"
  proof (cases "lookupd_head r = 0")
    case True
    then obtain rc where "nsq_reader_connect_to_nsqd net (conn_address c) (conn_port c) w = Inr (rc, w1)"
      using con by (auto simp: bind_res_Inr_iff)
    then show ?thesis using connect_to_nsqd_net [OF inv] t by blast
  next
    case False
    then show ?thesis using con inv t by (simp add: advances_refl)
  qed
  then have "unlisted p w1 \<and> closed_conn p w1" using timer_unlisted by blast
  then have "net_inv w' \<and> advances w1 w'" using free_conn_net [OF _ free] 1 by simp
  then show ?thesis using 1 advances_trans by blast
qed

subsection \<open>Changes outside sockets, connections and lists\<close>

text \<open>
  The HTTP structures are no part of the invariant: a procedure that changes these only, and
  allocates, keeps it.
\<close>

definition same_net :: "nsq_world \<Rightarrow> nsq_world \<Rightarrow> bool" where
  "same_net w w' \<longleftrightarrow> socks w' = socks w \<and> conns w' = conns w \<and> endpoints w' = endpoints w
     \<and> rdr w' = rdr w \<and> calls w' = calls w \<and> brk w \<le> brk w'"

lemma same_net_inv:
  assumes inv: "net_inv w" and same: "same_net w w'"
  shows "net_inv w' \<and> advances w w'"
proof (rule heap_like_frame [OF inv])
  show "socks_inv w'" using net_inv_socks [OF inv] same by (auto simp: socks_inv_def same_net_def)
  show "heap_like w w'"
    using inv same
    by (auto simp: heap_like_def same_net_def net_inv_def alloc_ok_def option.rel_refl)
qed (use same in \<open>simp_all add: same_net_def\<close>)

lemma keeps_same_net: "(\<And>w w'. f w = Inr w' \<Longrightarrow> same_net w w') \<Longrightarrow> keeps P f"
  by (simp add: keeps_def same_net_inv)

lemma keeps_upd_req: "keeps P (upd_req r f)"
  by (rule keeps_same_net)
    (auto simp: upd_req_def on_req_def same_net_def split: if_splits option.splits)

lemma keeps_on_req: "(\<And>x. keeps P (f x)) \<Longrightarrow> keeps P (on_req r f)"
  by (auto simp: keeps_def on_req_def split: if_splits option.splits)

lemma keeps_reqs: "keeps P (\<lambda>w. Inr (w\<lparr>reqs := g w\<rparr>))"
  by (rule keeps_same_net) (auto simp: same_net_def)

lemma keeps_http_socks: "keeps P (\<lambda>w. Inr (w\<lparr>http_socks := g w\<rparr>))"
  by (rule keeps_same_net) (auto simp: same_net_def)

lemma keeps_free_http_request: "lasting P \<Longrightarrow> keeps P (free_http_request r)"
  unfolding free_http_request_def
  by (intro keeps_if keeps_Inr keeps_on_req keeps_fail keeps_block)
    (simp_all add: keeps_emit keeps_reqs)

lemma keeps_free_http_response: "keeps P (free_http_response p)"
  by (rule keeps_same_net)
    (auto simp: free_http_response_def same_net_def split: if_splits option.splits)

text \<open>A procedure that returns a value besides the state.\<close>

definition keeps_ret :: "(nsq_world \<Rightarrow> fault + 'r \<times> nsq_world) \<Rightarrow> bool" where
  "keeps_ret f \<longleftrightarrow> (\<forall>w x w'. net_inv w \<longrightarrow> f w = Inr (x, w') \<longrightarrow> net_inv w' \<and> advances w w')"

lemma keeps_ret_bind:
  assumes "keeps_ret f" and "\<And>x. keeps (\<lambda>_. True) (g x)"
  shows "keeps P (\<lambda>w. bind_res (f w) (\<lambda>(x, w'). g x w'))"
proof (rule keepsI)
  fix w w' assume inv: "net_inv w" and run: "bind_res (f w) (\<lambda>(x, w'). g x w') = Inr w'"
  then obtain x w1 where w1: "f w = Inr (x, w1)" "g x w1 = Inr w'" by (auto simp: bind_res_Inr_iff)
  have 1: "net_inv w1 \<and> advances w w1" using assms(1) inv w1(1) by (auto simp: keeps_ret_def)
  then have "net_inv w' \<and> advances w1 w'" using keepsD [OF assms(2) _ _ w1(2)] 1 by simp
  then show "net_inv w' \<and> advances w w'" using 1 advances_trans by blast
qed

lemma keeps_ret_connect: "keeps_ret (nsq_reader_connect_to_nsqd net address port)"
  using connect_to_nsqd_net by (auto simp: keeps_ret_def)

lemma keeps_ret_request: "keeps_ret (new_http_request ok url)"
  unfolding keeps_ret_def
  by (auto simp: new_http_request_def Let_def same_net_def intro!: same_net_inv split: if_splits)

lemma keeps_ret_response: "keeps_ret (new_http_response code r)"
  unfolding keeps_ret_def
  by (auto simp: new_http_response_def Let_def same_net_def intro!: same_net_inv)

subsection \<open>The callbacks of the HTTP client\<close>

lemma keeps_write_cb: "keeps P (write_cb r src sz nmemb)"
  unfolding write_cb_def Let_def by (intro keeps_on_req keeps_bind keeps_upd_req)

lemma keeps_check_multi_info:
  assumes "\<And>r p. keeps (\<lambda>_. True) (hcall r p)"
  shows "keeps (\<lambda>_. True) (check_multi_info hcall ms)"
proof (induction ms)
  case Nil
  then show ?case by (simp add: keeps_def advances_refl)
next
  case (Cons m ms)
  show ?case
  proof (cases m)
    case (Curl_done r code)
    have "keeps (\<lambda>_. True) (on_req r (\<lambda>x w. bind_res (new_http_response code r w) (\<lambda>(p, w1). hcall r p w1)))"
      using assms by (intro keeps_on_req keeps_ret_bind keeps_ret_response)
    then have "keeps (\<lambda>_. True) (\<lambda>w. bind_res
        (on_req r (\<lambda>x w. bind_res (new_http_response code r w) (\<lambda>(p, w1). hcall r p w1)) w)
        (check_multi_info hcall ms))"
      using Cons by (intro keeps_seq) simp_all
    then show ?thesis by (simp add: Curl_done keeps_def)
  next
    case Curl_other_msg
    then show ?thesis using Cons by (simp add: keeps_def)
  qed
qed

lemma keeps_start_http_socket: "keeps (\<lambda>_. True) (start_http_socket s what sock)"
  unfolding start_http_socket_def
proof (rule keepsI)
  fix w w' assume inv: "net_inv w"
    and run: "(case http_socks w sock of None \<Rightarrow> Inl Use_after_free | Some x \<Rightarrow> block
          [if evset x then emit (Ev_io_stop (Http_io sock)) else Inr,
           (\<lambda>w. Inr (w\<lparr>http_socks := (http_socks w)(sock \<mapsto>
                   \<lparr>sockfd = s, action = what, ev_kind = poll_kind what, evset = True\<rparr>)\<rparr>)),
           emit (Ev_io_start (Http_io sock) s)] w) = Inr w'"
  have "keeps (\<lambda>_. True) (block
          [if evset x then emit (Ev_io_stop (Http_io sock)) else Inr,
           (\<lambda>w. Inr (w\<lparr>http_socks := (http_socks w)(sock \<mapsto>
                   \<lparr>sockfd = s, action = what, ev_kind = poll_kind what, evset = True\<rparr>)\<rparr>)),
           emit (Ev_io_start (Http_io sock) s)])" for x
    by (intro keeps_block) (simp_all add: keeps_emit keeps_Inr keeps_http_socks)
  then show "net_inv w' \<and> advances w w'"
    using inv run by (auto simp: keeps_def simp del: block.simps split: option.splits)
qed

lemma keeps_sock_cb: "keeps (\<lambda>_. True) (sock_cb s what sock)"
proof (rule keepsI)
  fix w w' assume inv: "net_inv w" and run: "sock_cb s what sock w = Inr w'"
  have stop: "keeps (\<lambda>_. True) (block [if evset x then emit (Ev_io_stop (Http_io sock)) else Inr,
      (\<lambda>w. Inr (w\<lparr>http_socks := (http_socks w)(sock := None)\<rparr>))])" for x
    by (intro keeps_block) (simp_all add: keeps_emit keeps_Inr keeps_http_socks)
  let ?new = "w\<lparr>brk := brk w + 1, http_socks := (http_socks w)(brk w \<mapsto>
      \<lparr>sockfd = 0, action = 0, ev_kind = 0, evset = False\<rparr>)\<rparr>"
  have 1: "net_inv ?new \<and> advances w ?new"
    by (rule same_net_inv [OF inv]) (simp add: same_net_def)
  have fresh: "keeps (\<lambda>_. True) (block [start_http_socket s what (brk w), emit (Curl_multi_assign s (brk w))])"
    by (intro keeps_block) (simp_all add: keeps_emit keeps_start_http_socket)
  consider (remove_null) "what = 4" "sock = 0" | (remove) "what = 4" "sock \<noteq> 0"
    | (create) "what \<noteq> 4" "sock = 0" | (restart) "what \<noteq> 4" "sock \<noteq> 0" by auto
  then show "net_inv w' \<and> advances w w'"
  proof cases
    case remove_null
    then show ?thesis using run inv by (simp add: sock_cb_def advances_refl)
  next
    case remove
    then show ?thesis using run inv stop
      by (auto simp: sock_cb_def keeps_def simp del: block.simps split: option.splits)
  next
    case create
    then have "block [start_http_socket s what (brk w), emit (Curl_multi_assign s (brk w))] ?new = Inr w'"
      using run by (simp add: sock_cb_def Let_def del: block.simps)
    then have "net_inv w' \<and> advances ?new w'" using keepsD [OF fresh] 1 by blast
    then show ?thesis using 1 advances_trans by blast
  next
    case restart
    then show ?thesis using run inv keeps_start_http_socket by (simp add: sock_cb_def keeps_def)
  qed
qed

text \<open>The mutual recursion through libcurl, by induction on the calls that libcurl makes.\<close>

definition kept :: "nsq_world \<Rightarrow> fault + nsq_world \<Rightarrow> bool" where
  "kept w r \<longleftrightarrow> (net_inv w \<longrightarrow> (\<forall>w'. r = Inr w' \<longrightarrow> net_inv w' \<and> advances w w'))"

lemma keeps_kept: "keeps (\<lambda>_. True) f \<longleftrightarrow> (\<forall>w. kept w (f w))"
  by (simp add: keeps_def kept_def)

lemma kept_bind: "kept w r \<Longrightarrow> (\<And>w1. kept w1 (g w1)) \<Longrightarrow> kept w (bind_res r g)"
  unfolding kept_def bind_res_Inr_iff by (metis advances_trans)

lemma kept_emit: "neutral c \<Longrightarrow> kept w (emit c w)"
  using keeps_emit [of c "\<lambda>_. True"] by (simp add: keeps_kept)

lemma curl_kept:
  "(\<forall>r p. keeps (\<lambda>_. True) (hcall r p)) \<longrightarrow> kept w (curl_callback hcall c w)"
  "(\<forall>r p. keeps (\<lambda>_. True) (hcall r p)) \<longrightarrow> kept w (curl_callbacks hcall cs w)"
  "(\<forall>r p. keeps (\<lambda>_. True) (hcall r p)) \<longrightarrow> kept w (multi_timer_cb hcall ms run w)"
  "(\<forall>r p. keeps (\<lambda>_. True) (hcall r p)) \<longrightarrow> kept w (timer_cb hcall run w)"
proof (induction hcall c w and hcall cs w and hcall ms run w and hcall run w
    rule: curl_callback_curl_callbacks_multi_timer_cb_timer_cb.induct)
  case (1 hcall r src sz nmemb w)
  show ?case using keeps_write_cb [of "\<lambda>_. True"] by (simp add: keeps_kept)
next
  case (2 hcall s what sock w)
  show ?case using keeps_sock_cb by (simp add: keeps_kept)
next
  case (3 hcall timeout_ms run w)
  then show ?case by simp
next
  case (4 hcall timeout_ms run w)
  have "keeps (\<lambda>_. True) (block [emit (Ev_timer_set Http_timer (timeout_ms div 1000)),
      emit (Ev_timer_start Http_timer)])"
    by (intro keeps_block) (simp_all add: keeps_emit)
  then have "kept w1 (block [emit (Ev_timer_set Http_timer (timeout_ms div 1000)),
      emit (Ev_timer_start Http_timer)] w1)" for w1
    by (simp add: keeps_kept del: block.simps)
  with 4 show ?case
    by (cases "0 < timeout_ms") (auto intro!: kept_bind kept_emit simp del: block.simps)
next
  case (5 hcall w)
  show ?case by (simp add: kept_def advances_refl)
next
  case (6 hcall c cs w)
  then show ?case by (auto intro!: kept_bind)
next
  case (7 hcall cs ms w)
  have "(\<forall>r p. keeps (\<lambda>_. True) (hcall r p)) \<longrightarrow> kept w1 (check_multi_info hcall ms w1)" for w1
    using keeps_check_multi_info [of hcall ms] by (simp add: keeps_kept)
  with 7 show ?case by (auto intro!: kept_bind kept_emit)
qed

lemma keeps_timer_cb:
  "(\<And>r p. keeps (\<lambda>_. True) (hcall r p)) \<Longrightarrow> keeps (\<lambda>_. True) (timer_cb hcall run)"
  using curl_kept(4) by (simp add: keeps_kept)

lemma keeps_event_cb:
  assumes "\<And>r p. keeps (\<lambda>_. True) (hcall r p)"
  shows "keeps (\<lambda>_. True) (event_cb hcall f revents run)"
proof (cases run)
  case (Curl_run cs ms)
  have "kept w (check_multi_info hcall ms w)" "kept w (curl_callbacks hcall cs w)" for w
    using keeps_check_multi_info [OF assms] curl_kept(2) [of hcall w cs] assms
    by (simp_all add: keeps_kept)
  then show ?thesis by (auto simp: Curl_run keeps_kept intro!: kept_bind kept_emit)
qed

lemma keeps_ret_get:
  assumes "\<And>r p. keeps (\<lambda>_. True) (hcall r p)"
  shows "keeps_ret (http_client_get hcall ok cs r)"
  unfolding keeps_ret_def
proof (intro allI impI)
  fix w x w' assume inv: "net_inv w" and run: "http_client_get hcall ok cs r w = Inr (x, w')"
  let ?rest = "if ok then block [emit (Curl_add_handle r), curl_callbacks hcall cs] else Inr"
  have "keeps (\<lambda>_. True) (curl_callbacks hcall cs)"
    using curl_kept(2) assms by (simp add: keeps_kept)
  then have "keeps (\<lambda>_. True) ?rest"
    by (intro keeps_if keeps_block keeps_Inr) (simp_all add: keeps_emit)
  then have "keeps (\<lambda>_. True) (\<lambda>w. bind_res (upd_req r (req_has_httpc_update (\<lambda>_. True)) w) ?rest)"
    by (intro keeps_seq keeps_upd_req) simp_all
  moreover have "bind_res (upd_req r (req_has_httpc_update (\<lambda>_. True)) w) ?rest = Inr w'"
    using run by (auto simp: http_client_get_def bind_res_Inr_iff simp del: block.simps split: if_splits)
  ultimately show "net_inv w' \<and> advances w w'" using inv by (simp add: keeps_def)
qed

subsection \<open>Lookupd\<close>

lemma keeps_lookupd_producer: "keeps P (lookupd_producer lib net producer)"
proof (rule keeps_top)
  have con: "keeps (\<lambda>_. True) (\<lambda>w. bind_res (nsq_reader_connect_to_nsqd net a port w) (\<lambda>(rc, w1). Inr w1))"
    for a port
    by (intro keeps_ret_bind keeps_ret_connect keeps_Inr)
  show "keeps (\<lambda>_. True) (lookupd_producer lib net producer)"
    unfolding lookupd_producer_def Let_def
    by (intro keeps_bind keeps_if_app keeps_Inr keeps_case_option_app keeps_fail con)
qed

lemma keeps_lookupd_request_cb: "keeps (\<lambda>_. True) (nsq_lookupd_request_cb lib net req resp)"
proof -
  have free: "keeps (\<lambda>_. True) (block [free_http_response resp, free_http_request req])"
    by (intro keeps_block) (simp_all add: keeps_free_http_response keeps_free_http_request)
  have all: "keeps (\<lambda>_. True) (block (map (\<lambda>i. lookupd_producer lib net (json_array_get lib producers i)) is
      @ [free_http_response resp, free_http_request req]))" for producers "is"
    by (intro keeps_block)
      (simp_all add: list_all_iff keeps_lookupd_producer keeps_free_http_response keeps_free_http_request)
  have ok: "keeps (\<lambda>_. True) (on_req r (\<lambda>rq w.
      bind_res (mem_read (orig (req_data rq)) (data (req_data rq)) (BUFFER_HAS_DATA (req_data rq))) (\<lambda>text.
        (case json_loadb lib text of None \<Rightarrow> Inr w
         | Some jsobj \<Rightarrow> (case json_object_get lib (Some jsobj) (bytes_of ''producers'') of None \<Rightarrow> Inr w
           | Some producers \<Rightarrow> block (map (\<lambda>i. lookupd_producer lib net (json_array_get lib producers i))
                 [0..<json_array_length lib producers]
               @ [free_http_response resp, free_http_request req]) w)))))" for r
    by (intro keeps_on_req keeps_bind keeps_case_option_app keeps_Inr all)
  show ?thesis
  proof (rule keepsI)
    fix w w' assume inv: "net_inv w" and run: "nsq_lookupd_request_cb lib net req resp w = Inr w'"
    then obtain x where x: "resps w resp = Some x"
      by (auto simp: nsq_lookupd_request_cb_def split: option.splits)
    show "net_inv w' \<and> advances w w'"
    proof (cases "status_code x = 200")
      case True
      then show ?thesis
        using keepsD [OF ok [of "resp_data x"] inv] run x by (simp add: nsq_lookupd_request_cb_def)
    next
      case False
      then show ?thesis
        using keepsD [OF free inv] run x by (simp add: nsq_lookupd_request_cb_def)
    qed
  qed
qed

lemma keeps_send_lookup: "keeps P (send_lookup lib net env el)"
proof (rule keeps_top)
  show "keeps (\<lambda>_. True) (send_lookup lib net env el)"
    unfolding send_lookup_def Let_def
    by (intro keeps_on_rdr_any keeps_bind keeps_if_app keeps_fail keeps_ret_bind
        keeps_ret_request keeps_ret_get keeps_lookupd_request_cb keeps_Inr)
qed

lemma keeps_poll_cb: "keeps (\<lambda>_. True) (nsq_reader_lookupd_poll_cb lib net env)"
proof -
  let ?stmt = "\<lambda>(idx :: nat) el (i :: nat, w).
    if i = idx then bind_res (send_lookup lib net env el w) (\<lambda>w'. Inr (True, (i + 1, w')))
    else Inr (False, (i + 1, w))"
  have step: "net_inv w1 \<and> advances w w1"
    if pre: "net_inv w0 \<and> advances w w0" and run: "?stmt idx el (i, w0) = Inr (b, (j, w1))"
    for w w0 w1 idx el i j b
  proof (cases "i = idx")
    case True
    then have "send_lookup lib net env el w0 = Inr w1" using run by (auto simp: bind_res_Inr_iff)
    then show ?thesis
      using keepsD [OF keeps_send_lookup [of "\<lambda>_. True"], of w0] pre advances_trans by blast
  next
    case False
    then show ?thesis using run pre by simp
  qed
  have loop: "net_inv w' \<and> advances w w'"
    if inv: "net_inv w" and run: "ends (LL_FOREACH ep_next (\<lambda>(i, w). endpoints w) (?stmt idx) h (0, w)) = Inr (i, w')"
    for w w' idx h i
  proof -
    have run': "LL_FOREACH ep_next (\<lambda>(i, w). endpoints w) (?stmt idx) h (0, w) = Some (Inr (i, w'))"
      using run by (auto simp: ends_def split: option.splits)
    let ?I = "\<lambda>(i :: nat, w1). net_inv w1 \<and> advances w w1"
    have "\<forall>el s b s'. ?I s \<longrightarrow> ?stmt idx el s = Inr (b, s') \<longrightarrow> ?I s'"
      using step [of _ w] by fast
    then show ?thesis
      using LL_FOREACH_invariant [OF run', of ?I] inv advances_refl by fast
  qed
  have "keeps (\<lambda>_. True) (\<lambda>w. bind_res
      (ends (LL_FOREACH ep_next (\<lambda>(i, w). endpoints w) (?stmt idx) h (0, w))) (\<lambda>(i, w'). Inr w'))" for idx h
    by (rule keepsI) (use loop in \<open>auto simp: bind_res_Inr_iff\<close>)
  from keeps_if_app [OF keeps_Inr this] have "keeps (\<lambda>_. True) (\<lambda>w.
      bind_res (ends (LL_FOREACH ep_next (\<lambda>_. endpoints w) (\<lambda>el n. Inr (False, n + 1)) h (0 :: nat)))
        (\<lambda>count. if count = 0 then Inr w
          else bind_res (ends (LL_FOREACH ep_next (\<lambda>(i, w). endpoints w) (?stmt (rand_ret env mod count)) h (0, w)))
              (\<lambda>(i, w'). Inr w')))" for h
    by (rule keeps_bind)
  then show ?thesis
    unfolding nsq_reader_lookupd_poll_cb_def
    by (intro keeps_block) (simp_all add: keeps_on_rdr_any keeps_emit)
qed

text \<open>Adding an endpoint.\<close>

lemma foreach_stop_net:
  assumes inv: "net_inv w" and run: "foreach_conn nsqd_connection_stop_timer w = Inr w'"
  shows "net_inv w' \<and> advances w w'"
proof -
  let ?stmt = "\<lambda>p w. bind_res (nsqd_connection_stop_timer p w) (\<lambda>w'. Inr (False, w'))"
  obtain r :: NSQReader where "LL_FOREACH conn_next conns ?stmt (conns_head r) w = Some (Inr w')"
    using run by (auto simp: foreach_conn_def on_rdr_def ends_def split: option.splits)
  moreover have "net_inv w2 \<and> advances w w2"
    if pre: "net_inv w1 \<and> advances w w1" and st: "?stmt p w1 = Inr (b, w2)" for w1 w2 p b
  proof -
    have "nsqd_connection_stop_timer p w1 = Inr w2" using st by (auto simp: bind_res_Inr_iff)
    then show ?thesis using stop_timer_net [of w1 p w2] pre advances_trans by blast
  qed
  ultimately show ?thesis
    using LL_FOREACH_invariant [of conn_next conns ?stmt _ w "Inr w'" "\<lambda>w1. net_inv w1 \<and> advances w w1"]
      inv advances_refl by blast
qed

lemma append_endpoint_net:
  assumes inv: "net_inv w"
    and run: "append_endpoint e w1 = Inr w'"
    and w1: "w1 = w\<lparr>brk := brk w + 1, endpoints := (endpoints w)(e \<mapsto> x)\<rparr>" and e: "e = brk w"
  shows "net_inv w' \<and> advances w w'"
proof -
  obtain r h hp where r: "rdr w = Some r"
      and app: "LL_APPEND ep_next set_ep_next (lookupd_head r) e (endpoints w1) = Inr (h, hp)"
      and w': "w' = w1\<lparr>endpoints := hp, rdr := Some (r\<lparr>lookupd_head := h\<rparr>)\<rparr>"
    using run by (auto simp: append_endpoint_def on_rdr_def bind_res_Inr_iff w1 split: option.splits)
  have al: "alloc_ok w" and rk: "rdr_ok w" using inv by (simp_all add: net_inv_def)
  obtain es where es: "ll_rep ep_next (endpoints w) (lookupd_head r) es"
    using rk r by (auto simp: rdr_ok_def)
  have fresh: "endpoints w e = None" "e \<noteq> 0" using al by (simp_all add: alloc_ok_def e)
  then have "e \<notin> set es" using ll_rep_mem [OF es] by metis
  then have rep: "ll_rep ep_next (endpoints w1) (lookupd_head r) es"
    using es by (simp add: w1 ll_rep_def ll_list_upd)
  have "endpoints w1 e = Some x" by (simp add: w1)
  from ep_list.append_appends [OF rep this fresh(2) \<open>e \<notin> set es\<close>]
  have new: "ll_rep ep_next hp h (es @ [e])" "dom hp = dom (endpoints w1)"
    using app by auto
  show ?thesis
  proof (rule heap_like_net [OF inv])
    show "socks_inv w'" using net_inv_socks [OF inv] by (simp add: w' w1 socks_inv_def)
    have "hp p = None" if "brk w' \<le> p" for p
    proof -
      have "endpoints w1 p = None" using al that by (simp add: alloc_ok_def w' w1 e)
      then show ?thesis using new(2) by (metis domIff)
    qed
    then show like: "heap_like w w'"
      by (simp add: heap_like_def w' w1 option.rel_refl)
    show "rdr_ok w'" using rk r new(1) by (auto simp: rdr_ok_def w')
    fix xs assume xs: "conn_list w xs" "recon_ok w xs"
    have "conn_list w' xs" using xs(1) r by (simp add: conn_list_def w' w1)
    then show "\<exists>ys. conn_list w' ys \<and> recon_ok w' ys"
      using recon_ok_like [OF xs(2) like order_refl] by blast
  qed
qed

lemma keeps_ret_add_endpoint: "keeps_ret (nsq_reader_add_nsqlookupd_endpoint address port)"
  unfolding keeps_ret_def
proof (intro allI impI)
  fix w x w' assume inv: "net_inv w"
    and run: "nsq_reader_add_nsqlookupd_endpoint address port w = Inr (x, w')"
  let ?first = "on_rdr (\<lambda>r :: NSQReader. if lookupd_head r = 0 then
      block [foreach_conn nsqd_connection_stop_timer, emit (Ev_timer_again Lookupd_poll_timer)] else Inr)"
  obtain w1 where first: "?first w = Inr w1"
      and rest: "(let (e, w2) = new_nsqlookupd_endpoint address port w1 in
        bind_res (append_endpoint e w2) (\<lambda>w3. Inr (1, w3))) = Inr (x, w')"
    using run by (auto simp: nsq_reader_add_nsqlookupd_endpoint_def bind_res_Inr_iff)
  obtain e w2 where new: "new_nsqlookupd_endpoint address port w1 = (e, w2)"
    by (cases "new_nsqlookupd_endpoint address port w1")
  then have app: "append_endpoint e w2 = Inr w'" using rest by (auto simp: bind_res_Inr_iff)
  have "keeps (\<lambda>_. True) (foreach_conn nsqd_connection_stop_timer)"
    using foreach_stop_net by (simp add: keeps_def)
  then have "keeps (\<lambda>_. True) ?first"
    by (intro keeps_on_rdr_any keeps_if keeps_block keeps_Inr) (simp_all add: keeps_emit)
  from keepsD [OF this inv _ first] have 1: "net_inv w1 \<and> advances w w1" by simp
  have "net_inv w' \<and> advances w1 w'"
    using new by (intro append_endpoint_net [OF _ app, of w1])
      (auto simp: new_nsqlookupd_endpoint_def Let_def 1)
  then show "net_inv w' \<and> advances w w'" using 1 advances_trans by blast
qed

end
