(* ===== verification/Event_Loop.thy ===== *)
theory Event_Loop
  imports Reader_Ops
begin

section \<open>The event loop\<close>

text \<open>
  \<^verbatim>\<open>nsq_run\<close> hands control to libev, which calls a handler when one of its watchers or
  timers is ready. An event says which one, and what the system calls of its handler answer.
  \<open>enabled\<close> says when libev may deliver it: the watcher was started and not stopped, the
  timer runs, the single callback is pending. \<open>possible\<close> says that the answers are ones the
  kernel can give. \<open>handle\<close> is the handler. \<open>reachable\<close> are the states that the program reaches from the
  state in which it enters the loop.
\<close>

datatype event =
    Socket_readable ptr read_env
  | Socket_writable ptr "byte list \<Rightarrow> send_result"
  | Read_bytes_due ptr
  | Connect_done ptr connected_env
  | Reconnect_due ptr
  | Lookupd_poll_due poll_env
  | Http_ready ptr nat curl_run
  | Http_timer_due curl_run

text \<open>A descriptor that was closed is -1, and \<^verbatim>\<open>getsockopt\<close> fails on it.\<close>

definition sockopt_fits :: "connected_env \<Rightarrow> nsqd_fn BufferedSocket option \<Rightarrow> bool" where
  "sockopt_fits env x =
     (case x of None \<Rightarrow> True | Some b \<Rightarrow> fd b = -1 \<longrightarrow> timed_out env \<or> getsockopt_ret env = -1)"

fun possible :: "event \<Rightarrow> nsq_world \<Rightarrow> bool" where
  "possible (Socket_readable q env) w \<longleftrightarrow> read_env_ok env"
| "possible (Socket_writable q send) w \<longleftrightarrow> send_ok send"
| "possible (Connect_done q env) w \<longleftrightarrow> sockopt_fits env (socks w q)"
| "possible ev w \<longleftrightarrow> True"

fun enabled :: "event \<Rightarrow> nsq_world \<Rightarrow> bool" where
  "enabled (Socket_readable q env) w \<longleftrightarrow> io_active (Read_io q) (calls w)"
| "enabled (Socket_writable q send) w \<longleftrightarrow> io_active (Write_io q) (calls w)"
| "enabled (Read_bytes_due q) w \<longleftrightarrow> timer_active (Read_bytes_timer q) (calls w)"
| "enabled (Connect_done q env) w \<longleftrightarrow> once_pending q (calls w)"
| "enabled (Reconnect_due p) w \<longleftrightarrow> timer_active (Reconnect_timer p) (calls w)"
| "enabled (Lookupd_poll_due env) w \<longleftrightarrow> timer_active Lookupd_poll_timer (calls w)"
| "enabled (Http_ready s revents run) w \<longleftrightarrow> io_active (Http_io s) (calls w)"
| "enabled (Http_timer_due run) w \<longleftrightarrow> timer_active Http_timer (calls w)"

fun handle :: "application \<Rightarrow> 'j json_lib \<Rightarrow> (ptr \<Rightarrow> connect_env) \<Rightarrow> event \<Rightarrow> nsq_proc" where
  "handle app lib net (Socket_readable q env) w =
     buffered_socket_read_cb (nsqd_call (reader_cc app)) env q w"
| "handle app lib net (Socket_writable q send) w =
     buffered_socket_write_cb (nsqd_call (reader_cc app)) send q w"
| "handle app lib net (Read_bytes_due q) w =
     block [emit (Timer_expired (Read_bytes_timer q)),
            buffered_socket_read_bytes_cb (nsqd_call (reader_cc app)) q] w"
| "handle app lib net (Connect_done q env) w =
     block [emit (Once_fired q), buffered_socket_connect_cb (nsqd_call (reader_cc app)) env q] w"
| "handle app lib net (Reconnect_due p) w = nsq_reader_reconnect_cb net p w"
| "handle app lib net (Lookupd_poll_due env) w = nsq_reader_lookupd_poll_cb lib net env w"
| "handle app lib net (Http_ready s revents run) w =
     (case http_socks w s of
        None \<Rightarrow> Inl Use_after_free
      | Some x \<Rightarrow> event_cb (nsq_lookupd_request_cb lib net) (sockfd x) revents run w)"
| "handle app lib net (Http_timer_due run) w =
     block [emit (Timer_expired Http_timer), timer_cb (nsq_lookupd_request_cb lib net) run] w"

inductive step :: "application \<Rightarrow> 'j json_lib \<Rightarrow> (ptr \<Rightarrow> connect_env) \<Rightarrow> nsq_world \<Rightarrow> event \<Rightarrow>
    nsq_world \<Rightarrow> bool" for app lib net where
  step: "enabled ev w \<Longrightarrow> possible ev w \<Longrightarrow> handle app lib net ev w = Inr w' \<Longrightarrow> step app lib net w ev w'"

inductive_cases stepE: "step app lib net w ev w'"
inductive_simps step_simps: "step app lib net w ev w'"

text \<open>
  What a program does before it enters the loop: it creates the reader, and connects
  to nsqd or adds lookupd endpoints, any number of each. The \<^verbatim>\<open>main\<close> of test.c, which makes one of these
  calls, is \<open>test_main\<close> of Test_Program; \<open>main\<close> here stands for any such program.
\<close>

datatype startup = Connect_to "byte list" int | Add_lookupd "byte list" int

fun startup_op :: "(ptr \<Rightarrow> connect_env) \<Rightarrow> startup \<Rightarrow> nsq_proc" where
  "startup_op net (Connect_to a port) w =
     bind_res (nsq_reader_connect_to_nsqd net a port w) (\<lambda>(rc, w'). Inr w')"
| "startup_op net (Add_lookupd a port) w =
     bind_res (nsq_reader_add_nsqlookupd_endpoint a port w) (\<lambda>(rc, w'). Inr w')"

text \<open>The state before the program did anything; address 0 is the null pointer.\<close>

definition empty_world :: "(nat \<Rightarrow> byte) \<Rightarrow> nsq_world" where
  "empty_world j = \<lparr>socks = Map.empty, calls = [], errno = 0, brk = 1, junk = j,
     conns = Map.empty, endpoints = Map.empty, rdr = None, reqs = Map.empty,
     resps = Map.empty, http_socks = Map.empty\<rparr>"

definition main :: "(nat \<Rightarrow> byte) \<Rightarrow> (ptr \<Rightarrow> connect_env) \<Rightarrow> byte list \<Rightarrow> byte list \<Rightarrow>
    NSQReaderCfg option \<Rightarrow> startup list \<Rightarrow> fault + nsq_world" where
  "main j net t ch c ops =
     bind_res (new_nsq_reader t ch c (empty_world j)) (block (map (startup_op net) ops))"

text \<open>The sizes that a configuration may ask for.\<close>

definition cfg_small :: "NSQReaderCfg option \<Rightarrow> bool" where
  "cfg_small c =
     (case c of None \<Rightarrow> True
      | Some c \<Rightarrow> list_all (\<lambda>n. n < 2 ^ 31)
          [command_buf_len c, command_buf_capacity c, read_buf_len c, read_buf_capacity c,
           write_buf_len c, write_buf_capacity c])"

inductive reachable :: "application \<Rightarrow> 'j json_lib \<Rightarrow> (ptr \<Rightarrow> connect_env) \<Rightarrow> nsq_world \<Rightarrow> bool"
  for app lib net where
  enter: "cfg_small c \<Longrightarrow> length t < 2 ^ 29 \<Longrightarrow> length ch < 2 ^ 29 \<Longrightarrow>
    main j net t ch c ops = Inr w \<Longrightarrow> reachable app lib net w"
| loop: "reachable app lib net w \<Longrightarrow> step app lib net w ev w' \<Longrightarrow> reachable app lib net w'"

subsection \<open>Every reachable state satisfies the invariant\<close>

lemma active_sock:
  assumes "net_inv w" and "socks w q = Some b"
  shows "io_active (Read_io q) (calls w) \<Longrightarrow> state b = BS_CONNECTED"
    and "io_active (Write_io q) (calls w) \<Longrightarrow> state b = BS_CONNECTED"
  using socks_inv_sock [OF net_inv_socks [OF assms(1)] assms(2)] by (auto simp: sock_ok_def)

context reader_app
begin

lemma handle_inv:
  assumes inv: "net_inv w" and en: "enabled ev w" "possible ev w" and run: "handle app lib net ev w = Inr w'"
  shows "net_inv w'"
proof (cases ev)
  case (Socket_readable q env)
  show ?thesis
    using en run active_sock(1) [OF inv, of q] unfolding Socket_readable
    by (intro client.read_cb_inv [OF inv, of env q]) simp_all
next
  case (Socket_writable q snd)
  show ?thesis
    using en run active_sock(2) [OF inv, of q] unfolding Socket_writable
    by (intro client.write_cb_inv [OF inv, of snd q]) simp_all
next
  case (Read_bytes_due q)
  show ?thesis
    using run unfolding Read_bytes_due
    by (intro client.read_bytes_due_inv [OF inv, of q]) (simp only: handle.simps)
next
  case (Connect_done q env)
  have fits: "\<not> connect_ok env" if "socks w q = Some b" "fd b = -1" for b
    using en that by (auto simp: Connect_done sockopt_fits_def connect_ok_def)
  show ?thesis
  proof (rule client.connect_due_inv [OF inv])
    show "once_pending q (calls w)" using en by (simp add: Connect_done)
    show "block [emit (Once_fired q), buffered_socket_connect_cb (nsqd_call (reader_cc app)) env q] w
        = Inr w'" using run by (simp only: Connect_done handle.simps)
  qed (rule fits)
next
  case (Reconnect_due p)
  then show ?thesis using reconnect_cb_net [OF inv] en run by simp
next
  case (Lookupd_poll_due env)
  then show ?thesis using keepsD [OF keeps_poll_cb [of lib net env] inv] run by simp
next
  case (Http_ready s revents r)
  have "keeps (\<lambda>_. True) (event_cb (nsq_lookupd_request_cb lib net) f revents r)" for f
    by (rule keeps_event_cb) (rule keeps_lookupd_request_cb)
  from keepsD [OF this inv] show ?thesis using run by (auto simp: Http_ready split: option.splits)
next
  case (Http_timer_due r)
  have "keeps (\<lambda>_. True) (timer_cb (nsq_lookupd_request_cb lib net) r)"
    by (rule keeps_timer_cb) (rule keeps_lookupd_request_cb)
  then have k: "keeps (\<lambda>_. True) (block [emit (Timer_expired Http_timer), timer_cb (nsq_lookupd_request_cb lib net) r])"
    by (intro keeps_block) (simp_all add: keeps_emit)
  have "block [emit (Timer_expired Http_timer), timer_cb (nsq_lookupd_request_cb lib net) r] w = Inr w'"
    using run by (simp only: Http_timer_due handle.simps)
  then show ?thesis using keepsD [where f = "block [emit (Timer_expired Http_timer), timer_cb (nsq_lookupd_request_cb lib net) r]",
      OF k inv] by blast
qed

end

subsection \<open>Start states\<close>

lemma reader_cfg_ok:
  assumes "\<And>c'. c = Some c' \<Longrightarrow> command_buf_len c' < 2 ^ 31 \<and> command_buf_capacity c' < 2 ^ 31
      \<and> read_buf_len c' < 2 ^ 31 \<and> read_buf_capacity c' < 2 ^ 31
      \<and> write_buf_len c' < 2 ^ 31 \<and> write_buf_capacity c' < 2 ^ 31"
  shows "cfg_ok (reader_cfg c)"
  using assms by (cases c) (auto simp: reader_cfg_def cfg_ok_def default_cfg_def or_default_def)

lemma new_reader_net:
  assumes "cfg_small c" and "length t < 2 ^ 29" and "length ch < 2 ^ 29"
    and "new_nsq_reader t ch c (empty_world j) = Inr w"
  shows "net_inv w"
proof -
  have "cfg_ok (reader_cfg c)"
    using assms(1) by (intro reader_cfg_ok) (auto simp: cfg_small_def)
  moreover have "strlen t < 2 ^ 29" "strlen ch < 2 ^ 29"
    using strlen_le [of t] strlen_le [of ch] assms(2,3) by simp_all
  moreover have "w = (empty_world j)\<lparr>calls := [Curl_multi_setopt Timerdata, Curl_multi_setopt Timerfunction,
      Curl_multi_setopt Socketdata, Curl_multi_setopt Socketfunction, Curl_multi_init], rdr := Some \<lparr>topic = c_str t, channel = c_str ch,
      max_in_flight = 1, conns_head = 0, lookupd_head = 0, cfg = reader_cfg c\<rparr>\<rparr>"
    using assms(4) by (simp add: new_nsq_reader_def new_http_client_calls empty_world_def)
  moreover have "Ex (ll_rep conn_next Map.empty 0)" "Ex (ll_rep ep_next Map.empty 0)"
    by (rule exI [of _ "[]"], simp add: ll_rep_def)+
  ultimately show ?thesis
    by (auto simp: net_inv_def empty_world_def socks_inv_def links_ok_def alloc_ok_def rdr_ok_def
        conn_list_def recon_ok_def int_range_def)
qed

lemma keeps_startup_op: "keeps (\<lambda>_. True) (startup_op net op)"
proof (cases op)
  case (Connect_to a port)
  have "keeps (\<lambda>_. True) (\<lambda>w. bind_res (nsq_reader_connect_to_nsqd net a port w) (\<lambda>(rc, w'). Inr w'))"
    by (intro keeps_ret_bind keeps_ret_connect keeps_Inr)
  then show ?thesis by (simp add: Connect_to keeps_def)
next
  case (Add_lookupd a port)
  have "keeps (\<lambda>_. True) (\<lambda>w. bind_res (nsq_reader_add_nsqlookupd_endpoint a port w) (\<lambda>(rc, w'). Inr w'))"
    by (intro keeps_ret_bind keeps_ret_add_endpoint keeps_Inr)
  then show ?thesis by (simp add: Add_lookupd keeps_def)
qed

lemma main_net:
  assumes "cfg_small c" and "length t < 2 ^ 29" and "length ch < 2 ^ 29"
    and "main j net t ch c ops = Inr w"
  shows "net_inv w"
proof -
  obtain w0 where w0: "new_nsq_reader t ch c (empty_world j) = Inr w0"
      and ops: "block (map (startup_op net) ops) w0 = Inr w"
    using assms(4) by (auto simp: main_def bind_res_Inr_iff)
  have k: "keeps (\<lambda>_. True) (block (map (startup_op net) ops))"
    by (intro keeps_block) (simp_all add: list_all_iff keeps_startup_op)
  show ?thesis
    using keepsD [OF k new_reader_net [OF assms(1-3) w0] _ ops] by blast
qed

lemma reachable_net_inv:
  assumes "app_ok app" and "reachable app lib net w"
  shows "net_inv w"
  using assms(2)
proof (induction rule: reachable.induct)
  case enter
  then show ?case by (rule main_net)
next
  case (loop w ev w')
  then show ?case
    using reader_app.handle_inv [OF reader_app.intro [OF assms(1)]] by (auto simp: step_simps)
qed

end
