(* ===== verification/Delivery.thy ===== *)
theory Delivery
  imports Frames Event_Loop
begin

section \<open>Messages are delivered\<close>

text \<open>
  The reader owns its connections: while one is in the reader's list and has its reconnect
  timer, its callbacks meet the contract of the frame reader, for any application that
  returns from its callbacks. So on any schedule of the events of a connection the
  application gets exactly the messages of the byte stream, in order.
\<close>

subsection \<open>The reader as the owner of a connection\<close>

definition reader_owns :: "ptr \<Rightarrow> nsq_world \<Rightarrow> bool" where
  "reader_owns p w \<longleftrightarrow> p \<noteq> 0
     \<and> (\<exists>r xs c. rdr w = Some r \<and> ll_rep conn_next (conns w) (conns_head r) xs \<and> p \<in> set xs
          \<and> int_range (max_in_flight r) \<and> conns w p = Some c
          \<and> (if lookupd_head r = 0 then reconnect_timer c = Timer_allocated
             else reconnect_timer c \<noteq> Timer_dangling))"

definition app_acks :: "application \<Rightarrow> ptr \<Rightarrow> ptr \<Rightarrow> bool" where
  "app_acks app q p \<longleftrightarrow>
     (case app_msg app of None \<Rightarrow> False
      | Some f \<Rightarrow> \<forall>m w. length (id_bytes m) = 17 \<longrightarrow> reader_owns p w \<longrightarrow> live q p w \<longrightarrow>
          (\<exists>w'. f p m w = Inr w' \<and> quiet q p [] w w'))
     \<and> (case app_close app of None \<Rightarrow> True
        | Some f \<Rightarrow> \<forall>w. reader_owns p w \<longrightarrow> shut q p w \<longrightarrow>
            (\<exists>w'. f p w = Inr w' \<and> reader_owns p w' \<and> shut q p w'
               \<and> delivered p (calls w') = delivered p (calls w)))"

text \<open>The message that the application sees for a payload: its id ends with a NUL byte.\<close>

definition seen_message :: "byte list \<Rightarrow> NSQMessage" where
  "seen_message pl =
     \<lparr>timestamp = ntoh64 (take 8 pl), attempts = ntohs_at (take 2 (drop 8 pl)),
      id_bytes = take 16 (drop 10 pl) @ [0], body_length = length pl - 26, body = drop 26 pl\<rparr>"

lemma terminate_message_of:
  "26 \<le> length pl \<Longrightarrow> terminate_id (message_of j pl) = seen_message pl"
  by (simp add: terminate_id_def message_of_def seen_message_def list_update_append)

lemma reader_owns_kept:
  assumes "reader_owns p w" and "others_kept p w w'"
  shows "reader_owns p w'"
proof -
  obtain r xs c where r: "p \<noteq> 0" "rdr w = Some r" "ll_rep conn_next (conns w) (conns_head r) xs"
      "p \<in> set xs" "int_range (max_in_flight r)" "conns w p = Some c"
      "if lookupd_head r = 0 then reconnect_timer c = Timer_allocated
       else reconnect_timer c \<noteq> Timer_dangling"
    using assms(1) by (auto simp: reader_owns_def)
  have k: "rdr w' = rdr w" "\<And>x. map_option conn_next (conns w' x) = map_option conn_next (conns w x)"
      "map_option reconnect_timer (conns w' p) = map_option reconnect_timer (conns w p)"
    using assms(2) by (simp_all add: others_kept_def)
  obtain c' where c': "conns w' p = Some c'" "reconnect_timer c' = reconnect_timer c"
    using k(3) r(6) by auto
  have "ll_rep conn_next (conns w') (conns_head r) xs"
    using r(3) ll_list_cong [of xs conn_next "conns w'" "conns w"] k(2) by (simp add: ll_rep_def)
  then show ?thesis using r c' k(1) by (auto simp: reader_owns_def)
qed

text \<open>The close callback returns: the connection is taken off the list, and rearmed or freed.\<close>

lemma delete_conn_returns:
  assumes "rdr w = Some r" and "ll_rep conn_next (conns w) (conns_head r) xs" and "p \<in> set xs"
    and "conns w p = Some c"
  shows "\<exists>w' r'. delete_conn p w = Inr w' \<and> conns w' p = Some c \<and> rdr w' = Some r'
    \<and> lookupd_head r' = lookupd_head r \<and> calls w' = calls w \<and> socks w' = socks w"
proof -
  obtain h hp where "LL_DELETE conn_next set_conn_next (conns_head r) p (conns w) = Inr (h, hp)"
      "hp p = conns w p"
    using conn_list.delete_removes [OF assms(2,3)] by auto
  then show ?thesis using assms(1,4) by (simp add: delete_conn_def on_rdr_def)
qed

lemma reader_close_returns:
  assumes acks: "app_acks app q p" and own: "reader_owns p w" and sh: "shut q p w"
  shows "\<exists>w'. nsqd_connection_close_cb (reader_cc app) q p w = Inr w' \<and> dead q w'
    \<and> delivered p (calls w') = delivered p (calls w)"
proof -
  have "\<exists>w1. (case app_close app of None \<Rightarrow> Inr | Some f \<Rightarrow> block [emit (User_close p), f p]) w = Inr w1
      \<and> reader_owns p w1 \<and> shut q p w1 \<and> delivered p (calls w1) = delivered p (calls w)"
  proof (cases "app_close app")
    case None
    then show ?thesis using own sh by simp
  next
    case (Some f)
    let ?w = "w\<lparr>calls := User_close p # calls w\<rparr>"
    have "reader_owns p ?w" by (rule reader_owns_kept [OF own]) (simp add: others_kept_def)
    moreover have "shut q p ?w" using sh by (simp add: shut_def dead_def)
    ultimately show ?thesis using acks Some by (auto simp: app_acks_def emit_def)
  qed
  then obtain w1 where w1: "(case app_close app of None \<Rightarrow> Inr | Some f \<Rightarrow> block [emit (User_close p), f p]) w
        = Inr w1" "reader_owns p w1" "shut q p w1" "delivered p (calls w1) = delivered p (calls w)" by blast
  obtain r xs c where r: "p \<noteq> 0" "rdr w1 = Some r" "ll_rep conn_next (conns w1) (conns_head r) xs"
      "p \<in> set xs" "conns w1 p = Some c"
      "if lookupd_head r = 0 then reconnect_timer c = Timer_allocated
       else reconnect_timer c \<noteq> Timer_dangling"
    using w1(2) by (auto simp: reader_owns_def)
  obtain w2 r2 where w2: "delete_conn p w1 = Inr w2" "conns w2 p = Some c" "rdr w2 = Some r2"
      "lookupd_head r2 = lookupd_head r" "calls w2 = calls w1" "socks w2 = socks w1"
    using delete_conn_returns [OF r(2-5)] by blast
  obtain b where b: "socks w2 (conn_bs c) = Some b"
    using w1(3) r(5) w2(6) by (auto simp: shut_def)
  have "\<exists>w'. (if lookupd_head r2 = 0 then ev_timer_again_reconnect p else free_nsqd_connection p) w2 = Inr w'
      \<and> dead q w' \<and> delivered p (calls w') = delivered p (calls w2)"
  proof (cases "lookupd_head r2 = 0")
    case True
    then show ?thesis
      using r(6) w2 w1(3) by (simp add: ev_timer_again_reconnect_def on_conn_def emit_def dead_def shut_def)
  next
    case False
    then have "reconnect_timer c = Timer_null \<or> reconnect_timer c = Timer_allocated"
      using r(6) w2(4) by (cases "reconnect_timer c") auto
    then show ?thesis
      using False r(1) w2 w1(3) b
      by (auto simp: free_nsqd_connection_def nsqd_connection_stop_timer_def on_conn_def emit_def
          upd_conn_def free_buffered_socket_def dead_def shut_def)
  qed
  then obtain w' where w': "(if lookupd_head r2 = 0 then ev_timer_again_reconnect p
        else free_nsqd_connection p) w2 = Inr w'"
      "dead q w'" "delivered p (calls w') = delivered p (calls w2)" by blast
  obtain c0 where c0: "conns w p = Some c0" using sh by (auto simp: shut_def)
  have "nsqd_connection_close_cb (reader_cc app) q p w = Inr w'"
    using c0 w1(1) w2(1,3) w'(1)
    by (simp add: nsqd_connection_close_cb_def reader_cc_def on_conn_def nsq_reader_close_cb_def on_rdr_def
        if_distribR)
  then show ?thesis using w1(4) w2(5) w' by auto
qed

lemma reader_msg_returns:
  assumes acks: "app_acks app q p" and own: "reader_owns p w" and l: "live q p w"
    and pl: "26 \<le> length pl"
  shows "\<exists>w'. (case cc_msg (reader_cc app) of None \<Rightarrow> Inr w | Some f \<Rightarrow> f p (message_of (junk w) pl) w)
      = Inr w' \<and> quiet q p [seen_message pl] w w'"
proof -
  obtain f where f: "app_msg app = Some f"
    using acks by (auto simp: app_acks_def split: option.splits)
  let ?m = "seen_message pl"
  let ?w = "w\<lparr>calls := User_msg p ?m # calls w\<rparr>"
  have "length (id_bytes ?m) = 17" using pl by (simp add: seen_message_def)
  moreover have "reader_owns p ?w" by (rule reader_owns_kept [OF own]) (simp add: others_kept_def)
  moreover have q1: "quiet q p [?m] w ?w"
    using l by (auto simp: quiet_def live_def read_side_def others_kept_def)
  moreover have "live q p ?w" using q1 by (simp add: quiet_def)
  moreover have "\<forall>m w. length (id_bytes m) = 17 \<longrightarrow> reader_owns p w \<longrightarrow> live q p w \<longrightarrow>
      (\<exists>w'. f p m w = Inr w' \<and> quiet q p [] w w')"
    using acks f by (simp add: app_acks_def)
  ultimately obtain w' where w': "f p ?m ?w = Inr w'" "quiet q p [] ?w w'" by blast
  have "(case cc_msg (reader_cc app) of None \<Rightarrow> Inr w | Some f \<Rightarrow> f p (message_of (junk w) pl) w) = Inr w'"
    using w'(1) f terminate_message_of [OF pl]
    using own by (auto simp: reader_cc_def nsq_reader_msg_cb_def emit_def on_rdr_def reader_owns_def)
  then show ?thesis using quiet_trans [OF q1 w'(2)] by simp
qed

locale reader_frames =
  fixes app :: application and q p :: ptr
  assumes acks: "app_acks app q p"

sublocale reader_frames \<subseteq> frames: frame_client "reader_cc app" q p "reader_owns p" seen_message
proof
  fix w w' :: nsq_world and pl :: "byte list"
  show "reader_owns p w \<Longrightarrow> others_kept p w w' \<Longrightarrow> reader_owns p w'"
    by (rule reader_owns_kept)
  show "reader_owns p w \<Longrightarrow> live q p w \<Longrightarrow> 26 \<le> length pl \<Longrightarrow>
      \<exists>w'. (case cc_msg (reader_cc app) of None \<Rightarrow> Inr w | Some f \<Rightarrow> f p (message_of (junk w) pl) w)
        = Inr w' \<and> quiet q p [seen_message pl] w w'"
    by (rule reader_msg_returns [OF acks])
  show "reader_owns p w \<Longrightarrow> shut q p w \<Longrightarrow>
      \<exists>w'. nsqd_connection_close_cb (reader_cc app) q p w = Inr w' \<and> dead q w'
        \<and> delivered p (calls w') = delivered p (calls w)"
    by (rule reader_close_returns [OF acks])
qed

subsection \<open>The application of the test program\<close>

text \<open>Procedures that return quietly while the reader owns the connection.\<close>

definition owned_silent :: "ptr \<Rightarrow> ptr \<Rightarrow> nsq_proc \<Rightarrow> bool" where
  "owned_silent q p f \<longleftrightarrow> (\<forall>w. reader_owns p w \<longrightarrow> live q p w \<longrightarrow>
     (\<exists>w'. f w = Inr w' \<and> quiet q p [] w w'))"

lemma silent_owned: "silent q p f \<Longrightarrow> owned_silent q p f"
  by (simp add: silent_def owned_silent_def)

lemma owned_silent_block: "list_all (owned_silent q p) fs \<Longrightarrow> owned_silent q p (block fs)"
proof (induction fs)
  case Nil
  then show ?case by (simp add: block_Nil silent_Inr silent_owned)
next
  case (Cons f fs)
  show ?case
    unfolding owned_silent_def
  proof (intro allI impI)
    fix w assume own: "reader_owns p w" and "live q p w"
    then obtain w1 where w1: "f w = Inr w1" "quiet q p [] w w1"
      using Cons.prems by (auto simp: owned_silent_def)
    then have "live q p w1" "reader_owns p w1"
      using reader_owns_kept [OF own] by (simp_all add: quiet_def)
    then obtain w2 where "block fs w1 = Inr w2" "quiet q p [] w1 w2"
      using Cons by (auto simp: owned_silent_def)
    then show "\<exists>w'. block (f # fs) w = Inr w' \<and> quiet q p [] w w'"
      using w1 quiet_trans [of q p "[]" w w1 "[]" w2] by auto
  qed
qed

lemma owned_silent_rdy:
  "owned_silent q p (on_rdr (\<lambda>r. write_command (\<lambda>j. nsq_ready j (max_in_flight r)) p))"
  unfolding owned_silent_def
proof (intro allI impI)
  fix w assume own: "reader_owns p w" and l: "live q p w"
  obtain r where r: "rdr w = Some r" "int_range (max_in_flight r)"
    using own by (auto simp: reader_owns_def)
  have "silent q p (write_command (\<lambda>j. nsq_ready j (max_in_flight r)) p)"
    using RDY_small [OF r(2)] by (intro silent_write_command [where cmd = "RDY (max_in_flight r)"]) simp_all
  then show "\<exists>w'. on_rdr (\<lambda>r. write_command (\<lambda>j. nsq_ready j (max_in_flight r)) p) w = Inr w'
      \<and> quiet q p [] w w'"
    using l r(1) by (simp add: silent_def on_rdr_def)
qed

lemma message_handler_silent:
  assumes "length (id_bytes m) = 17"
  shows "owned_silent q p (message_handler p m)"
proof -
  have "silent q p (write_command (\<lambda>j. nsq_finish j (id_bytes m)) p)"
    using FIN_small [of "id_bytes m"] assms
    by (intro silent_write_command [where cmd = "FIN (id_bytes m)"]) simp_all
  then show ?thesis
    unfolding message_handler_def
    by (intro owned_silent_block)
      (simp add: silent_owned silent_reset_command_buf silent_flush owned_silent_rdy)
qed

lemma test_app_acks: "app_acks test_app q p"
  using message_handler_silent by (simp add: app_acks_def test_app_def owned_silent_def)

interpretation test_frames: reader_frames test_app q p for q p :: ptr
  by unfold_locales (rule test_app_acks)

subsection \<open>Schedules\<close>

text \<open>
  The events of the socket \<open>q\<close> in any order; libev skips those that are not enabled. The
  byte stream of a schedule is what its reads take from the kernel.
\<close>

fun socket_event :: "ptr \<Rightarrow> event \<Rightarrow> bool" where
  "socket_event q (Socket_readable r env) \<longleftrightarrow> r = q \<and> read_env_ok env"
| "socket_event q (Socket_writable r out) \<longleftrightarrow> r = q \<and> send_ok out"
| "socket_event q (Read_bytes_due r) \<longleftrightarrow> r = q"
| "socket_event q ev \<longleftrightarrow> False"

fun event_run :: "application \<Rightarrow> 'j json_lib \<Rightarrow> (ptr \<Rightarrow> connect_env) \<Rightarrow> event list \<Rightarrow> nsq_proc" where
  "event_run app lib net [] w = Inr w"
| "event_run app lib net (ev # evs) w =
     (if enabled ev w then bind_res (handle app lib net ev w) (event_run app lib net evs)
      else event_run app lib net evs w)"

fun event_bytes :: "event \<Rightarrow> nsq_world \<Rightarrow> byte list" where
  "event_bytes (Socket_readable q env) w = taken env q w"
| "event_bytes ev w = []"

fun event_stream ::
  "application \<Rightarrow> 'j json_lib \<Rightarrow> (ptr \<Rightarrow> connect_env) \<Rightarrow> event list \<Rightarrow> nsq_world \<Rightarrow> byte list" where
  "event_stream app lib net [] w = []"
| "event_stream app lib net (ev # evs) w =
     (if enabled ev w then
        event_bytes ev w @
        (case handle app lib net ev w of Inl e \<Rightarrow> [] | Inr w' \<Rightarrow> event_stream app lib net evs w')
      else event_stream app lib net evs w)"

lemma dead_disabled: "dead q w \<Longrightarrow> socket_event q ev \<Longrightarrow> \<not> enabled ev w"
  by (cases ev) (auto simp: dead_def)

lemma dead_run:
  "dead q w \<Longrightarrow> list_all (socket_event q) evs \<Longrightarrow>
    event_run app lib net evs w = Inr w \<and> event_stream app lib net evs w = []"
  by (induction evs) (auto simp: dead_disabled)

lemma next_frame_append:
  "next_frame u = Some (f, r) \<Longrightarrow> next_frame (u @ s) = Some (f, r @ s)"
  by (auto simp: next_frame_def Let_def split: if_splits)

lemma next_frame_in: "next_frame u = Some (f, r) \<Longrightarrow> f \<in> set (fst (split_frames (u @ s)))"
  by (subst split_frames.simps) (auto simp: next_frame_append split: prod.splits)

text \<open>A connection whose timer is not running has handled every whole frame.\<close>

lemma idle_no_frame:
  assumes "unconsumed q p w u" and "\<not> timer_active (Read_bytes_timer q) (calls w)"
  shows "next_frame u = None"
  using assms by (auto simp: unconsumed_def reading_def next_frame_def be_value_be32 Let_def)

context reader_frames
begin

lemma event_step:
  assumes own: "reader_owns p w" and u: "unconsumed q p w u" and ev: "socket_event q ev"
    and en: "enabled ev w"
    and ok: "\<forall>f r. next_frame u = Some (f, r) \<longrightarrow> frame_ok f"
  shows "\<exists>w' fs u'. handle app lib net ev w = Inr w'
    \<and> delivered p (calls w') = delivered p (calls w) @ concat (map (frame_messages seen_message) fs)
    \<and> (\<forall>f \<in> set fs. length f < 2 ^ 32) \<and> u @ event_bytes ev w = concat (map frame_bytes fs) @ u'
    \<and> (reader_owns p w' \<and> unconsumed q p w' u' \<or> dead q w')"
proof (cases ev)
  case (Socket_readable r env)
  then have e: "r = q" "read_env_ok env" using ev by simp_all
  obtain w' where w': "buffered_socket_read_cb (nsqd_call (reader_cc app)) env q w = Inr w'"
      "delivered p (calls w') = delivered p (calls w)"
      "reader_owns p w' \<and> unconsumed q p w' (u @ taken env q w) \<or> dead q w' \<and> taken env q w = []"
    using frames.readable_step [OF own u e(2)] by blast
  then show ?thesis
    using Socket_readable e(1) by (intro exI [of _ w'] exI [of _ "[]"] exI [of _ "u @ taken env q w"]) auto
next
  case (Socket_writable r out)
  then have e: "r = q" "send_ok out" using ev by simp_all
  obtain w' where w': "buffered_socket_write_cb (nsqd_call (reader_cc app)) out q w = Inr w'"
      "delivered p (calls w') = delivered p (calls w)"
      "reader_owns p w' \<and> unconsumed q p w' u \<or> dead q w'"
    using frames.writable_step [OF own u e(2)] by blast
  then show ?thesis
    using Socket_writable e(1) by (intro exI [of _ w'] exI [of _ "[]"] exI [of _ u]) auto
next
  case (Read_bytes_due r)
  then have r: "r = q" "timer_active (Read_bytes_timer q) (calls w)" using ev en by simp_all
  obtain w' fs u' where w': "block [emit (Timer_expired (Read_bytes_timer q)),
        buffered_socket_read_bytes_cb (nsqd_call (reader_cc app)) q] w = Inr w'"
      "reader_owns p w'" "unconsumed q p w' u'" "u = concat (map frame_bytes fs) @ u'"
      "\<forall>f \<in> set fs. length f < 2 ^ 32"
      "delivered p (calls w') = delivered p (calls w) @ concat (map (frame_messages seen_message) fs)"
    using frames.timer_step [OF own u r(2)] ok by metis
  then show ?thesis
    using Read_bytes_due r(1)
    by (intro exI [of _ w'] exI [of _ fs] exI [of _ u']) (simp del: block.simps)
qed (use ev in simp_all)

text \<open>A whole schedule, by induction on its length.\<close>

lemma run_delivers:
  assumes "reader_owns p w" and "unconsumed q p w u" and "list_all (socket_event q) evs"
    and "\<And>f. f \<in> set (fst (split_frames (u @ event_stream app lib net evs w))) \<Longrightarrow> frame_ok f"
  shows "\<exists>w' fs u'. event_run app lib net evs w = Inr w'
    \<and> delivered p (calls w') = delivered p (calls w) @ concat (map (frame_messages seen_message) fs)
    \<and> (\<forall>f \<in> set fs. length f < 2 ^ 32)
    \<and> u @ event_stream app lib net evs w = concat (map frame_bytes fs) @ u'
    \<and> (unconsumed q p w' u' \<or> dead q w')"
  using assms
proof (induction evs arbitrary: w u)
  case Nil
  then show ?case by (intro exI [of _ w] exI [of _ "[]"] exI [of _ u]) simp
next
  case (Cons ev evs)
  show ?case
  proof (cases "enabled ev w")
    case False
    then show ?thesis using Cons by simp
  next
    case True
    let ?s = "\<lambda>w. event_stream app lib net evs w"
    have ev: "socket_event q ev" "list_all (socket_event q) evs" using Cons.prems(3) by simp_all
    have ok: "\<forall>f r. next_frame u = Some (f, r) \<longrightarrow> frame_ok f"
      using Cons.prems(4) next_frame_in by blast
    then obtain w1 fs u1 where w1: "handle app lib net ev w = Inr w1"
        "delivered p (calls w1) = delivered p (calls w) @ concat (map (frame_messages seen_message) fs)"
        "\<forall>f \<in> set fs. length f < 2 ^ 32" "u @ event_bytes ev w = concat (map frame_bytes fs) @ u1"
        "reader_owns p w1 \<and> unconsumed q p w1 u1 \<or> dead q w1"
      using event_step [OF Cons.prems(1,2) ev(1) True ok] by blast
    have s: "u @ event_stream app lib net (ev # evs) w = concat (map frame_bytes fs) @ u1 @ ?s w1"
      using True w1(1,4) by (simp flip: append_assoc)
    from w1(5) show ?thesis
    proof
      assume o: "reader_owns p w1 \<and> unconsumed q p w1 u1"
      have "frame_ok f" if "f \<in> set (fst (split_frames (u1 @ ?s w1)))" for f
        using Cons.prems(4) [of f] that unfolding s split_frames_append [OF w1(3)] by simp
      then obtain w' gs u' where w': "event_run app lib net evs w1 = Inr w'"
          "delivered p (calls w') = delivered p (calls w1) @ concat (map (frame_messages seen_message) gs)"
          "\<forall>f \<in> set gs. length f < 2 ^ 32" "u1 @ ?s w1 = concat (map frame_bytes gs) @ u'"
          "unconsumed q p w' u' \<or> dead q w'"
        using Cons.IH [of w1 u1] o ev(2) by blast
      then show ?thesis
        using True w1 s
        by (intro exI [of _ w'] exI [of _ "fs @ gs"] exI [of _ u']) auto
    next
      assume "dead q w1"
      then show ?thesis
        using dead_run [OF _ ev(2), of w1 app lib net] True w1 s
        by (intro exI [of _ w1] exI [of _ fs] exI [of _ u1]) auto
    qed
  qed
qed

end


lemma schedule_delivers:
  assumes "app_acks app q p" and "reader_owns p w" and "unconsumed q p w []"
    and "list_all (socket_event q) evs"
    and "split_frames (event_stream app lib net evs w) = (frames, rest)"
    and "list_all frame_ok frames"
  shows "\<exists>w' k. event_run app lib net evs w = Inr w'
    \<and> delivered p (calls w')
       = delivered p (calls w) @ concat (map (frame_messages seen_message) (take k frames))
    \<and> (io_active (Read_io q) (calls w') \<and> \<not> timer_active (Read_bytes_timer q) (calls w')
       \<longrightarrow> k = length frames)"
proof -
  let ?S = "event_stream app lib net evs w"
  have "frame_ok f" if "f \<in> set (fst (split_frames ([] @ ?S)))" for f
    using assms(5,6) that by (simp add: list_all_iff)
  then obtain w' fs u' where w': "event_run app lib net evs w = Inr w'"
      "delivered p (calls w') = delivered p (calls w) @ concat (map (frame_messages seen_message) fs)"
      "\<forall>f \<in> set fs. length f < 2 ^ 32" "?S = concat (map frame_bytes fs) @ u'"
      "unconsumed q p w' u' \<or> dead q w'"
    using reader_frames.run_delivers [OF reader_frames.intro [OF assms(1)] assms(2-4), of lib net] by auto
  have frames: "frames = fs @ fst (split_frames u')"
    using assms(5) split_frames_append [OF w'(3), of u'] by (simp add: w'(4))
  have "split_frames u' = ([], u')"
    if "io_active (Read_io q) (calls w')" "\<not> timer_active (Read_bytes_timer q) (calls w')"
    using w'(5) that idle_no_frame [of q p w' u'] split_frames_none by (auto simp: dead_def)
  then show ?thesis
    using w'(1,2) frames by (intro exI [of _ w'] exI [of _ "length fs"]) auto
qed

end
