(* ===== verification/Wire.thy ===== *)
theory Wire
  imports Delivery
begin

section \<open>What goes out on a connection\<close>

text \<open>
  The output side of a live connection: \<open>wbuf\<close> is what was handed to the socket and not yet
  taken by the kernel. While the command buffer and the write buffer have room, a procedure
  that sends commands appends exactly their bytes and leaves the reading alone (\<open>puts\<close>);
  from that, the bytes of the handshake after a connect.
\<close>


definition wbuf :: "ptr \<Rightarrow> nsq_world \<Rightarrow> byte list" where
  "wbuf q w = (case socks w q of None \<Rightarrow> [] | Some b \<Rightarrow> contents (write_buf b))"

definition sock_space :: "ptr \<Rightarrow> nsq_world \<Rightarrow> nat" where
  "sock_space q w = (case socks w q of None \<Rightarrow> 0 | Some b \<Rightarrow> blength (write_buf b))"

definition cmd_space :: "ptr \<Rightarrow> nsq_world \<Rightarrow> nat" where
  "cmd_space p w = (case conns w p of None \<Rightarrow> 0 | Some c \<Rightarrow> blength (command_buf c))"

definition same_space :: "ptr \<Rightarrow> ptr \<Rightarrow> nsq_world \<Rightarrow> nsq_world \<Rightarrow> bool" where
  "same_space q p w w' \<longleftrightarrow> sock_space q w' = sock_space q w \<and> cmd_space p w' = cmd_space p w"

definition puts :: "ptr \<Rightarrow> ptr \<Rightarrow> byte list \<Rightarrow> nsq_world \<Rightarrow> nsq_world \<Rightarrow> bool" where
  "puts q p bs w w' \<longleftrightarrow> quiet q p [] w w' \<and> same_space q p w w' \<and> wbuf q w' = wbuf q w @ bs
     \<and> io_active (Write_io q) (calls w')"

lemma puts_trans: "puts q p s w w1 \<Longrightarrow> puts q p t w1 w2 \<Longrightarrow> puts q p (s @ t) w w2"
  using quiet_trans [of q p "[]" w w1 "[]" w2] by (simp add: puts_def same_space_def)

lemma write_puts:
  assumes l: "live q p w" and len: "len \<le> length src" and fits: "length (wbuf q w) + len \<le> sock_space q w"
  shows "\<exists>w'. buffered_socket_write src len q w = Inr (len, w') \<and> puts q p (take len src) w w'
    \<and> conns w' = conns w"
proof -
  obtain b c g where b: "socks w q = Some b" "state b = BS_CONNECTED" "wf_bounded (write_buf b)"
      "write_ev b = Some g"
    using l by (auto simp: live_def)
  obtain wb where wb: "buffer_put (junk w) (take len src) (write_buf b) = Inr wb" "wf_bounded wb"
      "contents wb = contents (write_buf b) @ take len src" "blength wb = blength (write_buf b)"
    using buffer_put_bounded [OF b(3), of "take len src" "junk w"] len fits b(1)
    by (auto simp: wbuf_def sock_space_def)
  have "buffer_add_void (junk w) src len (write_buf b) = Inr wb"
    using wb(1) buffer_add_void_take [OF len, of "junk w"] by simp
  then have "buffered_socket_write src len q w = Inr (len,
      w\<lparr>socks := (socks w)(q \<mapsto> b\<lparr>write_buf := wb\<rparr>), calls := Ev_io_start (Write_io q) g # calls w\<rparr>)"
    using b by (simp add: buffered_socket_write_def sock_simps)
  moreover have "quiet q p [] w
      (w\<lparr>socks := (socks w)(q \<mapsto> b\<lparr>write_buf := wb\<rparr>), calls := Ev_io_start (Write_io q) g # calls w\<rparr>)"
    using l b wb(2) by (auto simp: quiet_def live_def read_side_def others_kept_def)
  ultimately show ?thesis
    using wb b by (auto simp: puts_def same_space_def wbuf_def sock_space_def cmd_space_def)
qed

text \<open>One command: the buffer is reset, the command written to it, the buffer handed over.\<close>

lemma send_puts:
  assumes l: "live q p w" and f: "\<And>j. f j = send_command j cmd" and ok: "command_args_ok cmd"
    and cs: "length (command_bytes cmd) \<le> cmd_space p w"
    and ss: "length (wbuf q w) + length (command_bytes cmd) \<le> sock_space q w"
  shows "\<exists>w'. block [reset_command_buf p, write_command f p, flush_command_buf p] w = Inr w'
    \<and> puts q p (command_bytes cmd) w w'"
proof -
  let ?bs = "command_bytes cmd"
  obtain b c where c: "conns w p = Some c" "conn_bs c = q" "wf_bounded (command_buf c)"
    using live_conn [OF l] by metis
  let ?c0 = "c\<lparr>command_buf := buffer_reset (command_buf c)\<rparr>"
  let ?w0 = "w\<lparr>conns := (conns w)(p \<mapsto> ?c0)\<rparr>"
  have wf: "wf_buffer (buffer_reset (command_buf c))" using c(3) by (simp add: wf_bounded_def)
  obtain cb where cb: "send_command (junk w) cmd (buffer_reset (command_buf c)) = Inr cb" "wf_buffer cb"
      "contents cb = ?bs" "blength cb = blength (command_buf c)"
    using send_command_fits [OF ok wf, of "junk w"] cs c(1) by (auto simp: cmd_space_def)
  have "capacity cb = capacity (command_buf c)"
    using buffer_puts_capacity [of "junk w" "command_pieces cmd"] cb(1)
    by (simp add: send_command_pieces [OF ok])
  then have wb: "wf_bounded cb" using c(3) cb(2) by (simp add: wf_bounded_def)
  let ?c1 = "c\<lparr>command_buf := cb\<rparr>"
  let ?w1 = "w\<lparr>conns := (conns w)(p \<mapsto> ?c1)\<rparr>"
  have start: "block [reset_command_buf p, write_command f p, flush_command_buf p] w
      = flush_command_buf p ?w1"
    using c(1) cb(1) f by (simp add: reset_command_buf_def upd_conn_def on_conn_def write_command_def)
  have q1: "quiet q p [] w ?w1" using quiet_command_buf [OF l c(1) wb] by simp
  then have l1: "live q p ?w1" by (simp add: quiet_def)
  have off: "offset cb = length ?bs" using offset_contents [OF wb] cb(3) by simp
  have src: "take (offset cb) (drop (data cb) (orig cb)) = ?bs" using cb(3) by (simp add: contents_def)
  have "0 < length ?bs"
    by (simp add: command_bytes_split)
  have "length (wbuf q ?w1) + offset cb \<le> sock_space q ?w1"
    using ss off by (simp add: wbuf_def sock_space_def)
  then obtain w2 where w2: "buffered_socket_write (drop (data cb) (orig cb)) (offset cb) q ?w1 = Inr (offset cb, w2)"
      "puts q p ?bs ?w1 w2" "conns w2 = conns ?w1"
    using write_puts [OF l1, of "offset cb" "drop (data cb) (orig cb)"] src wf_data_le [OF cb(2)] by auto
  let ?w3 = "w2\<lparr>conns := (conns w2)(p \<mapsto> c\<lparr>command_buf := buffer_reset cb\<rparr>)\<rparr>"
  have l2: "live q p w2" and c2: "conns w2 p = Some ?c1" using w2(2,3) by (simp_all add: puts_def quiet_def)
  have "flush_command_buf p ?w1 = Inr ?w3"
    using w2(1) c2 c(2) off \<open>0 < length ?bs\<close>
    by (simp add: flush_command_buf_def on_conn_def buffered_socket_write_buffer_def
        BUFFER_HAS_DATA_def upd_conn_def)
  moreover have "quiet q p [] w2 ?w3"
    using quiet_command_buf [OF l2 c2 wf_bounded_reset [OF wb]] by simp
  then have "quiet q p [] w ?w3"
    using q1 w2(2) quiet_trans [of q p "[]" w ?w1 "[]" w2] quiet_trans [of q p "[]" w w2 "[]" ?w3]
    by (simp add: puts_def)
  ultimately show ?thesis
    using start w2(2,3) cb(4) c(1)
    by (auto simp: puts_def same_space_def wbuf_def sock_space_def cmd_space_def)
qed


text \<open>A socket on its way to being connected, with nothing received or to be sent.\<close>

definition dialled :: "ptr \<Rightarrow> ptr \<Rightarrow> nsq_world \<Rightarrow> bool" where
  "dialled q p w \<longleftrightarrow>
     (\<exists>b c. socks w q = Some b \<and> conns w p = Some c \<and> conn_bs c = q \<and> cbarg b = p
        \<and> state b = BS_CONNECTING \<and> wf_bounded (read_buf b) \<and> wf_bounded (write_buf b)
        \<and> contents (read_buf b) = [] \<and> contents (write_buf b) = []
        \<and> read_callback b = None \<and> write_callback b = None
        \<and> connect_callback b = Some Nsqd_connect_cb
        \<and> close_callback b = Some Nsqd_close_cb \<and> error_callback b = Some Nsqd_error_cb
        \<and> wf_bounded (command_buf c))
     \<and> \<not> timer_active (Read_bytes_timer q) (calls w)"

definition subscription :: "NSQReader \<Rightarrow> byte list" where
  "subscription r = command_bytes (SUB (topic r) (channel r)) @ command_bytes (RDY (max_in_flight r))"

text \<open>Two commands, written by procedures that may look at the reader first.\<close>

lemma send_pair_puts:
  assumes l: "live q p w" and r: "rdr w = Some r"
    and F: "\<And>w. rdr w = Some r \<Longrightarrow> F w = write_command (\<lambda>j. send_command j c1) p w"
    and G: "\<And>w. rdr w = Some r \<Longrightarrow> G w = write_command (\<lambda>j. send_command j c2) p w"
    and ok: "command_args_ok c1" "command_args_ok c2"
    and cs: "length (command_bytes c1) \<le> cmd_space p w" "length (command_bytes c2) \<le> cmd_space p w"
    and ss: "length (wbuf q w) + length (command_bytes c1 @ command_bytes c2) \<le> sock_space q w"
  shows "\<exists>w'. block [reset_command_buf p, F, flush_command_buf p, reset_command_buf p, G, flush_command_buf p] w
    = Inr w' \<and> puts q p (command_bytes c1 @ command_bytes c2) w w'"
proof -
  have kept: "rdr w1 = rdr w0" if "reset_command_buf p w0 = Inr w1" for w0 w1
    using that by (auto simp: reset_command_buf_def upd_conn_def on_conn_def split: option.splits)
  have one: "block [reset_command_buf p, H, flush_command_buf p] w0 = Inr w1"
    if "\<And>w. rdr w = Some r \<Longrightarrow> H w = write_command (\<lambda>j. send_command j cmd) p w" "rdr w0 = Some r"
      "block [reset_command_buf p, write_command (\<lambda>j. send_command j cmd) p, flush_command_buf p] w0 = Inr w1"
    for H cmd w0 w1
    using that kept by (auto simp: bind_res_Inr_iff)
  obtain w1 where w1: "block [reset_command_buf p, F, flush_command_buf p] w = Inr w1"
      "puts q p (command_bytes c1) w w1"
    using send_puts [OF l _ ok(1) cs(1)] one [OF F r] ss by fastforce
  have l1: "live q p w1" "rdr w1 = Some r" using w1(2) r by (simp_all add: puts_def quiet_def others_kept_def)
  have s1: "length (command_bytes c2) \<le> cmd_space p w1"
    "length (wbuf q w1) + length (command_bytes c2) \<le> sock_space q w1"
    using w1(2) cs(2) ss by (simp_all add: puts_def same_space_def)
  obtain w2 where w2: "block [reset_command_buf p, G, flush_command_buf p] w1 = Inr w2"
      "puts q p (command_bytes c2) w1 w2"
    using send_puts [OF l1(1) _ ok(2) s1] one [OF G l1(2)] by fastforce
  have "block ([reset_command_buf p, F, flush_command_buf p] @ [reset_command_buf p, G, flush_command_buf p]) w
      = Inr w2"
    by (simp only: block_append w1(1) w2(1) bind_res.simps)
  then show ?thesis using puts_trans [OF w1(2) w2(2)] by auto
qed

lemma reader_connect_puts:
  assumes own: "reader_owns p w" and l: "live q p w" and r: "rdr w = Some r"
    and sizes: "length (topic r) < 2 ^ 29" "length (channel r) < 2 ^ 29"
    and app: "app_connect app = None"
    and cs: "length (command_bytes (SUB (topic r) (channel r))) \<le> cmd_space p w"
      "length (command_bytes (RDY (max_in_flight r))) \<le> cmd_space p w"
    and ss: "length (wbuf q w) + length (subscription r) \<le> sock_space q w"
  shows "\<exists>w'. nsq_reader_connect_cb app p w = Inr w' \<and> puts q p (subscription r) w w'"
proof -
  have "int_range (max_in_flight r)" using own r by (auto simp: reader_owns_def)
  then have "command_args_ok (SUB (topic r) (channel r))" "command_args_ok (RDY (max_in_flight r))"
    using SUB_small [OF sizes] RDY_small by simp_all
  from send_pair_puts [OF l r _ _ this cs,
      of "on_rdr (\<lambda>r. write_command (\<lambda>j. nsq_subscribe j (topic r) (channel r)) p)"
         "on_rdr (\<lambda>r. write_command (\<lambda>j. nsq_ready j (max_in_flight r)) p)"]
  show ?thesis using ss by (simp add: nsq_reader_connect_cb_def subscription_def app on_rdr_def)
qed

lemma read_bytes_output:
  "buffered_socket_read_bytes n k arg q w = Inr w' \<Longrightarrow>
    wbuf q w' = wbuf q w \<and> io_active (Write_io q) (calls w') = io_active (Write_io q) (calls w)
    \<and> map_option read_buf (socks w' q) = map_option read_buf (socks w q)"
  by (auto simp: buffered_socket_read_bytes_def on_sock_def upd_sock_def emit_def wbuf_def
      split: option.splits if_splits)

definition magic :: "byte list" where "magic = bytes_of ''  V2''"

lemma handshake_run:
  assumes own: "reader_owns p w" and d: "dialled q p w" and env: "connect_ok env" and r: "rdr w = Some r"
    and sizes: "length (topic r) < 2 ^ 29" "length (channel r) < 2 ^ 29"
    and app: "app_connect app = None"
    and cs: "length (command_bytes (SUB (topic r) (channel r))) \<le> cmd_space p w"
      "length (command_bytes (RDY (max_in_flight r))) \<le> cmd_space p w"
    and ss: "length (magic @ subscription r) \<le> sock_space q w"
  shows "\<exists>w'. handle app lib net (Connect_done q env) w = Inr w' \<and> reader_owns p w' \<and> unconsumed q p w' []
    \<and> wbuf q w' = magic @ subscription r \<and> io_active (Write_io q) (calls w')
    \<and> map_option read_buf (socks w' q) = map_option read_buf (socks w q)
    \<and> delivered p (calls w') = delivered p (calls w)"
proof -
  obtain b c where b: "socks w q = Some b" "cbarg b = p" "state b = BS_CONNECTING" "contents (read_buf b) = []"
      "contents (write_buf b) = []" "connect_callback b = Some Nsqd_connect_cb" and c: "conns w p = Some c" "conn_bs c = q"
    using d by (auto simp: dialled_def)
  let ?w = "w\<lparr>calls := Once_fired q # calls w\<rparr>"
  let ?w1 = "connected_world q b ?w"
  have k1: "others_kept p w ?w1" by (simp add: others_kept_def connected_world_def)
  have l1: "live q p ?w1" using d b by (auto simp: dialled_def live_def connected_world_def)
  have o1: "reader_owns p ?w1" using own k1 by (rule reader_owns_kept)
  have s1: "wbuf q ?w1 = []" "rbuf q ?w1 = []" "cmd_space p ?w1 = cmd_space p w" "sock_space q ?w1 = sock_space q w"
    using b by (simp_all add: wbuf_def rbuf_def cmd_space_def sock_space_def connected_world_def)
  have idle: "\<not> timer_active (Read_bytes_timer q) (calls ?w1)"
    using d by (simp add: dialled_def connected_world_def)
  have m: "length magic = 4" "take 4 (bytes_of ''  V2'' @ replicate 6 0) = magic"
    by (simp_all add: magic_def bytes_of_def)
  have "length (wbuf q ?w1) + 4 \<le> sock_space q ?w1" using s1 ss m by simp
  then obtain w2 where w2: "buffered_socket_write (bytes_of ''  V2'' @ replicate 6 0) 4 q ?w1 = Inr (4, w2)"
      "puts q p magic ?w1 w2" "conns w2 = conns ?w1"
    using write_puts [OF l1, of 4 "bytes_of ''  V2'' @ replicate 6 0"] m by (auto simp: bytes_of_def)
  have q2: "quiet q p [] ?w1 w2" using w2(2) by (simp add: puts_def)
  have l2: "live q p w2" and k2: "others_kept p ?w1 w2" using q2 by (simp_all add: quiet_def)
  have r2: "rdr w2 = Some r" using k2 r by (simp add: others_kept_def connected_world_def)
  obtain w3 where w3: "nsq_reader_connect_cb app p w2 = Inr w3" "puts q p (subscription r) w2 w3"
    using reader_connect_puts [OF reader_owns_kept [OF o1 k2] l2 r2 sizes app] cs ss w2(2) s1 m
    by (auto simp: puts_def same_space_def)
  have p3: "puts q p (magic @ subscription r) ?w1 w3" using w2(2) w3(2) by (rule puts_trans)
  then have q3: "quiet q p [] ?w1 w3" by (simp add: puts_def)
  have l3: "live q p w3" and k3: "others_kept p ?w1 w3" using q3 by (simp_all add: quiet_def)
  have idle3: "\<not> timer_active (Read_bytes_timer q) (calls w3)"
    using q3 idle by (simp add: quiet_def read_side_def)
  obtain w4 where w4: "buffered_socket_read_bytes 4 Nsqd_read_size p q w3 = Inr w4"
      "reading q p Nsqd_read_size 4 w4" "rbuf q w4 = rbuf q w3" "others_kept p w3 w4"
      "delivered p (calls w4) = delivered p (calls w3)"
    using request_bytes [OF l3 idle3] by blast
  have "handle app lib net (Connect_done q env) w = nsqd_connection_connect_cb (reader_cc app) q p ?w1"
    using b env by (simp add: emit_def connect_cb_eq connected_world_def sock_simps)
  also have "\<dots> = Inr w4"
    using w2(1,3) w3(1) w4(1) c
    by (simp add: nsqd_connection_connect_cb_def on_conn_def sock_write_def connected_world_def reader_cc_def)
  finally have "handle app lib net (Connect_done q env) w = Inr w4" .
  moreover have "reader_owns p w4"
    using reader_owns_kept [OF reader_owns_kept [OF o1 k3] w4(4)] .
  moreover have "unconsumed q p w4 []"
    using w4(2,3) q3 s1 by (auto simp: unconsumed_def quiet_def read_side_def rbuf_def split: option.splits)
  moreover have "delivered p (calls w4) = delivered p (calls w)"
    using w4(5) q3 by (simp add: quiet_def connected_world_def)
  moreover have "map_option read_buf (socks w3 q) = map_option read_buf (socks w q)"
    using q3 b(1) by (auto simp: quiet_def read_side_def connected_world_def)
  ultimately show ?thesis
    using p3 read_bytes_output [OF w4(1)] s1 by (auto simp: puts_def)
qed

end
