(* ===== verification/Session.thy ===== *)
theory Session
  imports Wire
begin

section \<open>A session with nsqd\<close>

text \<open>
  From the call that creates a connection over the handshake to the messages: what
  \<^verbatim>\<open>nsq_reader_connect_to_nsqd\<close> leaves on every branch, the first bytes on the wire, the
  delivery of messages on any schedule, and the replies to a heartbeat and to a message. The
  properties are applied to a concrete reader and a concrete peer.
\<close>

text \<open>A new connection: allocated, linked to its socket, listed when the connect has started.\<close>

definition new_conn :: "NSQReaderCfg \<Rightarrow> (nat \<Rightarrow> byte) \<Rightarrow> byte list \<Rightarrow> int \<Rightarrow> ptr \<Rightarrow> NSQDConnection" where
  "new_conn g j a port q =
     \<lparr>conn_address = c_str a, conn_port = port, conn_bs = q,
      command_buf = new_buffer j (command_buf_len g) (command_buf_capacity g),
      current_msg_size = 0, current_frame_type = 0, current_data = 0,
      reconnect_timer = Timer_null, conn_next = 0\<rparr>"

definition new_sock :: "NSQReaderCfg \<Rightarrow> (nat \<Rightarrow> byte) \<Rightarrow> byte list \<Rightarrow> int \<Rightarrow> ptr \<Rightarrow> nsqd_fn BufferedSocket" where
  "new_sock g j a port p =
     \<lparr>sock_address = c_str a, sock_port = port, fd = -1, state = BS_INIT,
      read_ev = None, write_ev = None,
      read_buf = new_buffer j (read_buf_len g) (read_buf_capacity g),
      write_buf = new_buffer j (write_buf_len g) (write_buf_capacity g),
      read_bytes_n = 0, read_bytes_callback = None, read_bytes_arg = 0,
      connect_callback = Some Nsqd_connect_cb, close_callback = Some Nsqd_close_cb,
      read_callback = None, write_callback = None, error_callback = Some Nsqd_error_cb,
      cbarg = p\<rparr>"

lemma connect_run:
  assumes inv: "net_inv w" and r: "rdr w = Some r" and xs: "conn_list w xs"
    and p: "p = brk w" and q: "q = p + 1"
  shows "\<exists>w' r' c. nsq_reader_connect_to_nsqd net a port w
      = Inr (if connect_outcome (net p) = Started then socket_ret (net p) else 0, w')
    \<and> conns w' p = Some c
    \<and> (\<exists>n. c = (new_conn (cfg r) (junk w) a port q)
         \<lparr>reconnect_timer := (if lookupd_head r = 0 then Timer_allocated else Timer_null), conn_next := n\<rparr>)
    \<and> socks w' = (socks w)(q \<mapsto> connect_sock (net p) (new_sock (cfg r) (junk w) a port p))
    \<and> rdr w' = Some r' \<and> (\<exists>h. r' = r\<lparr>conns_head := h\<rparr>)
    \<and> conn_list w' (if connect_outcome (net p) = Started \<and> 0 < socket_ret (net p) then xs @ [p] else xs)
    \<and> calls w' = connect_calls (net p) q @ calls w
    \<and> (\<forall>x. x \<noteq> p \<and> x \<notin> set xs \<longrightarrow> conns w' x = conns w x)
    \<and> (\<forall>x. x \<noteq> p \<longrightarrow> map_option conn_bs (conns w' x) = map_option conn_bs (conns w x))
    \<and> reqs w' = reqs w \<and> resps w' = resps w
    \<and> endpoints w' = endpoints w \<and> http_socks w' = http_socks w \<and> brk w' = q + 1"
proof -
  let ?c = "new_conn (cfg r) (junk w) a port q" and ?b = "new_sock (cfg r) (junk w) a port p"
  let ?w1 = "w\<lparr>brk := q + 1, socks := (socks w)(q \<mapsto> ?b), conns := (conns w)(p \<mapsto> ?c)\<rparr>"
  let ?w2 = "?w1\<lparr>socks := (socks w)(q \<mapsto> connect_sock (net p) ?b),
      calls := connect_calls (net p) q @ calls w, errno := connect_errno_after (net p) (errno w)\<rparr>"
  let ?rc = "if connect_outcome (net p) = Started then socket_ret (net p) else 0"
  let ?fix = "on_rdr (\<lambda>r. if lookupd_head r = 0 then nsqd_connection_init_timer p else Inr)"
  have fresh: "conns w p = None" "p \<noteq> 0" using inv p by (auto simp: net_inv_def alloc_ok_def)
  have new: "new_nsqd_connection a port w = Inr (p, ?w1)"
    using r p q by (simp add: new_nsqd_connection_def on_rdr_def new_buffered_socket_def Let_def
        new_conn_def new_sock_def)
  have con: "nsqd_connection_connect (net p) p ?w1 = Inr (?rc, ?w2)"
    using connect_eq [of ?w1 q ?b "net p"]
    by (simp add: nsqd_connection_connect_def on_conn_def new_conn_def new_sock_def)
  have notin: "p \<notin> set xs" and rep: "ll_rep conn_next (conns w) (conns_head r) xs"
    using xs r fresh ll_rep_mem [of conn_next "conns w" "conns_head r" xs p] by (auto simp: conn_list_def)
  have rep2: "ll_rep conn_next (conns ?w2) (conns_head r) xs"
    using rep notin by (simp add: ll_rep_def ll_list_upd)
  have "\<exists>w3 h n. (if 0 < ?rc then append_conn p ?w2 else Inr ?w2) = Inr w3
      \<and> w3 = ?w2\<lparr>conns := conns w3, rdr := Some (r\<lparr>conns_head := h\<rparr>)\<rparr>
      \<and> ll_rep conn_next (conns w3) h (if 0 < ?rc then xs @ [p] else xs)
      \<and> conns w3 p = Some (?c\<lparr>conn_next := n\<rparr>)
      \<and> (\<forall>x. x \<noteq> p \<and> x \<notin> set xs \<longrightarrow> conns w3 x = conns w x)
      \<and> (\<forall>x. x \<noteq> p \<longrightarrow> map_option conn_bs (conns w3 x) = map_option conn_bs (conns w x))"
  proof (cases "0 < ?rc")
    case True
    obtain h hp where app: "LL_APPEND conn_next set_conn_next (conns_head r) p (conns ?w2) = Inr (h, hp)"
        "ll_rep conn_next hp h (xs @ [p])"
        "\<forall>x d. conns ?w2 x = Some d \<longrightarrow> (\<exists>n. hp x = Some (set_conn_next n d)) \<or> hp x = conns ?w2 x"
        "\<forall>x. x \<noteq> p \<and> x \<notin> set xs \<longrightarrow> hp x = conns ?w2 x" "dom hp = dom (conns ?w2)"
      using conn_list.append_appends [OF rep2 _ fresh(2) notin, of ?c] by auto
    have "(\<exists>n. hp p = Some (set_conn_next n ?c)) \<or> hp p = Some ?c"
      using app(3) [rule_format, of p ?c] by simp
    moreover have "?c = ?c\<lparr>conn_next := 0\<rparr>" by (simp add: new_conn_def)
    ultimately have "\<exists>n. hp p = Some (?c\<lparr>conn_next := n\<rparr>)" by (metis set_conn_next_def)
    moreover have "map_option conn_bs (hp x) = map_option conn_bs (conns w x)" if "x \<noteq> p" for x
    proof (cases "conns w x")
      case None
      then have "x \<notin> dom hp" using that by (simp add: app(5) domIff)
      then show ?thesis using None by (simp add: domIff)
    next
      case (Some d)
      then show ?thesis using that app(3) [rule_format, of x d] by (auto simp: set_conn_next_def)
    qed
    ultimately show ?thesis
      using True app(1,2,4) r by (auto simp: append_conn_def on_rdr_def)
  next
    case False
    then show ?thesis using rep2 r
      by (intro exI [of _ ?w2] exI [of _ "conns_head r"] exI [of _ 0]) (simp add: new_conn_def)
  qed
  then obtain w3 h n where 3: "(if 0 < ?rc then append_conn p ?w2 else Inr ?w2) = Inr w3"
      "w3 = ?w2\<lparr>conns := conns w3, rdr := Some (r\<lparr>conns_head := h\<rparr>)\<rparr>"
      "ll_rep conn_next (conns w3) h (if 0 < ?rc then xs @ [p] else xs)"
      "conns w3 p = Some (?c\<lparr>conn_next := n\<rparr>)"
      "\<forall>x. x \<noteq> p \<and> x \<notin> set xs \<longrightarrow> conns w3 x = conns w x"
      "\<forall>x. x \<noteq> p \<longrightarrow> map_option conn_bs (conns w3 x) = map_option conn_bs (conns w x)" by blast
  have r3: "rdr w3 = Some (r\<lparr>conns_head := h\<rparr>)" by (subst 3(2)) simp
  let ?t = "if lookupd_head r = 0 then Timer_allocated else Timer_null"
  let ?w4 = "w3\<lparr>conns := (conns w3)(p \<mapsto> ?c\<lparr>reconnect_timer := ?t, conn_next := n\<rparr>)\<rparr>"
  have timer: "?fix w3 = Inr ?w4"
    using 3(4) r3 fun_upd_triv [of "conns w3" p]
    by (auto simp: on_rdr_def nsqd_connection_init_timer_def upd_conn_def on_conn_def new_conn_def)
  have "nsq_reader_connect_to_nsqd net a port w = Inr (?rc, ?w4)"
    by (simp only: nsq_reader_connect_to_nsqd_def new con 3(1) timer bind_res.simps prod.case)
  moreover have "map_option conn_next (conns ?w4 x) = map_option conn_next (conns w3 x)" for x using 3(4) by simp
  then have "ll_rep conn_next (conns ?w4) h (if 0 < ?rc then xs @ [p] else xs)"
    using 3(3,4) ll_list_cong [of "if 0 < ?rc then xs @ [p] else xs" conn_next "conns ?w4" "conns w3"]
    by (simp add: ll_rep_def)
  then have "conn_list ?w4 (if connect_outcome (net p) = Started \<and> 0 < socket_ret (net p) then xs @ [p] else xs)"
    using r3 by (cases "connect_outcome (net p) = Started") (simp_all add: conn_list_def)
  moreover have "socks w3 = (socks w)(q \<mapsto> connect_sock (net p) ?b)"
    "calls w3 = connect_calls (net p) q @ calls w" "reqs w3 = reqs w" "resps w3 = resps w"
    "endpoints w3 = endpoints w" "http_socks w3 = http_socks w" "brk w3 = q + 1"
    by (subst 3(2), simp)+
  ultimately show ?thesis
    using r3 3(5,6) by (intro exI [of _ ?w4] exI [of _ "r\<lparr>conns_head := h\<rparr>"]
        exI [of _ "?c\<lparr>reconnect_timer := ?t, conn_next := n\<rparr>"]) auto
qed

text \<open>A connection whose connect has started is the reader's, and waits for the handshake.\<close>

lemma connect_dials:
  assumes inv: "net_inv w" and r: "rdr w = Some r" and p: "p = brk w" and q: "q = p + 1"
    and net: "connect_outcome (net p) = Started" "0 < socket_ret (net p)"
    and run: "nsq_reader_connect_to_nsqd net a port w = Inr (rc, w')"
  shows "rc = socket_ret (net p) \<and> reader_owns p w' \<and> dialled q p w' \<and> once_pending q (calls w')
    \<and> (\<exists>h. rdr w' = Some (r\<lparr>conns_head := h\<rparr>))
    \<and> cmd_space p w' = command_buf_len (cfg r) \<and> sock_space q w' = write_buf_len (cfg r)
    \<and> map_option read_buf (socks w' q)
        = Some (new_buffer (junk w) (read_buf_len (cfg r)) (read_buf_capacity (cfg r)))"
proof -
  obtain xs where xs: "conn_list w xs" and w: "rdr_ok w" "socks_inv w" "alloc_ok w"
    using inv by (rule net_invE)
  obtain r' c n h where w': "rc = socket_ret (net p)" "conns w' p = Some c"
      "c = (new_conn (cfg r) (junk w) a port q)
         \<lparr>reconnect_timer := (if lookupd_head r = 0 then Timer_allocated else Timer_null), conn_next := n\<rparr>"
      "socks w' = (socks w)(q \<mapsto> connect_sock (net p) (new_sock (cfg r) (junk w) a port p))"
      "rdr w' = Some r'" "r' = r\<lparr>conns_head := h\<rparr>" "conn_list w' (xs @ [p])"
      "calls w' = connect_calls (net p) q @ calls w"
    using connect_run [OF inv r xs p q, of net a port] run net by auto
  have cfg: "cfg_ok (cfg r)" "int_range (max_in_flight r)" using w(1) r by (simp_all add: rdr_ok_def)
  then have bufs: "wf_bounded (new_buffer (junk w) (command_buf_len (cfg r)) (command_buf_capacity (cfg r)))"
    "wf_bounded (new_buffer (junk w) (read_buf_len (cfg r)) (read_buf_capacity (cfg r)))"
    "wf_bounded (new_buffer (junk w) (write_buf_len (cfg r)) (write_buf_capacity (cfg r)))"
    by (simp_all add: wf_bounded_def wf_new_buffer cfg_ok_def) (simp_all add: new_buffer_def)
  have "p \<noteq> 0" using w(3) p by (simp add: alloc_ok_def)
  then have "reader_owns p w'"
    using w' cfg by (auto simp: reader_owns_def conn_list_def new_conn_def)
  moreover have "\<not> timer_active (Read_bytes_timer q) (calls w)" using w(2) p q by (simp add: socks_inv_def)
  then have "dialled q p w'"
    using w' bufs net(1) by (auto simp: dialled_def connect_sock_def new_sock_def new_conn_def connect_calls_def)
  moreover have "once_pending q (calls w')" using w'(8) net(1) by (simp add: connect_calls_def)
  ultimately show ?thesis
    using w' net(1) by (auto simp: cmd_space_def sock_space_def new_conn_def new_sock_def connect_sock_def)
qed

text \<open>
  Property C7: \<^verbatim>\<open>nsq_reader_connect_to_nsqd\<close> on every branch. A connection and its socket
  are allocated and linked; the reconnect timer is created exactly without lookupd; if every
  system call succeeds the descriptor is returned, the socket waits for the connect, and the
  connection is at the end of the list (unless the descriptor is 0); otherwise 0 is returned,
  the connection is in no list, and the calls made stop where the failure was.
\<close>

theorem connect_to_nsqd_cases:
  assumes "net_inv w" and "rdr w = Some r" and "conn_list w xs" and "p = brk w" and "q = p + 1"
  shows "\<exists>w' c b. nsq_reader_connect_to_nsqd net a port w
      = Inr (if connect_outcome (net p) = Started then socket_ret (net p) else 0, w')
    \<and> conns w' p = Some c \<and> conn_bs c = q \<and> conn_address c = c_str a \<and> conn_port c = port
    \<and> (reconnect_timer c = Timer_allocated \<longleftrightarrow> lookupd_head r = 0)
    \<and> socks w' q = Some b \<and> cbarg b = p
    \<and> state b = (if connect_outcome (net p) = Started then BS_CONNECTING else BS_INIT)
    \<and> calls w' = connect_calls (net p) q @ calls w
    \<and> conn_list w' (if connect_outcome (net p) = Started \<and> 0 < socket_ret (net p) then xs @ [p] else xs)"
proof -
  obtain w' r' c n where w': "nsq_reader_connect_to_nsqd net a port w
      = Inr (if connect_outcome (net p) = Started then socket_ret (net p) else 0, w')"
      "conns w' p = Some c"
      "c = (new_conn (cfg r) (junk w) a port q)
         \<lparr>reconnect_timer := (if lookupd_head r = 0 then Timer_allocated else Timer_null), conn_next := n\<rparr>"
      "socks w' = (socks w)(q \<mapsto> connect_sock (net p) (new_sock (cfg r) (junk w) a port p))"
      "conn_list w' (if connect_outcome (net p) = Started \<and> 0 < socket_ret (net p) then xs @ [p] else xs)"
      "calls w' = connect_calls (net p) q @ calls w"
    using connect_run [OF assms, of net a port] by auto
  then show ?thesis
    by (intro exI [of _ w'] exI [of _ c] exI [of _ "connect_sock (net p) (new_sock (cfg r) (junk w) a port p)"])
      (simp add: new_conn_def new_sock_def connect_sock_def split: connect_outcome.split)
qed

text \<open>
  Property C6: the handshake. After a successful connect the connection asks for output and
  input, is the reader's, has received nothing, and has to send the magic bytes, the
  subscription to topic and channel and the initial credit, in this order, if the buffers
  have room for them.
\<close>

theorem connection_handshake:
  assumes "net_inv w" and "rdr w = Some r" and "p = brk w" and "q = p + 1"
    and "connect_outcome (net p) = Started" and "0 < socket_ret (net p)" and "connect_ok env"
    and "app_connect app = None"
    and "length (command_bytes (SUB (topic r) (channel r))) \<le> command_buf_len (cfg r)"
    and "length (command_bytes (RDY (max_in_flight r))) \<le> command_buf_len (cfg r)"
    and "length (magic @ subscription r) \<le> write_buf_len (cfg r)"
  shows "\<exists>w1 w2. nsq_reader_connect_to_nsqd net a port w = Inr (socket_ret (net p), w1)
    \<and> enabled (Connect_done q env) w1 \<and> handle app lib net (Connect_done q env) w1 = Inr w2
    \<and> wbuf q w2 = magic @ command_bytes (SUB (topic r) (channel r)) @ command_bytes (RDY (max_in_flight r))
    \<and> enabled (Socket_writable q out) w2 \<and> enabled (Socket_readable q rd) w2
    \<and> reader_owns p w2 \<and> unconsumed q p w2 []"
proof -
  obtain xs where xs: "conn_list w xs" using assms(1) by (rule net_invE)
  obtain w1 where run: "nsq_reader_connect_to_nsqd net a port w = Inr (socket_ret (net p), w1)"
    using connect_run [OF assms(1,2) xs assms(3,4), of net a port] assms(5) by auto
  obtain h where 1: "reader_owns p w1" "dialled q p w1" "once_pending q (calls w1)"
      "rdr w1 = Some (r\<lparr>conns_head := h\<rparr>)" "cmd_space p w1 = command_buf_len (cfg r)"
      "sock_space q w1 = write_buf_len (cfg r)"
    using connect_dials [OF assms(1-6) run] by blast
  have sizes: "length (topic r) < 2 ^ 29" "length (channel r) < 2 ^ 29"
    using assms(1,2) by (simp_all add: net_inv_def rdr_ok_def)
  have sub: "subscription (r\<lparr>conns_head := h\<rparr>) = subscription r" by (simp add: subscription_def)
  obtain w2 where "handle app lib net (Connect_done q env) w1 = Inr w2" "reader_owns p w2"
      "unconsumed q p w2 []" "wbuf q w2 = magic @ subscription r" "io_active (Write_io q) (calls w2)"
    using handshake_run [OF 1(1,2) assms(7) 1(4), of app lib net] assms(8-11) sizes 1(5,6) sub by auto
  moreover from this(3) have "live q p w2" by (rule unconsumed_live)
  ultimately show ?thesis
    using run 1(3) by (auto simp: subscription_def live_def simp del: handle.simps)
qed

text \<open>
  Property C5: a whole session. From the call that connects on, whatever the order of the
  events of the connection and however the bytes arrive, the application gets the messages of
  the byte stream in their order, and all of them whenever the connection is open and its
  timer idle.
\<close>

theorem session_delivers:
  assumes "net_inv w" and "rdr w = Some r" and "p = brk w" and "q = p + 1"
    and "connect_outcome (net p) = Started" and "0 < socket_ret (net p)" and "connect_ok env"
    and "app_connect app = None" and "app_acks app q p"
    and "length (command_bytes (SUB (topic r) (channel r))) \<le> command_buf_len (cfg r)"
    and "length (command_bytes (RDY (max_in_flight r))) \<le> command_buf_len (cfg r)"
    and "length (magic @ subscription r) \<le> write_buf_len (cfg r)"
    and "nsq_reader_connect_to_nsqd net a port w = Inr (rc, w1)"
    and "list_all (socket_event q) evs"
    and "split_frames (event_stream app lib net (Connect_done q env # evs) w1) = (frames, rest)"
    and "list_all frame_ok frames"
  shows "\<exists>w' k. event_run app lib net (Connect_done q env # evs) w1 = Inr w'
    \<and> delivered p (calls w')
       = delivered p (calls w1) @ concat (map (frame_messages seen_message) (take k frames))
    \<and> (io_active (Read_io q) (calls w') \<and> \<not> timer_active (Read_bytes_timer q) (calls w')
       \<longrightarrow> k = length frames)"
proof -
  obtain h where 1: "reader_owns p w1" "dialled q p w1" "once_pending q (calls w1)"
      "rdr w1 = Some (r\<lparr>conns_head := h\<rparr>)" "cmd_space p w1 = command_buf_len (cfg r)"
      "sock_space q w1 = write_buf_len (cfg r)"
    using connect_dials [OF assms(1-6,13)] by blast
  have sizes: "length (topic r) < 2 ^ 29" "length (channel r) < 2 ^ 29"
    using assms(1,2) by (simp_all add: net_inv_def rdr_ok_def)
  have sub: "subscription (r\<lparr>conns_head := h\<rparr>) = subscription r" by (simp add: subscription_def)
  obtain w2 where w2: "handle app lib net (Connect_done q env) w1 = Inr w2" "reader_owns p w2"
      "unconsumed q p w2 []" "delivered p (calls w2) = delivered p (calls w1)"
    using handshake_run [OF 1(1,2) assms(7) 1(4), of app lib net] assms(8,10-12) sizes 1(5,6) sub by auto
  have en: "enabled (Connect_done q env) w1" using 1(3) by simp
  have "split_frames (event_stream app lib net evs w2) = (frames, rest)"
    using assms(15) en w2(1) by (simp del: handle.simps)
  from schedule_delivers [OF assms(9) w2(2,3) assms(14) this assms(16)]
  show ?thesis using en w2(1,4) by (simp del: handle.simps)
qed

subsection \<open>A concrete session\<close>

text \<open>
  A reader with the default configuration; the connect goes through, and the peer sends one
  message frame.
\<close>

definition demo_net :: "ptr \<Rightarrow> connect_env" where
  "demo_net p = \<lparr>getaddrinfo_ret = 0, socket_ret = 7, getfl_ret = 0, setfl_ret = 0,
                 connect_ret = -1, connect_errno = EINPROGRESS\<rparr>"

definition demo_connected :: connected_env where
  "demo_connected = \<lparr>timed_out = False, getsockopt_ret = 0, getsockopt_errno = 0, so_error = 0\<rparr>"

definition demo_read :: "byte list \<Rightarrow> read_env" where
  "demo_read bs = \<lparr>ioctl_ret = 0, ioctl_n = int (length bs), ioctl_errno = 0,
                   recv = (\<lambda>n. Recv_bytes (take n bs))\<rparr>"

definition demo_lib :: "unit json_lib" where
  "demo_lib = \<lparr>json_loadb = \<lambda>_. None, json_object_get = \<lambda>_ _. None, json_array_length = \<lambda>_. 0,
                json_array_get = \<lambda>_ _. None, json_string_value = \<lambda>_. None, json_int_value = \<lambda>_. 0\<rparr>"

definition demo_reader :: NSQReader where
  "demo_reader = \<lparr>topic = [116], channel = [99], max_in_flight = 1, conns_head = 0,
                  lookupd_head = 0, cfg = default_cfg\<rparr>"

definition demo_world :: nsq_world where
  "demo_world = (empty_world (\<lambda>_. 0))\<lparr>calls := [Curl_multi_setopt Timerdata, Curl_multi_setopt Timerfunction,
     Curl_multi_setopt Socketdata, Curl_multi_setopt Socketfunction, Curl_multi_init], rdr := Some demo_reader\<rparr>"

definition demo_frame :: "byte list" where
  "demo_frame = [0, 0, 0, 2] @ encode_message 5 1 (replicate 16 65) [104, 105]"

lemma demo_created: "new_nsq_reader [116] [99] None (empty_world (\<lambda>_. 0)) = Inr demo_world"
  by (simp add: new_nsq_reader_def new_http_client_calls empty_world_def demo_world_def demo_reader_def reader_cfg_def c_str_def)

lemma demo_inv: "net_inv demo_world"
  by (rule new_reader_net [OF _ _ _ demo_created]) (simp_all add: cfg_small_def)

lemma demo_rdr: "rdr demo_world = Some demo_reader" and demo_brk: "brk demo_world = 1"
  by (simp_all add: demo_world_def empty_world_def)

lemma demo_started: "connect_outcome (demo_net p) = Started" "0 < socket_ret (demo_net p)"
  "connect_ok demo_connected"
  by (simp_all add: connect_outcome_def demo_net_def connect_ok_def demo_connected_def)

lemma demo_fits:
  "length (command_bytes (SUB (topic demo_reader) (channel demo_reader))) \<le> command_buf_len (cfg demo_reader)"
  "length (command_bytes (RDY (max_in_flight demo_reader))) \<le> command_buf_len (cfg demo_reader)"
  "length (magic @ subscription demo_reader) \<le> write_buf_len (cfg demo_reader)"
  using length_sprintf_d [of 1]
  by (simp_all add: demo_reader_def default_cfg_def subscription_def magic_def bytes_of_def int_range_def
      command_bytes_def command_pieces_def cmd_pieces_def wire_simps)

lemma demo_taken:
  assumes "map_option read_buf (socks w q) = Some (new_buffer j n n)"
    and "length bs \<le> n" "length bs \<le> 4096"
  shows "taken (demo_read bs) q w = bs" and "read_env_ok (demo_read bs)"
  using assms by (auto simp: taken_def demo_read_def read_env_ok_def accepts_def read_size_def)

lemma timers_stream:
  "event_stream app lib net (replicate k (Read_bytes_due q)) w = []"
  by (induction k arbitrary: w) (auto split: sum.split simp del: handle.simps)

lemma demo_stream:
  assumes "io_active (Read_io q) (calls w)"
    and "map_option read_buf (socks w q) = Some (new_buffer j n n)"
    and "length bs \<le> n" "length bs \<le> 4096"
  shows "event_stream app lib net (Socket_readable q (demo_read bs) # replicate k (Read_bytes_due q)) w = bs"
  using assms demo_taken(1) [OF assms(2-4)]
  by (auto simp: timers_stream simp del: handle.simps split: sum.split)

lemma demo_frame_ok: "frame_ok demo_frame" "split_frames (frame_bytes demo_frame) = ([demo_frame], [])"
  "length (frame_bytes demo_frame) = 36"
proof -
  have len: "length demo_frame = 32" by (simp add: demo_frame_def length_encode_message)
  have ty: "frame_type demo_frame = NSQ_FRAME_TYPE_MESSAGE"
    by (simp add: frame_type_def demo_frame_def ntohl_at_def NSQ_FRAME_TYPE_MESSAGE_def)
  then show "frame_ok demo_frame"
    using len by (simp add: frame_ok_def payload_def NSQ_FRAME_TYPE_MESSAGE_def NSQ_FRAME_TYPE_RESPONSE_def)
  have "next_frame ([] :: byte list) = None" by (simp add: next_frame_def)
  then show "split_frames (frame_bytes demo_frame) = ([demo_frame], [])"
    using split_frames_append [of "[demo_frame]" "[]"] len by (simp add: split_frames_none)
  show "length (frame_bytes demo_frame) = 36" using len by (simp add: frame_bytes_def)
qed

lemma demo_session:
  obtains w1 w2 where "nsq_reader_connect_to_nsqd demo_net a port demo_world = Inr (7, w1)"
    and "enabled (Connect_done 2 demo_connected) w1"
    and "handle test_app lib demo_net (Connect_done 2 demo_connected) w1 = Inr w2"
    and "reader_owns 1 w2" and "unconsumed 2 1 w2 []" and "wbuf 2 w2 = magic @ subscription demo_reader"
    and "map_option read_buf (socks w2 2) = Some (new_buffer (junk demo_world) (16 * 1024) (16 * 1024))"
    and "event_stream test_app lib demo_net
      (Socket_readable 2 (demo_read (frame_bytes demo_frame)) # replicate k (Read_bytes_due 2)) w2
      = frame_bytes demo_frame"
proof -
  note st = demo_started(1,2) [of 1]
  obtain xs where xs: "conn_list demo_world xs" using demo_inv by (rule net_invE)
  obtain w1 where run: "nsq_reader_connect_to_nsqd demo_net a port demo_world = Inr (7, w1)"
    using connect_run [OF demo_inv demo_rdr xs, of 1 2 demo_net a port] st(1) demo_brk
    by (auto simp: demo_net_def)
  obtain h where 1: "reader_owns 1 w1" "dialled 2 1 w1" "once_pending 2 (calls w1)"
      "rdr w1 = Some (demo_reader\<lparr>conns_head := h\<rparr>)" "cmd_space 1 w1 = command_buf_len (cfg demo_reader)"
      "sock_space 2 w1 = write_buf_len (cfg demo_reader)"
      "map_option read_buf (socks w1 2) = Some (new_buffer (junk demo_world) (read_buf_len (cfg demo_reader)) (read_buf_capacity (cfg demo_reader)))"
    using connect_dials [OF demo_inv demo_rdr demo_brk [symmetric] one_add_one [symmetric] st run] by blast
  have sub: "subscription (demo_reader\<lparr>conns_head := h\<rparr>) = subscription demo_reader"
    by (simp add: subscription_def)
  obtain w2 where 2: "handle test_app lib demo_net (Connect_done 2 demo_connected) w1 = Inr w2"
      "reader_owns 1 w2" "unconsumed 2 1 w2 []" "wbuf 2 w2 = magic @ subscription demo_reader"
      "map_option read_buf (socks w2 2) = map_option read_buf (socks w1 2)"
    using handshake_run [OF 1(1,2) demo_started(3) 1(4), of test_app lib demo_net] 1(5,6) sub demo_fits
    by (auto simp: test_app_def demo_reader_def)
  have "io_active (Read_io 2) (calls w2)" using unconsumed_live [OF 2(3)] by (auto simp: live_def)
  then have "event_stream test_app lib demo_net
      (Socket_readable 2 (demo_read (frame_bytes demo_frame)) # replicate k (Read_bytes_due 2)) w2
      = frame_bytes demo_frame"
    using demo_stream [of 2 w2 "junk demo_world" "16 * 1024" "frame_bytes demo_frame"] 1(7) 2(5) demo_frame_ok(3)
    by (simp add: demo_reader_def default_cfg_def)
  moreover have "map_option read_buf (socks w2 2) = Some (new_buffer (junk demo_world) (16 * 1024) (16 * 1024))"
    using 1(7) 2(5) by (simp add: demo_reader_def default_cfg_def)
  moreover have "enabled (Connect_done 2 demo_connected) w1" using 1(3) by simp
  ultimately show ?thesis using that run 2(1-4) by blast
qed

lemma demo_events:
  "list_all (socket_event 2)
    (Socket_readable 2 (demo_read (frame_bytes demo_frame)) # replicate 2 (Read_bytes_due 2))"
  by (simp add: demo_read_def read_env_ok_def numeral_2_eq_2)

text \<open>
  Property C2: on any schedule of the events of a connection that has received nothing yet,
  the application gets the messages of the byte stream, each once, in their order; and it has
  got all of them whenever the connection is open and its read timer is idle. The frames must
  be ones that the reader handles within its buffer.
\<close>

theorem frames_delivered:
  assumes "app_acks app q p" and "reader_owns p w" and "unconsumed q p w []"
    and "list_all (socket_event q) evs"
    and "split_frames (event_stream app lib net evs w) = (frames, rest)"
    and "list_all frame_ok frames"
  shows "\<exists>w' k. event_run app lib net evs w = Inr w'
    \<and> delivered p (calls w')
       = delivered p (calls w) @ concat (map (frame_messages seen_message) (take k frames))
    \<and> (io_active (Read_io q) (calls w') \<and> \<not> timer_active (Read_bytes_timer q) (calls w')
       \<longrightarrow> k = length frames)"
  using assms by (rule schedule_delivers)

theorem frames_delivered_witness:
  "\<exists>w w' k. event_run test_app demo_lib demo_net
      (Socket_readable 2 (demo_read (frame_bytes demo_frame)) # replicate 2 (Read_bytes_due 2)) w = Inr w'
    \<and> delivered 1 (calls w') = delivered 1 (calls w)
       @ concat (map (frame_messages seen_message) (take k [demo_frame]))"
proof -
  obtain w1 w2 where w2: "reader_owns 1 w2" "unconsumed 2 1 w2 []"
    "event_stream test_app demo_lib demo_net
      (Socket_readable 2 (demo_read (frame_bytes demo_frame)) # replicate 2 (Read_bytes_due 2)) w2
      = frame_bytes demo_frame"
    by (rule demo_session)
  have "split_frames (event_stream test_app demo_lib demo_net
      (Socket_readable 2 (demo_read (frame_bytes demo_frame)) # replicate 2 (Read_bytes_due 2)) w2)
      = ([demo_frame], [])"
    by (simp only: w2(3) demo_frame_ok)
  from frames_delivered [OF test_app_acks w2(1,2) demo_events this]
  show ?thesis using demo_frame_ok(1) by (auto simp del: event_run.simps replicate.simps)
qed

theorem connect_to_nsqd_cases_witness:
  "\<exists>w' c. nsq_reader_connect_to_nsqd demo_net [49] 4150 demo_world = Inr (7, w')
    \<and> conns w' 1 = Some c \<and> conn_port c = 4150 \<and> conn_bs c = 2 \<and> conn_list w' [1]"
proof -
  have "conn_list demo_world []" by (simp add: conn_list_def demo_rdr demo_reader_def ll_rep_def)
  from connect_to_nsqd_cases [OF demo_inv demo_rdr this demo_brk [symmetric] one_add_one [symmetric],
      of demo_net "[49]" 4150]
  show ?thesis using demo_started(1,2) [of 1] by (auto simp: demo_net_def)
qed

theorem connection_handshake_witness:
  "\<exists>w2. wbuf 2 w2 = [32, 32, 86, 50, 83, 85, 66, 32, 116, 32, 99, 10, 82, 68, 89, 32, 49, 10]
    \<and> reader_owns 1 w2 \<and> unconsumed 2 1 w2 []"
proof -
  have "sprintf_d 1 = [49]" by (simp add: sprintf_d_def, subst dec_digits.simps, simp)
  then have "magic @ command_bytes (SUB (topic demo_reader) (channel demo_reader))
      @ command_bytes (RDY (max_in_flight demo_reader))
      = [32, 32, 86, 50, 83, 85, 66, 32, 116, 32, 99, 10, 82, 68, 89, 32, 49, 10]"
    by (simp add: magic_def bytes_of_def command_bytes_def command_pieces_def cmd_pieces_def
        demo_reader_def c_str_def of_char_def)
  then show ?thesis
    using connection_handshake [where net = demo_net and app = test_app and a = "[49]" and port = 4150
        and lib = demo_lib, OF demo_inv demo_rdr demo_brk [symmetric] one_add_one [symmetric]
        demo_started _ demo_fits]
    by (auto simp: demo_started test_app_def simp del: handle.simps enabled.simps)
qed

theorem session_delivers_witness:
  "\<exists>w1 w' k. nsq_reader_connect_to_nsqd demo_net [49] 4150 demo_world = Inr (7, w1)
    \<and> event_run test_app demo_lib demo_net (Connect_done 2 demo_connected
        # Socket_readable 2 (demo_read (frame_bytes demo_frame)) # replicate 2 (Read_bytes_due 2)) w1 = Inr w'
    \<and> delivered 1 (calls w') = delivered 1 (calls w1)
       @ concat (map (frame_messages seen_message) (take k [demo_frame]))"
proof -
  let ?evs = "Socket_readable 2 (demo_read (frame_bytes demo_frame)) # replicate 2 (Read_bytes_due 2)"
  obtain w1 w2 where w1: "nsq_reader_connect_to_nsqd demo_net [49] 4150 demo_world = Inr (7, w1)"
    "enabled (Connect_done 2 demo_connected) w1"
    "handle test_app demo_lib demo_net (Connect_done 2 demo_connected) w1 = Inr w2"
    "event_stream test_app demo_lib demo_net ?evs w2 = frame_bytes demo_frame"
    by (rule demo_session)
  have "event_stream test_app demo_lib demo_net (Connect_done 2 demo_connected # ?evs) w1
      = frame_bytes demo_frame"
    using w1 by (simp del: handle.simps enabled.simps replicate.simps)
  then have "split_frames (event_stream test_app demo_lib demo_net (Connect_done 2 demo_connected # ?evs) w1)
      = ([demo_frame], [])" by (simp only: demo_frame_ok)
  from session_delivers [OF demo_inv demo_rdr demo_brk [symmetric] one_add_one [symmetric]
      demo_started _ test_app_acks demo_fits w1(1) demo_events this]
  show ?thesis
    using w1(1) demo_frame_ok(1) by (auto simp: test_app_def simp del: event_run.simps replicate.simps)
qed

subsection \<open>Replies\<close>

text \<open>A connected pair whose read buffer holds the given bytes.\<close>

definition demo_live :: "byte list \<Rightarrow> nsq_world" where
  "demo_live bs = demo_world\<lparr>
     socks := [2 \<mapsto> (new_sock default_cfg (\<lambda>_. 0) [49] 4150 1)
       \<lparr>fd := 7, state := BS_CONNECTED, read_ev := Some 7, write_ev := Some 7,
        read_buf := \<lparr>data = 0, orig = bs, offset = length bs, blength = length bs, capacity = 64\<rparr>\<rparr>],
     conns := [1 \<mapsto> (new_conn default_cfg (\<lambda>_. 0) [49] 4150 2)\<lparr>reconnect_timer := Timer_allocated\<rparr>],
     rdr := Some (demo_reader\<lparr>conns_head := 1\<rparr>),
     calls := [Ev_io_start (Read_io 2) 7]\<rparr>"

lemma demo_live_ok:
  assumes "0 < length bs" and "length bs < 64"
  shows "live 2 1 (demo_live bs)" and "reader_owns 1 (demo_live bs)"
proof -
  have "wf_bounded (new_buffer (\<lambda>_. 0) n n)" if "0 < n" "n < 2 ^ 31" for n
    using that by (simp add: wf_bounded_def wf_new_buffer) (simp add: new_buffer_def)
  then show "live 2 1 (demo_live bs)"
    using assms by (simp add: demo_live_def live_def new_sock_def new_conn_def default_cfg_def
        wf_bounded_def wf_buffer_def)
  show "reader_owns 1 (demo_live bs)"
    by (simp add: demo_live_def reader_owns_def demo_reader_def int_range_def new_conn_def ll_rep_def
        exI [of _ "[1]"])
qed

lemma demo_live_space:
  "cmd_space 1 (demo_live bs) = 4096" "sock_space 2 (demo_live bs) = 16384" "wbuf 2 (demo_live bs) = []"
  "rdr (demo_live bs) = Some (demo_reader\<lparr>conns_head := 1\<rparr>)"
  by (simp_all add: demo_live_def cmd_space_def sock_space_def wbuf_def new_sock_def new_conn_def default_cfg_def)

text \<open>
  Property C23: a heartbeat frame is answered with a \<^verbatim>\<open>NOP\<close> command, and nothing else
  happens.
\<close>

theorem heartbeat_answered:
  assumes "live q p w" and "conns w p = Some c" and "socks w q = Some b"
    and "current_frame_type c = NSQ_FRAME_TYPE_RESPONSE"
    and "mem_read (orig (read_buf b)) (current_data c) 11 = Inr heartbeat"
    and "length (command_bytes NOP) \<le> cmd_space p w"
    and "length (wbuf q w) + length (command_bytes NOP) \<le> sock_space q w"
  shows "\<exists>w'. handle_frame cc q p w = Inr w' \<and> quiet q p [] w w'
    \<and> wbuf q w' = wbuf q w @ bytes_of ''NOP\<newline>'' \<and> io_active (Write_io q) (calls w')"
proof -
  have "length heartbeat = 11" by (simp add: heartbeat_def bytes_of_def)
  then have eq: "strncmp_eq (orig (read_buf b)) (current_data c) heartbeat = Inr True"
    using strncmp_eq_prefix [of "orig (read_buf b)" "current_data c" heartbeat heartbeat] assms(5) by simp
  have "command_args_ok NOP" using NOP_small by simp
  from send_puts [OF assms(1) _ this assms(6,7), of nsq_nop]
  obtain w' where "block [reset_command_buf p, write_command nsq_nop p, flush_command_buf p] w = Inr w'"
      "puts q p (command_bytes NOP) w w'" by auto
  moreover have "command_bytes NOP = bytes_of ''NOP\<newline>''"
    by (simp add: command_bytes_def command_pieces_def cmd_pieces_def c_str_def bytes_of_def of_char_def)
  ultimately show ?thesis
    using assms(2-4) eq by (auto simp: handle_frame_def on_conn_def on_sock_def puts_def simp del: block.simps)
qed

text \<open>
  The message handler of \<^verbatim>\<open>src/test.c\<close> sends \<^verbatim>\<open>FIN\<close> with the id of the
  message and then \<^verbatim>\<open>RDY\<close> with the reader's credit, and leaves the reading alone.
\<close>

theorem message_acknowledged:
  assumes "reader_owns p w" and "live q p w" and "rdr w = Some r" and "length (id_bytes m) = 17"
    and "length (command_bytes (FIN (id_bytes m))) \<le> cmd_space p w"
    and "length (command_bytes (RDY (max_in_flight r))) \<le> cmd_space p w"
    and "length (wbuf q w) + length (command_bytes (FIN (id_bytes m)))
      + length (command_bytes (RDY (max_in_flight r))) \<le> sock_space q w"
  shows "\<exists>w'. message_handler p m w = Inr w' \<and> quiet q p [] w w'
    \<and> wbuf q w' = wbuf q w @ command_bytes (FIN (id_bytes m)) @ command_bytes (RDY (max_in_flight r))
    \<and> io_active (Write_io q) (calls w')"
proof -
  have "int_range (max_in_flight r)" using assms(1,3) by (auto simp: reader_owns_def)
  then have ok: "command_args_ok (FIN (id_bytes m))" "command_args_ok (RDY (max_in_flight r))"
    using FIN_small [of "id_bytes m"] RDY_small assms(4) by simp_all
  have "length (wbuf q w) + length (command_bytes (FIN (id_bytes m)) @ command_bytes (RDY (max_in_flight r)))
      \<le> sock_space q w" using assms(7) by simp
  from send_pair_puts [OF assms(2,3) _ _ ok assms(5,6) this,
      of "write_command (\<lambda>j. nsq_finish j (id_bytes m)) p"
         "on_rdr (\<lambda>r. write_command (\<lambda>j. nsq_ready j (max_in_flight r)) p)"]
  show ?thesis
    unfolding message_handler_def by (auto simp: on_rdr_def puts_def simp del: block.simps)
qed

theorem heartbeat_answered_witness:
  "\<exists>w'. handle_frame (reader_cc test_app) 2 1 (demo_live heartbeat) = Inr w'
    \<and> wbuf 2 w' = bytes_of ''NOP\<newline>''"
proof -
  have hb: "length heartbeat = 11" by (simp add: heartbeat_def bytes_of_def)
  have "length (command_bytes NOP) = 4"
    by (simp add: command_bytes_def command_pieces_def cmd_pieces_def wire_simps c_str_def)
  moreover obtain b c where "socks (demo_live heartbeat) 2 = Some b" "conns (demo_live heartbeat) 1 = Some c"
      "current_frame_type c = NSQ_FRAME_TYPE_RESPONSE"
      "mem_read (orig (read_buf b)) (current_data c) 11 = Inr heartbeat"
    using hb by (simp add: demo_live_def new_conn_def new_sock_def NSQ_FRAME_TYPE_RESPONSE_def mem_read_def)
  ultimately show ?thesis
    using heartbeat_answered [of 2 1 "demo_live heartbeat" c b "reader_cc test_app"] demo_live_ok(1) [of heartbeat]
      hb demo_live_space by auto
qed

definition demo_message :: NSQMessage where
  "demo_message = \<lparr>timestamp = 5, attempts = 1, id_bytes = replicate 16 65 @ [0],
                   body_length = 2, body = [104, 105]\<rparr>"

theorem message_acknowledged_witness:
  "\<exists>w'. message_handler 1 demo_message (demo_live [1]) = Inr w'
    \<and> wbuf 2 w' = [70, 73, 78, 32] @ replicate 16 65 @ [10, 82, 68, 89, 32, 49, 10]"
proof -
  have d: "sprintf_d 1 = [49]" by (simp add: sprintf_d_def, subst dec_digits.simps, simp)
  have "command_bytes (FIN (id_bytes demo_message)) = [70, 73, 78, 32] @ replicate 16 65 @ [10]"
    "command_bytes (RDY (max_in_flight (demo_reader\<lparr>conns_head := 1\<rparr>))) = [82, 68, 89, 32, 49, 10]"
    by (simp_all add: d demo_reader_def demo_message_def command_bytes_def command_pieces_def cmd_pieces_def
        wire_simps c_str_def takeWhile_append)
  then show ?thesis
    using message_acknowledged [OF demo_live_ok(2,1) demo_live_space(4), of "[1]" demo_message]
      demo_live_space by (auto simp: demo_message_def)
qed

end
