(* ===== verification/Lifecycle.thy ===== *)
theory Lifecycle
  imports Session
begin

section \<open>Losing a connection and dialling again\<close>

text \<open>
  The life of a connection after it was started: the connect fails, the peer hangs up, the
  reconnect timer fires. Without lookupd a lost connection is retried until it succeeds; with
  lookupd it is freed, and the next poll finds its producer again.
\<close>

subsection \<open>What closing does\<close>

text \<open>The close callback of the reader, without and with lookupd endpoints.\<close>

lemma reader_close_run:
  assumes own: "reader_owns p w" and r: "rdr w = Some r" and xs: "conn_list w xs"
    and app: "app_close app = None" and c: "conns w p = Some c" "conn_bs c = q"
    and b: "socks w q = Some b"
  shows "\<exists>w' h. nsqd_connection_close_cb (reader_cc app) q p w = Inr w'
    \<and> rdr w' = Some (r\<lparr>conns_head := h\<rparr>) \<and> conn_list w' (remove1 p xs)
    \<and> (if lookupd_head r = 0
       then conns w' p = Some c \<and> socks w' = socks w
         \<and> calls w' = Ev_timer_again (Reconnect_timer p) # calls w
       else conns w' p = None \<and> socks w' = (socks w)(q := None))"
proof -
  have rep: "ll_rep conn_next (conns w) (conns_head r) xs" using r xs by (simp add: conn_list_def)
  obtain ys where ys: "conn_list w ys" "p \<in> set ys" "p \<noteq> 0"
    using own r by (auto simp: reader_owns_def conn_list_def)
  then have mem: "p \<in> set xs" "p \<noteq> 0" using conn_list_unique [OF xs ys(1)] by simp_all
  have tm: "if lookupd_head r = 0 then reconnect_timer c = Timer_allocated else reconnect_timer c \<noteq> Timer_dangling"
    using own r c by (auto simp: reader_owns_def)
  obtain h hp where del: "LL_DELETE conn_next set_conn_next (conns_head r) p (conns w) = Inr (h, hp)"
      "ll_rep conn_next hp h (remove1 p xs)" "hp p = Some c"
    using conn_list.delete_removes [OF rep mem(1)] c(1) by auto
  let ?w1 = "w\<lparr>conns := hp, rdr := Some (r\<lparr>conns_head := h\<rparr>)\<rparr>"
  have d: "delete_conn p w = Inr ?w1" using del(1) r by (simp add: delete_conn_def on_rdr_def)
  have start: "nsqd_connection_close_cb (reader_cc app) q p w
      = (if lookupd_head r = 0 then ev_timer_again_reconnect p else free_nsqd_connection p) ?w1"
    using c d app by (simp add: nsqd_connection_close_cb_def reader_cc_def on_conn_def nsq_reader_close_cb_def on_rdr_def)
  show ?thesis
  proof (cases "lookupd_head r = 0")
    case True
    then show ?thesis
      using start tm del(2,3) by (auto simp: ev_timer_again_reconnect_def on_conn_def emit_def conn_list_def)
  next
    case False
    have nx: "p \<notin> set (remove1 p xs)" using rep by (simp add: ll_rep_def)
    have "nsqd_connection_stop_timer p ?w1 = Inr (if reconnect_timer c = Timer_null then ?w1 else
        ?w1\<lparr>calls := Ev_timer_stop (Reconnect_timer p) # calls w,
           conns := hp(p \<mapsto> c\<lparr>reconnect_timer := Timer_dangling\<rparr>)\<rparr>)"
      using False tm del(3) mem(2)
      by (cases "reconnect_timer c") (simp_all add: nsqd_connection_stop_timer_def on_conn_def emit_def upd_conn_def)
    then show ?thesis
      using start False del(2,3) mem(2) c(2) b nx
      by (auto simp: free_nsqd_connection_def on_conn_def free_buffered_socket_def conn_list_def ll_rep_def ll_list_upd)
  qed
qed

lemma closes:
  assumes own: "reader_owns p w" and r: "rdr w = Some r" and xs: "conn_list w xs"
    and app: "app_close app = None" and c: "conns w p = Some c" "conn_bs c = q"
    and b: "socks w q = Some b" "state b = BS_CONNECTING \<or> state b = BS_CONNECTED \<and> read_ev b \<noteq> None \<and> write_ev b \<noteq> None"
      "cbarg b = p" "close_callback b = Some Nsqd_close_cb"
  shows "\<exists>w' h. buffered_socket_close (nsqd_call (reader_cc app)) q w = Inr w'
    \<and> rdr w' = Some (r\<lparr>conns_head := h\<rparr>) \<and> conn_list w' (remove1 p xs)
    \<and> (if lookupd_head r = 0
       then conns w' p = Some c \<and> socks w' = (socks w)(q \<mapsto> b\<lparr>fd := -1, state := BS_DISCONNECTED\<rparr>)
         \<and> timer_active (Reconnect_timer p) (calls w')
       else conns w' p = None \<and> socks w' q = None)"
proof -
  let ?w = "closed_world q b w"
  have "reader_owns p ?w" by (rule reader_owns_kept [OF own]) (simp add: others_kept_def closed_world_def)
  moreover have "conn_list ?w xs" using xs by (simp add: conn_list_def closed_world_def cong: option.case_cong)
  ultimately obtain w' h where "nsqd_connection_close_cb (reader_cc app) q p ?w = Inr w'"
      "rdr w' = Some (r\<lparr>conns_head := h\<rparr>)" "conn_list w' (remove1 p xs)"
      "if lookupd_head r = 0
       then conns w' p = Some c \<and> socks w' = socks ?w
         \<and> calls w' = Ev_timer_again (Reconnect_timer p) # calls ?w
       else conns w' p = None \<and> socks w' = (socks ?w)(q := None)"
    using reader_close_run [of p ?w r xs app c q "b\<lparr>fd := -1, state := BS_DISCONNECTED\<rparr>"] r app c
    by (auto simp: closed_world_def)
  moreover have "buffered_socket_close (nsqd_call (reader_cc app)) q w
      = nsqd_connection_close_cb (reader_cc app) q p ?w"
    using b by (subst close_eq [OF b(1)]) (auto simp: closed_world_def invoke_Some)
  ultimately show ?thesis by (auto simp: closed_world_def)
qed

text \<open>What is left of a connection that was lost.\<close>

definition retried :: "ptr \<Rightarrow> ptr \<Rightarrow> nsq_world \<Rightarrow> bool" where
  "retried q p w \<longleftrightarrow> (\<exists>c b. conns w p = Some c \<and> conn_bs c = q
     \<and> reconnect_timer c = Timer_allocated \<and> socks w q = Some b
     \<and> state b = BS_DISCONNECTED \<and> fd b = -1) \<and> enabled (Reconnect_due p) w"

definition released :: "ptr \<Rightarrow> ptr \<Rightarrow> nsq_world \<Rightarrow> bool" where
  "released q p w \<longleftrightarrow> conns w p = None \<and> socks w q = None"

lemma closes_cases:
  assumes "reader_owns p w" and "rdr w = Some r" and "conn_list w xs"
    and "app_close app = None" and "conns w p = Some c" "conn_bs c = q"
    and "socks w q = Some b" "state b = BS_CONNECTING \<or> state b = BS_CONNECTED \<and> read_ev b \<noteq> None \<and> write_ev b \<noteq> None"
      "cbarg b = p" "close_callback b = Some Nsqd_close_cb"
  shows "\<exists>w'. buffered_socket_close (nsqd_call (reader_cc app)) q w = Inr w' \<and> conn_list w' (remove1 p xs)
    \<and> (\<exists>h. rdr w' = Some (r\<lparr>conns_head := h\<rparr>))
    \<and> (if lookupd_head r = 0 then retried q p w' else released q p w')"
proof -
  obtain w' h where "buffered_socket_close (nsqd_call (reader_cc app)) q w = Inr w'" "conn_list w' (remove1 p xs)"
    "rdr w' = Some (r\<lparr>conns_head := h\<rparr>)"
    "if lookupd_head r = 0
       then conns w' p = Some c \<and> socks w' = (socks w)(q \<mapsto> b\<lparr>fd := -1, state := BS_DISCONNECTED\<rparr>)
         \<and> timer_active (Reconnect_timer p) (calls w')
       else conns w' p = None \<and> socks w' q = None"
    using closes [OF assms] by blast
  moreover have "lookupd_head r = 0 \<Longrightarrow> reconnect_timer c = Timer_allocated"
    using assms(1,2,5) by (auto simp: reader_owns_def)
  ultimately show ?thesis using assms(6) by (auto simp: retried_def released_def split: if_splits)
qed

lemma connect_failure_run:
  assumes "reader_owns p w" and "dialled q p w" and "rdr w = Some r" and "conn_list w xs"
    and "app_close app = None" and "\<not> connect_ok env"
  shows "\<exists>w'. handle app lib net (Connect_done q env) w = Inr w' \<and> conn_list w' (remove1 p xs)
    \<and> (\<exists>h. rdr w' = Some (r\<lparr>conns_head := h\<rparr>))
    \<and> (if lookupd_head r = 0 then retried q p w' else released q p w')"
proof -
  obtain b c where b: "socks w q = Some b" "cbarg b = p" "state b = BS_CONNECTING"
      "close_callback b = Some Nsqd_close_cb" and c: "conns w p = Some c" "conn_bs c = q"
    using assms(2) by (auto simp: dialled_def)
  let ?w = "connect_fail_world env (w\<lparr>calls := Once_fired q # calls w\<rparr>)"
  have w: "socks ?w = socks w" "conns ?w = conns w" "rdr ?w = rdr w" by (simp_all add: connect_fail_world_def)
  have "reader_owns p ?w"
    by (rule reader_owns_kept [OF assms(1)]) (simp add: others_kept_def connect_fail_world_def)
  moreover have "conn_list ?w xs" using assms(4) by (simp add: conn_list_def w cong: option.case_cong)
  ultimately have "\<exists>w'. buffered_socket_close (nsqd_call (reader_cc app)) q ?w = Inr w' \<and> conn_list w' (remove1 p xs)
    \<and> (\<exists>h. rdr w' = Some (r\<lparr>conns_head := h\<rparr>))
    \<and> (if lookupd_head r = 0 then retried q p w' else released q p w')"
    using b c assms(3,5) by (intro closes_cases [where c = c and b = b]) (simp_all add: w)
  then show ?thesis using b(1) assms(6) by (simp add: emit_def connect_cb_eq)
qed

subsection \<open>The three ways on\<close>

text \<open>
  Property C15: a connect that fails or times out. The socket is closed and the connection
  leaves the list. Without lookupd it stays allocated with its reconnect timer running; with
  lookupd connection and socket are freed.
\<close>

theorem connect_failure_handled:
  assumes "reader_owns p w" and "dialled q p w" and "rdr w = Some r" and "conn_list w xs"
    and "app_close app = None" and "\<not> connect_ok env"
  shows "\<exists>w'. handle app lib net (Connect_done q env) w = Inr w' \<and> conn_list w' (remove1 p xs)
    \<and> (\<exists>h. rdr w' = Some (r\<lparr>conns_head := h\<rparr>))
    \<and> (if lookupd_head r = 0 then retried q p w' else released q p w')"
  using assms by (rule connect_failure_run)

definition hangs_up :: "read_env \<Rightarrow> bool" where
  "hangs_up env \<longleftrightarrow> (case recv env (read_size env) of Recv_bytes bs \<Rightarrow> bs = []
     | Recv_error e \<Rightarrow> e \<noteq> EAGAIN \<and> e \<noteq> EINTR)"

text \<open>
  Property C16: the peer closes the connection, or a read fails for good: the same happens as
  for a failed connect.
\<close>

theorem hangup_handled:
  assumes "reader_owns p w" and "live q p w" and "rdr w = Some r" and "conn_list w xs"
    and "app_close app = None" and "socks w q = Some b" and "read_env_ok env" and "hangs_up env"
    and "accepts (read_size env) (read_buf b)"
  shows "\<exists>w'. handle app lib net (Socket_readable q env) w = Inr w' \<and> conn_list w' (remove1 p xs)
    \<and> (\<exists>h. rdr w' = Some (r\<lparr>conns_head := h\<rparr>))
    \<and> (if lookupd_head r = 0 then retried q p w' else released q p w')"
proof -
  obtain c where c: "conns w p = Some c" "conn_bs c = q" and b: "cbarg b = p" "state b = BS_CONNECTED"
      "read_ev b \<noteq> None" "write_ev b \<noteq> None" "close_callback b = Some Nsqd_close_cb"
      "error_callback b = Some Nsqd_error_cb" "read_callback b = None" "wf_bounded (read_buf b)"
    using assms(2,6) by (auto simp: live_def)
  have wf: "wf_buffer (read_buf b)" "growable (read_size env) (read_buf b)"
    using b(8) by (simp_all add: wf_bounded_def growable_def)
  obtain rb res err where rd: "buffer_read_fd (junk w) env (errno w) (read_buf b) = Inr (rb, res, err)"
      and bad: "res = 0 \<or> res = -1 \<and> err \<noteq> EAGAIN \<and> err \<noteq> EINTR"
    using buffer_read_fd_accepted [OF wf(1) assms(7,9) wf(2), of "junk w" "errno w"] assms(8)
    by (cases "recv env (read_size env)") (auto simp: hangs_up_def)
  let ?b = "b\<lparr>read_buf := rb\<rparr>"
  let ?w = "buf_world q ?b err [] w"
  have w: "socks ?w q = Some ?b" "conns ?w = conns w" "rdr ?w = rdr w" by (simp_all add: buf_world_def)
  have "reader_owns p ?w" by (rule reader_owns_kept [OF assms(1)]) (simp add: others_kept_def buf_world_def)
  moreover have "conn_list ?w xs" using assms(4) by (simp add: conn_list_def w cong: option.case_cong)
  ultimately have "\<exists>w'. buffered_socket_close (nsqd_call (reader_cc app)) q ?w = Inr w' \<and> conn_list w' (remove1 p xs)
    \<and> (\<exists>h. rdr w' = Some (r\<lparr>conns_head := h\<rparr>))
    \<and> (if lookupd_head r = 0 then retried q p w' else released q p w')"
    using b c assms(3,5) by (intro closes_cases [OF _ _ _ _ _ _ w(1)]) (simp_all add: w)
  moreover have "handle app lib net (Socket_readable q env) w
      = buffered_socket_close (nsqd_call (reader_cc app)) q ?w"
    using bad w(1) b(1,6) by (auto simp: read_cb_eq [OF assms(6) b(7) rd] Let_def io_error_def invoke_Some
        nsqd_connection_error_cb_def)
  ultimately show ?thesis by simp
qed

text \<open>
  Property C14: the reconnect timer of a lost connection dials again. A new connection to the
  same address and port is at the end of the list and waits for its connect, with a reconnect
  timer of its own; the old connection, its socket and its timer are released.
\<close>

theorem reconnect_dials_again:
  assumes "net_inv w" and "retried q p w" and "conns w p = Some c" and "rdr w = Some r" and "lookupd_head r = 0"
    and "conn_list w xs" and "n = brk w" and "connect_outcome (net n) = Started" and "0 < socket_ret (net n)"
  shows "\<exists>w' d. handle app lib net (Reconnect_due p) w = Inr w' \<and> conn_list w' (xs @ [n])
    \<and> released q p w' \<and> \<not> enabled (Reconnect_due p) w'
    \<and> conns w' n = Some d \<and> conn_address d = c_str (conn_address c) \<and> conn_port d = conn_port c
    \<and> reconnect_timer d = Timer_allocated \<and> enabled (Connect_done (conn_bs d) env) w'"
proof -
  obtain r' d m h w1 where w1: "nsq_reader_connect_to_nsqd net (conn_address c) (conn_port c) w
      = Inr (socket_ret (net n), w1)" "conns w1 n = Some d"
      "d = (new_conn (cfg r) (junk w) (conn_address c) (conn_port c) (n + 1))
         \<lparr>reconnect_timer := Timer_allocated, conn_next := m\<rparr>"
      "socks w1 = (socks w)(n + 1 \<mapsto> connect_sock (net n)
         (new_sock (cfg r) (junk w) (conn_address c) (conn_port c) n))"
      "rdr w1 = Some r'" "conn_list w1 (xs @ [n])" "calls w1 = connect_calls (net n) (n + 1) @ calls w"
      "\<forall>x. x \<noteq> n \<and> x \<notin> set xs \<longrightarrow> conns w1 x = conns w x"
    using connect_run [OF assms(1,4,6,7) refl, of net "conn_address c" "conn_port c"] assms(5,8,9) by auto
  have w: "alloc_ok w" "socks_inv w" "links_ok w" using assms(1) by (simp_all add: net_inv_def)
  have t: "timer_active (Reconnect_timer p) (calls w)" "conn_bs c = q" "reconnect_timer c = Timer_allocated"
    using assms(2,3) by (auto simp: retried_def)
  have "p \<noteq> 0" using assms(3) w(1) by (cases p) (auto simp: alloc_ok_def)
  then have p: "p \<notin> set xs" "p \<noteq> n" "p \<noteq> 0"
    using timer_unlisted [OF assms(1) t(1)] assms(3,6,7) w(1) by (auto simp: unlisted_def alloc_ok_def)
  obtain b where b: "socks w (conn_bs c) = Some b" using links_conn [OF w(3) assms(3)] by blast
  have q: "conn_bs c \<noteq> n + 1" using b w(2) assms(7) by (auto simp: socks_inv_def)
  have c1: "conns w1 p = Some c" "socks w1 (conn_bs c) = Some b" using w1(4,8) p q b assms(3) by simp_all
  let ?w2 = "w1\<lparr>calls := Ev_timer_stop (Reconnect_timer p) # calls w1,
      conns := (conns w1)(p \<mapsto> c\<lparr>reconnect_timer := Timer_dangling\<rparr>)\<rparr>"
  let ?w3 = "?w2\<lparr>socks := (socks w1)(conn_bs c := None), conns := (conns w1)(p := None)\<rparr>"
  have "free_nsqd_connection p w1 = Inr ?w3"
    using c1 p(3) t(3)
    by (simp add: free_nsqd_connection_def nsqd_connection_stop_timer_def on_conn_def emit_def upd_conn_def
        free_buffered_socket_def)
  then have "handle app lib net (Reconnect_due p) w = Inr ?w3"
    using assms(3,4,5) w1(1) by (simp add: nsq_reader_reconnect_cb_def on_conn_def on_rdr_def)
  moreover have "conn_list ?w3 (xs @ [n])"
    using w1(5,6) p by (simp add: conn_list_def ll_rep_def ll_list_upd)
  moreover have "conn_bs d = n + 1" using w1(3) by (simp add: new_conn_def)
  moreover have "once_pending (n + 1) (calls w1)" using w1(7) assms(8) by (simp add: connect_calls_def)
  ultimately show ?thesis
    using w1(2,3) p t(2) by (intro exI [of _ ?w3] exI [of _ d]) (simp add: released_def new_conn_def)
qed

subsection \<open>On the concrete session\<close>

lemma demo_list: "conn_list demo_world []"
  by (simp add: conn_list_def demo_rdr demo_reader_def ll_rep_def)

lemma demo_dialled:
  obtains w1 h where "reachable test_app demo_lib demo_net w1" and "reader_owns 1 w1" and "dialled 2 1 w1"
    and "rdr w1 = Some (demo_reader\<lparr>conns_head := h\<rparr>)" and "conn_list w1 [1]"
    and "once_pending 2 (calls w1)"
    and "\<exists>c. conns w1 1 = Some c \<and> conn_bs c = 2 \<and> reconnect_timer c = Timer_allocated"
proof -
  note st = demo_started(1,2) [of 1]
  obtain w1 c where run: "nsq_reader_connect_to_nsqd demo_net [49] 4150 demo_world = Inr (7, w1)"
      and c: "conn_list w1 [1]" "conns w1 1 = Some c" "conn_bs c = 2" "reconnect_timer c = Timer_allocated"
    using connect_run [OF demo_inv demo_rdr demo_list demo_brk [symmetric] one_add_one [symmetric],
        of demo_net "[49]" 4150] st
    by (auto simp: demo_net_def new_conn_def demo_reader_def)
  have "main (\<lambda>_. 0) demo_net [116] [99] None [Connect_to [49] 4150] = Inr w1"
    using run by (simp add: main_def demo_created)
  then have "reachable test_app demo_lib demo_net w1"
    by (intro reachable.enter [of None "[116]" "[99]"]) (simp_all add: cfg_small_def)
  then show ?thesis
    using connect_dials [OF demo_inv demo_rdr demo_brk [symmetric] one_add_one [symmetric] st run] c that
    by blast
qed

definition demo_timeout :: connected_env where
  "demo_timeout = \<lparr>timed_out = True, getsockopt_ret = 0, getsockopt_errno = 0, so_error = 0\<rparr>"

lemma demo_lost:
  obtains w c r where "reachable test_app demo_lib demo_net w" and "retried 2 1 w" and "conn_list w []"
    and "conns w 1 = Some c" and "rdr w = Some r" and "lookupd_head r = 0"
proof -
  obtain w h where w: "reachable test_app demo_lib demo_net w" "reader_owns 1 w" "dialled 2 1 w"
      "rdr w = Some (demo_reader\<lparr>conns_head := h\<rparr>)" "conn_list w [1]" "once_pending 2 (calls w)"
    by (rule demo_dialled)
  have "app_close test_app = None" "\<not> connect_ok demo_timeout" "lookupd_head demo_reader = 0"
    by (simp_all add: test_app_def demo_timeout_def connect_ok_def demo_reader_def)
  then obtain w' g where w': "handle test_app demo_lib demo_net (Connect_done 2 demo_timeout) w = Inr w'"
      "conn_list w' []" "rdr w' = Some (demo_reader\<lparr>conns_head := g\<rparr>)" "retried 2 1 w'"
    using connect_failure_run [OF w(2-5), of test_app demo_timeout demo_lib demo_net] by auto
  have "possible (Connect_done 2 demo_timeout) w"
    by (simp add: sockopt_fits_def demo_timeout_def split: option.split)
  then have "step test_app demo_lib demo_net w (Connect_done 2 demo_timeout) w'"
    using w(6) w'(1) by (simp only: step_simps enabled.simps)
  then have "reachable test_app demo_lib demo_net w'" by (rule reachable.loop [OF w(1)])
  moreover obtain c where "conns w' 1 = Some c" using w'(4) by (auto simp: retried_def)
  ultimately show ?thesis using w' \<open>lookupd_head demo_reader = 0\<close> that by simp
qed

theorem connect_failure_handled_witness:
  "\<exists>w w'. handle test_app demo_lib demo_net (Connect_done 2 demo_timeout) w = Inr w'
    \<and> retried 2 1 w' \<and> conn_list w' []"
proof -
  obtain w h where w: "reader_owns 1 w" "dialled 2 1 w" "rdr w = Some (demo_reader\<lparr>conns_head := h\<rparr>)"
      "conn_list w [1]"
    by (rule demo_dialled)
  from connect_failure_handled [OF this, of test_app demo_timeout demo_lib demo_net]
  show ?thesis by (auto simp: test_app_def demo_timeout_def connect_ok_def demo_reader_def simp del: handle.simps)
qed

theorem hangup_handled_witness:
  "\<exists>w w'. handle test_app demo_lib demo_net (Socket_readable 2 (demo_read [])) w = Inr w' \<and> retried 2 1 w'"
proof -
  let ?bs = "[0, 0] :: byte list"
  have env: "read_env_ok (demo_read [])" "hangs_up (demo_read [])"
    by (simp_all add: read_env_ok_def demo_read_def hangs_up_def)
  have list: "conn_list (demo_live ?bs) [1]"
    by (simp add: conn_list_def demo_live_def demo_reader_def ll_rep_def new_conn_def)
  obtain b where b: "socks (demo_live ?bs) 2 = Some b" "accepts (read_size (demo_read [])) (read_buf b)"
    by (simp add: demo_live_def read_size_def demo_read_def accepts_def)
  show ?thesis
    using hangup_handled [OF demo_live_ok(2,1) demo_live_space(4) list _ b(1) env b(2), of test_app demo_lib demo_net]
    by (auto simp: test_app_def demo_reader_def simp del: handle.simps)
qed

theorem reconnect_dials_again_witness:
  "\<exists>w w' n. handle test_app demo_lib demo_net (Reconnect_due 1) w = Inr w' \<and> released 2 1 w'
    \<and> conn_list w' [n]"
proof -
  obtain w c r where w: "reachable test_app demo_lib demo_net w" "retried 2 1 w" "conn_list w []"
    "conns w 1 = Some c" "rdr w = Some r" "lookupd_head r = 0"
    by (rule demo_lost)
  from reconnect_dials_again [where net = demo_net and app = test_app and lib = demo_lib and env = demo_connected,
      OF reachable_net_inv [OF test_app_ok w(1)] w(2,4,5,6,3) refl demo_started(1,2)]
  show ?thesis by (auto simp del: handle.simps)
qed

end
