(* ===== verification/Safety.thy ===== *)
theory Safety
  imports Lifecycle
begin

section \<open>Safety of every reachable state\<close>

text \<open>
  What the invariant of the program says of the states that the event loop goes through, for
  any application whose callbacks keep it, any answers of the kernel, of the peers and of
  libcurl, and any order of the events.
\<close>

subsection \<open>Reachable states of the concrete session\<close>

lemma demo_reached:
  obtains w where "reachable test_app demo_lib demo_net w" and "reader_owns 1 w" and "unconsumed 2 1 w []"
    and "wbuf 2 w = magic @ subscription demo_reader"
    and "map_option read_buf (socks w 2) = Some (new_buffer (junk demo_world) (16 * 1024) (16 * 1024))"
proof -
  obtain w1 w2 where w1: "nsq_reader_connect_to_nsqd demo_net [49] 4150 demo_world = Inr (7, w1)"
    "enabled (Connect_done 2 demo_connected) w1"
    "handle test_app demo_lib demo_net (Connect_done 2 demo_connected) w1 = Inr w2"
    and w2: "reader_owns 1 w2" "unconsumed 2 1 w2 []" "wbuf 2 w2 = magic @ subscription demo_reader"
      "map_option read_buf (socks w2 2) = Some (new_buffer (junk demo_world) (16 * 1024) (16 * 1024))"
    by (rule demo_session)
  have "main (\<lambda>_. 0) demo_net [116] [99] None [Connect_to [49] 4150] = Inr w1"
    using w1(1) by (simp add: main_def demo_created)
  then have r1: "reachable test_app demo_lib demo_net w1"
    by (intro reachable.enter [of None "[116]" "[99]"]) (simp_all add: cfg_small_def)
  obtain b where "socks w1 2 = Some b" "fd b \<noteq> -1"
    using connect_run [OF demo_inv demo_rdr _ demo_brk [symmetric] one_add_one [symmetric], of "[]" demo_net "[49]" 4150]
      w1(1) demo_started(1) [of 1]
    by (auto simp: demo_net_def connect_sock_def conn_list_def demo_rdr demo_reader_def ll_rep_def)
  then have "possible (Connect_done 2 demo_connected) w1" by (simp add: sockopt_fits_def)
  then have "step test_app demo_lib demo_net w1 (Connect_done 2 demo_connected) w2"
    using w1(2,3) by (simp only: step_simps)
  then have "reachable test_app demo_lib demo_net w2" by (rule reachable.loop [OF r1])
  then show ?thesis using w2 by (rule that)
qed

lemma demo_socket:
  assumes "unconsumed 2 1 w []" and "wbuf 2 w = magic @ subscription demo_reader"
  obtains b c where "socks w 2 = Some b" "state b = BS_CONNECTED" "contents (write_buf b) \<noteq> []"
    "conns w 1 = Some c" "io_active (Read_io 2) (calls w)"
proof -
  obtain b c where "socks w 2 = Some b" "state b = BS_CONNECTED" "conns w 1 = Some c" "io_active (Read_io 2) (calls w)"
    using unconsumed_live [OF assms(1)] by (auto simp: live_def)
  moreover have "contents (write_buf b) \<noteq> []"
    using assms(2) calculation(1) by (simp add: wbuf_def magic_def bytes_of_def)
  ultimately show ?thesis using that by blast
qed

lemma demo_received:
  obtains w b where "reachable test_app demo_lib demo_net w" and "enabled (Read_bytes_due 2) w"
    and "socks w 2 = Some b"
proof -
  obtain w where w: "reachable test_app demo_lib demo_net w" "unconsumed 2 1 w []"
    "map_option read_buf (socks w 2) = Some (new_buffer (junk demo_world) (16 * 1024) (16 * 1024))"
    by (rule demo_reached)
  let ?env = "demo_read [0, 0, 0, 6]"
  have r: "reading 2 1 Nsqd_read_size 4 w" using w(2) by (auto simp: unconsumed_def be32_bytes_def)
  obtain b where b: "socks w 2 = Some b" "wf_bounded (read_buf b)" "read_callback b = None" "read_bytes_n b = 4"
    using r by (auto simp: reading_def live_def)
  obtain rb res err where rd: "buffer_read_fd (junk w) ?env (errno w) (read_buf b) = Inr (rb, res, err)"
      "wf_bounded rb" "contents rb = contents (read_buf b) @ taken ?env 2 w" "res \<le> 0 \<longrightarrow> taken ?env 2 w = []"
    using read_fd_taken [OF b(2) demo_taken(2) [OF w(3), of "[0, 0, 0, 6]"] b(1)] by auto
  have tk: "taken ?env 2 w = [0, 0, 0, 6]" using demo_taken(1) [OF w(3)] by simp
  let ?b = "b\<lparr>read_buf := rb\<rparr>"
  let ?w = "buf_world 2 ?b err (wakeup 2 ?b) w"
  have "\<not> res \<le> 0" using rd(4) tk by auto
  then have "buffered_socket_read_cb (nsqd_call (reader_cc test_app)) ?env 2 w = Inr ?w"
    by (simp add: read_cb_eq [OF b(1,3) rd(1)] Let_def)
  then have "step test_app demo_lib demo_net w (Socket_readable 2 ?env) ?w"
    using reading_live [OF r] demo_taken(2) [OF w(3), of "[0, 0, 0, 6]"] by (auto simp: step_simps live_def)
  then have "reachable test_app demo_lib demo_net ?w" by (rule reachable.loop [OF w(1)])
  moreover have "reading 2 1 Nsqd_read_size 4 ?w" "rbuf 2 ?w = rbuf 2 w @ [0, 0, 0, 6]"
    using reading_more [OF r b(1) rd(2), of "[0, 0, 0, 6]" "wakeup 2 ?b"] rd(3) tk by simp_all
  then have "enabled (Read_bytes_due 2) ?w" by (simp add: reading_def)
  ultimately show ?thesis using that by simp
qed

subsection \<open>Properties\<close>

lemma reachable_parts:
  assumes "app_ok app" and "reachable app lib net w"
  obtains xs where "socks_inv w" "links_ok w" "alloc_ok w" "rdr_ok w" "conn_list w xs" "recon_ok w xs"
  using reachable_net_inv [OF assms] by (rule net_invE)

text \<open>
  Property C8: no wakeup is lost. In every reachable state a connected socket listens for
  input, for output while it has unsent data, and has its read timer running when the bytes
  that were asked for are there, for any application whose callbacks keep the invariant.
\<close>

theorem no_lost_wakeup:
  assumes "app_ok app" and "reachable app lib net w" and "socks w q = Some b" and "state b = BS_CONNECTED"
  shows "enabled (Socket_readable q env) w
    \<and> (contents (write_buf b) \<noteq> [] \<longrightarrow> enabled (Socket_writable q out) w)
    \<and> (read_bytes_callback b \<noteq> None \<and> read_bytes_n b \<le> length (contents (read_buf b))
        \<longrightarrow> enabled (Read_bytes_due q) w)"
proof -
  have "socks_inv w" using assms(1,2) by (rule reachable_parts)
  then have "sock_ok (calls w) q b" using assms(3) by (rule socks_inv_sock)
  then show ?thesis using assms(4) offset_contents [of "write_buf b"] offset_contents [of "read_buf b"]
    by (auto simp: sock_ok_def)
qed

theorem no_lost_wakeup_witness:
  "\<exists>w. reachable test_app demo_lib demo_net w
    \<and> enabled (Socket_writable 2 (\<lambda>bs. Send_count (length bs))) w"
proof -
  obtain w where w: "reachable test_app demo_lib demo_net w" "unconsumed 2 1 w []"
    "wbuf 2 w = magic @ subscription demo_reader"
    by (rule demo_reached)
  from w(2,3) obtain b where "socks w 2 = Some b" "state b = BS_CONNECTED" "contents (write_buf b) \<noteq> []"
    by (rule demo_socket)
  then show ?thesis using no_lost_wakeup [OF test_app_ok w(1)] w(1) by blast
qed



text \<open>
  The handler of the read timer never calls a null callback on a socket that is
  there: it calls one of the two readers of nsqd_connection.c, on the connection of the socket.
\<close>

theorem read_timer_has_callback:
  assumes "app_ok app" and "reachable app lib net w" and "enabled (Read_bytes_due q) w" and "socks w q = Some b"
  shows "(read_bytes_callback b = Some Nsqd_read_size \<or> read_bytes_callback b = Some Nsqd_read_data)
    \<and> (\<exists>c. conns w (read_bytes_arg b) = Some c \<and> conn_bs c = q)"
proof -
  obtain xs where w: "socks_inv w" "links_ok w" using assms(1,2) by (rule reachable_parts)
  have "read_bytes_callback b \<noteq> None"
    using socks_inv_sock [OF w(1) assms(4)] assms(3) by (simp add: sock_ok_def)
  then show ?thesis using links_sock [OF w(2) assms(4)] by (auto simp: sock_linked_def)
qed

theorem read_timer_has_callback_witness:
  "\<exists>w b. reachable test_app demo_lib demo_net w \<and> socks w 2 = Some b \<and> read_bytes_callback b \<noteq> None"
proof -
  obtain w b where w: "reachable test_app demo_lib demo_net w" "enabled (Read_bytes_due 2) w" "socks w 2 = Some b"
    by (rule demo_received)
  then show ?thesis using read_timer_has_callback [OF test_app_ok w] by auto
qed

text \<open>
  Property C9: in every reachable state the list of connections is a null-terminated list
  without repetition of allocated connections, each linked with its own socket, and none of
  them has its reconnect timer running.
\<close>

theorem connections_well_formed:
  assumes "app_ok app" and "reachable app lib net w" and "rdr w = Some r"
  shows "\<exists>xs. ll_rep conn_next (conns w) (conns_head r) xs
    \<and> (\<forall>p \<in> set xs. \<not> enabled (Reconnect_due p) w
         \<and> (\<exists>c b. conns w p = Some c \<and> socks w (conn_bs c) = Some b \<and> cbarg b = p))"
proof -
  obtain xs where w: "links_ok w" "conn_list w xs" "recon_ok w xs" using assms(1,2) by (rule reachable_parts)
  have rep: "ll_rep conn_next (conns w) (conns_head r) xs" using w(2) assms(3) by (simp add: conn_list_def)
  have "\<not> enabled (Reconnect_due p) w
      \<and> (\<exists>c b. conns w p = Some c \<and> socks w (conn_bs c) = Some b \<and> cbarg b = p)" if "p \<in> set xs" for p
    using that ll_rep_mem [OF rep that] links_conn [OF w(1)] w(3) by (fastforce simp: recon_ok_def)
  with rep show ?thesis by blast
qed

theorem connections_well_formed_witness:
  "\<exists>w r xs. reachable test_app demo_lib demo_net w \<and> rdr w = Some r
    \<and> ll_rep conn_next (conns w) (conns_head r) xs"
proof -
  obtain w h where "reachable test_app demo_lib demo_net w" "rdr w = Some (demo_reader\<lparr>conns_head := h\<rparr>)"
    by (rule demo_dialled)
  then show ?thesis using connections_well_formed [OF test_app_ok] by blast
qed

text \<open>
  Property C22: a reconnect timer runs only for a connection that is in no list and whose
  socket is closed.
\<close>

theorem reconnect_only_closed:
  assumes "app_ok app" and "reachable app lib net w" and "enabled (Reconnect_due p) w"
    and "conns w p = Some c" and "rdr w = Some r" and "ll_rep conn_next (conns w) (conns_head r) xs"
  shows "p \<notin> set xs \<and> (\<exists>b. socks w (conn_bs c) = Some b \<and> state b = BS_DISCONNECTED \<and> fd b = -1)"
proof -
  obtain ys where w: "socks_inv w" "links_ok w" "conn_list w ys" "recon_ok w ys"
    using assms(1,2) by (rule reachable_parts)
  have "ys = xs" using w(3) assms(5,6) by (intro conn_list_unique [OF w(3)]) (simp add: conn_list_def)
  obtain b where b: "socks w (conn_bs c) = Some b" using links_conn [OF w(2) assms(4)] by blast
  then have "p \<notin> set ys \<and> state b = BS_DISCONNECTED" using w(4) assms(3,4) by (auto simp: recon_ok_def)
  moreover have "sock_ok (calls w) (conn_bs c) b" using w(1) b by (rule socks_inv_sock)
  ultimately show ?thesis using b \<open>ys = xs\<close> by (auto simp: sock_ok_def)
qed

theorem reconnect_only_closed_witness:
  "\<exists>w. reachable test_app demo_lib demo_net w \<and> enabled (Reconnect_due 1) w
    \<and> (\<exists>b. socks w 2 = Some b \<and> state b = BS_DISCONNECTED)"
proof -
  obtain w c r where w: "reachable test_app demo_lib demo_net w" "retried 2 1 w" "conn_list w []"
    "conns w 1 = Some c" "rdr w = Some r" "lookupd_head r = 0"
    by (rule demo_lost)
  have en: "enabled (Reconnect_due 1) w" "conn_bs c = 2" using w(2,4) by (auto simp: retried_def)
  have "ll_rep conn_next (conns w) (conns_head r) []" using w(3,5) by (simp add: conn_list_def)
  from reconnect_only_closed [OF test_app_ok w(1) en(1) w(4,5) this]
  show ?thesis using w(1) en by auto
qed

subsection \<open>Steps, lists, configuration\<close>

text \<open>
  Property C27: the macros of \<^verbatim>\<open>utlist.h\<close>, expanded on connections, do what the operations on
  lists do: any sequence of appends and deletions run on the heap leads to a heap that
  represents the list obtained by the same sequence on lists.
\<close>

theorem conn_macros_are_lists:
  assumes "ll_rep conn_next h p xs" and "list_ops_ok (dom h) ops xs"
  shows "\<exists>p' h'. macro_run conn_next set_conn_next ops (p, h) = Inr (p', h')
    \<and> ll_rep conn_next h' p' (list_run ops xs) \<and> dom h' = dom h"
  using assms by (rule conn_list.macro_run_lists)

theorem conn_macros_are_lists_witness:
  "\<exists>p' h'. macro_run conn_next set_conn_next [Append 1, Append 2, Append 3, Delete 2, Append 2]
      (0, [1 \<mapsto> new_conn default_cfg (\<lambda>_. 0) [] 1 9, 2 \<mapsto> new_conn default_cfg (\<lambda>_. 0) [] 2 9,
           3 \<mapsto> new_conn default_cfg (\<lambda>_. 0) [] 3 9]) = Inr (p', h')
    \<and> ll_rep conn_next h' p' [1, 3, 2]"
proof -
  let ?h = "[1 \<mapsto> new_conn default_cfg (\<lambda>_. 0) [] 1 9, 2 \<mapsto> new_conn default_cfg (\<lambda>_. 0) [] 2 9,
           3 \<mapsto> new_conn default_cfg (\<lambda>_. 0) [] 3 9]"
  let ?ops = "[Append 1, Append 2, Append 3, Delete 2, Append 2]"
  have "ll_rep conn_next ?h 0 []" by (simp add: ll_rep_def)
  moreover have "list_ops_ok (dom ?h) ?ops []" by simp
  moreover have "list_run ?ops [] = [1, 3, 2]" by simp
  ultimately show ?thesis using conn_macros_are_lists [of ?h 0 "[]" ?ops] by metis
qed

text \<open>
  Property C35: the configuration of a reader. Every size and the poll interval are above 0
  whatever the caller passed, and sizes below \<open>2 ^ 31\<close> stay below it. Each of the seven values that was
  given above 0 is taken over as it is; one that was not, and all of them if there is no
  configuration, has its default.
\<close>

theorem reader_cfg_bounds:
  assumes "cfg_small c"
  shows "cfg_ok (reader_cfg c) \<and> 0 < lookupd_interval (reader_cfg c)
    \<and> (case c of
        None \<Rightarrow> reader_cfg c = default_cfg
      | Some g \<Rightarrow>
          lookupd_interval (reader_cfg c) = (if 0 < lookupd_interval g then lookupd_interval g else 5)
          \<and> list_all (\<lambda>(f, d). f (reader_cfg c) = (if 0 < f g then f g else d))
              [(command_buf_len, 4096), (command_buf_capacity, 4096), (read_buf_len, 16384),
               (read_buf_capacity, 16384), (write_buf_len, 16384), (write_buf_capacity, 16384)])"
  using assms
  by (cases c) (auto simp: reader_cfg_def cfg_ok_def default_cfg_def or_default_def cfg_small_def)

theorem reader_cfg_bounds_witness:
  "cfg_ok (reader_cfg (Some \<lparr>lookupd_interval = -1, command_buf_len = 0, command_buf_capacity = 7,
     read_buf_len = 100, read_buf_capacity = 0, write_buf_len = 0, write_buf_capacity = 5\<rparr>))
   \<and> write_buf_capacity (reader_cfg (Some \<lparr>lookupd_interval = -1, command_buf_len = 0, command_buf_capacity = 7,
     read_buf_len = 100, read_buf_capacity = 0, write_buf_len = 0, write_buf_capacity = 5\<rparr>)) = 5"
  using reader_cfg_bounds [of "Some \<lparr>lookupd_interval = -1, command_buf_len = 0, command_buf_capacity = 7,
     read_buf_len = 100, read_buf_capacity = 0, write_buf_len = 0, write_buf_capacity = 5\<rparr>"]
  by (simp add: cfg_small_def)

text \<open>
  Property C10: every step keeps the invariant. Whatever event libev delivers and whatever the
  system calls answer, a handler that returns leads from a well-formed state to a well-formed
  one, for any application that keeps it so.
\<close>

theorem step_keeps_invariant:
  assumes "app_ok app" and "net_inv w" and "step app lib net w ev w'"
  shows "net_inv w'"
  using reader_app.handle_inv [OF reader_app.intro [OF assms(1)] assms(2)] assms(3) by (auto simp: step_simps)

theorem step_keeps_invariant_witness:
  "\<exists>w w'. step test_app demo_lib demo_net w (Connect_done 2 demo_timeout) w' \<and> net_inv w'"
proof -
  obtain w h where w: "reachable test_app demo_lib demo_net w" "reader_owns 1 w" "dialled 2 1 w"
      "rdr w = Some (demo_reader\<lparr>conns_head := h\<rparr>)" "conn_list w [1]" "once_pending 2 (calls w)"
    by (rule demo_dialled)
  have "app_close test_app = None" "\<not> connect_ok demo_timeout"
    by (simp_all add: test_app_def demo_timeout_def connect_ok_def)
  then obtain w' where "handle test_app demo_lib demo_net (Connect_done 2 demo_timeout) w = Inr w'"
    using connect_failure_run [OF w(2-5)] by blast
  moreover have "possible (Connect_done 2 demo_timeout) w"
    by (simp add: sockopt_fits_def demo_timeout_def split: option.split)
  ultimately have "step test_app demo_lib demo_net w (Connect_done 2 demo_timeout) w'"
    using w(6) by (simp only: step_simps enabled.simps)
  then show ?thesis
    using step_keeps_invariant [OF test_app_ok reachable_net_inv [OF test_app_ok w(1)]] by blast
qed

end
