(* ===== verification/Lookupd.thy ===== *)
theory Lookupd
  imports Safety
begin

section \<open>Discovery through a lookupd\<close>

text \<open>
  What the poll timer sends (\<^verbatim>\<open>nsq_reader_lookupd_poll_cb\<close> of \<^verbatim>\<open>src/reader.c\<close>) and what
  \<^verbatim>\<open>nsq_lookupd_request_cb\<close> of \<^verbatim>\<open>src/nsqlookupd.c\<close> does with the answer. The answer's
  specification is on the peers of the connections, not on the heap: a producer whose peer is
  new gets a connection at the end of the list, one that is known does not.
\<close>

subsection \<open>The loops of the poll timer\<close>

lemma LL_FOREACH_count:
  "ll_list nxt h p xs \<Longrightarrow>
    LL_FOREACH nxt (\<lambda>_. h) (\<lambda>x n. Inr (False, n + 1)) p n = Some (Inr (n + length xs))"
proof (induction xs arbitrary: p n)
  case Nil
  then show ?case by (simp add: LL_FOREACH.simps)
next
  case (Cons x xs)
  then obtain c where c: "p = x" "x \<noteq> 0" "h x = Some c" "ll_list nxt h (nxt c) xs" by auto
  show ?case using c Cons.IH [OF c(4), of "n + 1"] by (subst LL_FOREACH.simps) simp
qed

lemma LL_FOREACH_nth:
  assumes "ll_list nxt (heap w) p xs" and "k < length xs"
  shows "LL_FOREACH nxt (\<lambda>(i, w). heap w)
      (\<lambda>x (i, w). if i = j + k then bind_res (f x w) (\<lambda>w'. Inr (True, (i + 1, w')))
                  else Inr (False, (i + 1, w))) p (j, w)
    = Some (bind_res (f (xs ! k) w) (\<lambda>w'. Inr (j + k + 1, w')))"
  using assms
proof (induction xs arbitrary: p j k)
  case (Cons x xs)
  then obtain c where c: "p = x" "x \<noteq> 0" "heap w x = Some c" "ll_list nxt (heap w) (nxt c) xs" by auto
  show ?case
  proof (cases k)
    case 0
    then show ?thesis using c(1,2) by (cases "f x w") (simp_all add: LL_FOREACH.simps)
  next
    case (Suc m)
    then have "m < length xs" using Cons.prems(2) by simp
    from Cons.IH [OF c(4) this, of "j + 1"] show ?thesis
      using c(1-3) Suc by (subst LL_FOREACH.simps) simp
  qed
qed simp

text \<open>The request that a poll hands to libcurl.\<close>

definition request_sent :: "byte list \<Rightarrow> bool \<Rightarrow> nsq_world \<Rightarrow> nsq_world" where
  "request_sent url ok w = w\<lparr>brk := brk w + 1,
     reqs := (reqs w)(brk w \<mapsto>
       \<lparr>req_url = url, req_has_httpc = True, req_data = new_buffer (junk w) 4096 0\<rparr>),
     calls := (if ok then [Curl_add_handle (brk w)] else []) @ calls w\<rparr>"

lemma poll_run:
  assumes "rdr w = Some r" and "ll_rep ep_next (endpoints w) (lookupd_head r) es" and "es \<noteq> []"
    and "endpoints w (es ! (rand_ret env mod length es)) = Some x"
    and "length (lookup_url x (topic r)) < 256" and "easy_init_ok env" and "brk w \<noteq> 0"
  shows "nsq_reader_lookupd_poll_cb lib net env w
    = bind_res (curl_callbacks (nsq_lookupd_request_cb lib net) (if add_handle_ok env then add_handle_calls env else [])
          (request_sent (c_str (lookup_url x (topic r))) (add_handle_ok env) w))
        (emit (Ev_timer_again Lookupd_poll_timer))"
proof -
  let ?k = "rand_ret env mod length es" and ?url = "lookup_url x (topic r)"
  have l: "ll_list ep_next (endpoints w) (lookupd_head r) es" using assms(2) by (simp add: ll_rep_def)
  have k: "?k < length es" using assms(3) by simp
  then have nz: "es ! ?k \<noteq> 0" using ll_rep_mem [OF assms(2), of "es ! ?k"] by simp
  let ?r = "curl_callbacks (nsq_lookupd_request_cb lib net) (if add_handle_ok env then add_handle_calls env else [])
      (request_sent (c_str ?url) (add_handle_ok env) w)"
  have send: "send_lookup lib net env (es ! ?k) w = ?r"
    using assms(1,4-7) nz
    by (simp add: send_lookup_def on_rdr_def Let_def new_http_request_def http_client_get_def upd_req_def
        on_req_def emit_def request_sent_def bind_res_assoc)
  have count: "ends (LL_FOREACH ep_next (\<lambda>_. endpoints w) (\<lambda>el n. Inr (False, n + 1)) (lookupd_head r) 0)
      = Inr (length es)"
    using LL_FOREACH_count [OF l, of 0] by (simp add: ends_def)
  have "ends (LL_FOREACH ep_next (\<lambda>(i, w). endpoints w)
      (\<lambda>el (i, w). if i = ?k then bind_res (send_lookup lib net env el w) (\<lambda>w'. Inr (True, (i + 1, w')))
        else Inr (False, (i + 1, w))) (lookupd_head r) (0, w)) = bind_res ?r (\<lambda>w'. Inr (?k + 1, w'))"
    using LL_FOREACH_nth [where heap = endpoints and j = 0 and f = "send_lookup lib net env", OF l k] send
    by (simp add: ends_def)
  then show ?thesis
    using assms(1,3) count by (simp add: nsq_reader_lookupd_poll_cb_def on_rdr_def bind_res_assoc)
qed

text \<open>
  Property C18: when the poll timer fires and there are endpoints, one request is made for the
  topic, to the endpoint that \<^verbatim>\<open>rand()\<close> picks, and handed to libcurl; nothing else changes but
  by what libcurl calls back, and the timer runs again.
\<close>

theorem lookupd_poll_requests:
  assumes "rdr w = Some r" and "ll_rep ep_next (endpoints w) (lookupd_head r) es" and "es \<noteq> []"
    and "endpoints w (es ! (rand_ret env mod length es)) = Some x"
    and "length (lookup_url x (topic r)) < 256" and "easy_init_ok env" and "brk w \<noteq> 0"
  shows "nsq_reader_lookupd_poll_cb lib net env w
    = bind_res (curl_callbacks (nsq_lookupd_request_cb lib net) (if add_handle_ok env then add_handle_calls env else [])
          (request_sent (c_str (lookup_url x (topic r))) (add_handle_ok env) w))
        (emit (Ev_timer_again Lookupd_poll_timer))"
  by (rule poll_run [OF assms])

subsection \<open>The answer\<close>

text \<open>The peer of a connection, and the peers of a list of connections.\<close>

definition peer_of :: "nsq_world \<Rightarrow> ptr \<Rightarrow> (byte list \<times> int) option" where
  "peer_of w p =
     (case conns w p of
        None \<Rightarrow> None
      | Some c \<Rightarrow> map_option (\<lambda>b. (c_str (sock_address b), sock_port b)) (socks w (conn_bs c)))"

definition peers :: "nsq_world \<Rightarrow> ptr list \<Rightarrow> (byte list \<times> int) option list" where
  "peers w xs = map (peer_of w) xs"

text \<open>What the answer says of a producer.\<close>

definition producer_address :: "'j json_lib \<Rightarrow> 'j option \<Rightarrow> byte list option" where
  "producer_address lib item =
     json_string_value lib (json_object_get lib item (bytes_of ''broadcast_address''))"

definition producer_port :: "'j json_lib \<Rightarrow> 'j option \<Rightarrow> int" where
  "producer_port lib item =
     int_of_json_int (json_int_value lib (json_object_get lib item (bytes_of ''tcp_port'')))"

definition producer_peer :: "'j json_lib \<Rightarrow> 'j option \<Rightarrow> (byte list \<times> int) option" where
  "producer_peer lib item =
     map_option (\<lambda>a. (c_str a, producer_port lib item)) (producer_address lib item)"

lemma find_conn_known:
  assumes "links_ok w" and "conn_list w xs" and "rdr w = Some r"
  shows "find_conn (Some a) port w = Inr (Some (c_str a, port) \<in> set (peers w xs))"
proof -
  have rep: "ll_rep conn_next (conns w) (conns_head r) xs" using assms(2,3) by (simp add: conn_list_def)
  let ?P = "\<lambda>p. peer_of w p = Some (c_str a, port)"
  have Q: "same_peer (Some a) port w p = Inr (?P p)" if p: "p \<in> set xs" for p
  proof -
    obtain c where c: "conns w p = Some c" using ll_rep_mem [OF rep p] by blast
    then obtain b where "socks w (conn_bs c) = Some b" using links_conn [OF assms(1)] by blast
    then show ?thesis using c by (simp add: same_peer_def on_conn_def on_sock_def strcmp_eq_def peer_of_def)
  qed
  have "ll_list conn_next (conns w) (conns_head r) xs" using rep by (simp add: ll_rep_def)
  from LL_FOREACH_search [where w' = True and w = False, OF this Q]
  show ?thesis using assms(3) by (auto simp: find_conn_def on_rdr_def ends_def peers_def) (metis image_eqI)
qed

text \<open>The specification: a new peer is added at the end, a known one is not.\<close>

definition add_new :: "'a \<Rightarrow> 'a list \<Rightarrow> 'a list" where
  "add_new x l = (if x \<in> set l then l else l @ [x])"

definition all_start :: "(ptr \<Rightarrow> connect_env) \<Rightarrow> bool" where
  "all_start net \<longleftrightarrow> (\<forall>p. connect_outcome (net p) = Started \<and> 0 < socket_ret (net p))"

lemma producer_run:
  assumes inv: "net_inv w" and r: "rdr w = Some r" and xs: "conn_list w xs" and net: "all_start net"
    and item: "producer_peer lib item \<noteq> None"
  shows "\<exists>w' r' ys. lookupd_producer lib net item w = Inr w' \<and> net_inv w' \<and> rdr w' = Some r' \<and> conn_list w' ys
    \<and> peers w' ys = add_new (producer_peer lib item) (peers w xs)
    \<and> reqs w' = reqs w \<and> resps w' = resps w"
proof -
  obtain a where a: "producer_address lib item = Some a" using item by (auto simp: producer_peer_def)
  let ?port = "producer_port lib item" and ?p = "brk w"
  have links: "links_ok w" using inv by (simp add: net_inv_def)
  have run: "lookupd_producer lib net item w =
      (if Some (c_str a, ?port) \<in> set (peers w xs) then Inr w
       else bind_res (nsq_reader_connect_to_nsqd net a ?port w) (\<lambda>(rc, w1). Inr w1))"
    using find_conn_known [OF links xs r, of a ?port] a
    by (simp add: lookupd_producer_def producer_address_def producer_port_def Let_def)
  show ?thesis
  proof (cases "Some (c_str a, ?port) \<in> set (peers w xs)")
    case True
    then show ?thesis using run inv r xs a by (auto simp: add_new_def producer_peer_def)
  next
    case False
    obtain w1 c r' where w1: "nsq_reader_connect_to_nsqd net a ?port w = Inr (socket_ret (net ?p), w1)"
        "conns w1 ?p = Some c" "conn_bs c = ?p + 1" "rdr w1 = Some r'" "conn_list w1 (xs @ [?p])"
        "socks w1 = (socks w)(?p + 1 \<mapsto> connect_sock (net ?p) (new_sock (cfg r) (junk w) a ?port ?p))"
        "\<forall>x. x \<noteq> ?p \<longrightarrow> map_option conn_bs (conns w1 x) = map_option conn_bs (conns w x)"
        "reqs w1 = reqs w" "resps w1 = resps w"
      using connect_run [OF inv r xs refl refl, of net a ?port] net by (auto simp: new_conn_def all_start_def)
    have inv1: "net_inv w1" using connect_to_nsqd_net [OF inv w1(1)] by simp
    have "c_str (c_str a) = c_str a" by (rule c_str_id) (rule c_str_no_nul)
    then have new: "peer_of w1 ?p = Some (c_str a, ?port)"
      using w1(2,3,6) net by (auto simp: peer_of_def connect_sock_def new_sock_def all_start_def)
    have old: "peer_of w1 x = peer_of w x" if x: "x \<in> set xs" for x
    proof -
      have "distinct (xs @ [?p])" using w1(4,5) by (simp add: conn_list_def ll_rep_def)
      then have ne: "x \<noteq> ?p" using x by auto
      obtain d where d: "conns w x = Some d"
        using ll_rep_mem [of conn_next "conns w" "conns_head r" xs x] xs r x by (auto simp: conn_list_def)
      then obtain d' where d': "conns w1 x = Some d'" "conn_bs d' = conn_bs d" using w1(7) ne by fastforce
      have "socks w (?p + 1) = None" using inv by (simp add: net_inv_def socks_inv_def)
      then have "conn_bs d \<noteq> ?p + 1" using links_conn [OF links d] by auto
      then show ?thesis using d d' w1(6) by (simp add: peer_of_def)
    qed
    then have "peers w1 (xs @ [?p]) = peers w xs @ [Some (c_str a, ?port)]"
      using new by (simp add: peers_def)
    then show ?thesis using run False w1 inv1 a by (auto simp: add_new_def producer_peer_def)
  qed
qed

lemma producers_run:
  assumes "net_inv w" and "rdr w = Some r" and "conn_list w xs" and "all_start net"
    and "\<forall>i \<in> set is. producer_peer lib (item i) \<noteq> None"
  shows "\<exists>w' ys. block (map (\<lambda>i. lookupd_producer lib net (item i)) is) w = Inr w' \<and> conn_list w' ys
    \<and> peers w' ys = fold add_new (map (\<lambda>i. producer_peer lib (item i)) is) (peers w xs)
    \<and> reqs w' = reqs w \<and> resps w' = resps w"
  using assms
proof (induction "is" arbitrary: w r xs)
  case Nil
  then show ?case by auto
next
  case (Cons i "is")
  obtain w1 r1 ys where w1: "lookupd_producer lib net (item i) w = Inr w1" "net_inv w1" "rdr w1 = Some r1"
      "conn_list w1 ys" "peers w1 ys = add_new (producer_peer lib (item i)) (peers w xs)"
      "reqs w1 = reqs w" "resps w1 = resps w"
    using producer_run [OF Cons.prems(1-4), of lib "item i"] Cons.prems(5) by auto
  show ?case using Cons.IH [OF w1(2-4) Cons.prems(4)] Cons.prems(5) w1 by auto
qed

lemma release_reply:
  assumes "resps w resp = Some x" and "resp \<noteq> 0" and "req \<noteq> 0" and "reqs w req = Some y" and "req_has_httpc y"
  shows "block [free_http_response resp, free_http_request req] w
    = Inr (w\<lparr>resps := (resps w)(resp := None), reqs := (reqs w)(req := None),
             calls := Curl_easy_cleanup req # Curl_remove_handle req # calls w\<rparr>)"
  using assms by (simp add: free_http_response_def free_http_request_def on_req_def emit_def)

text \<open>
  An answer with status 200 that lists producers, each with an address, makes the
  reader dial exactly those peers it has no connection to, each once, in the order of the
  answer; the connections it has stay, and the response and the request are released.
\<close>

theorem reply_dials_new_peers:
  assumes "net_inv w" and "rdr w = Some r" and "conn_list w xs" and "all_start net"
    and "resps w resp = Some x" and "resp \<noteq> 0" and "resp_data x = req" and "req \<noteq> 0"
    and "reqs w req = Some y" and "req_has_httpc y" and "wf_buffer (req_data y)" and "status_code x = 200"
    and "json_loadb lib (contents (req_data y)) = Some js"
    and "json_object_get lib (Some js) (bytes_of ''producers'') = Some ps"
    and "\<forall>i < json_array_length lib ps. producer_peer lib (json_array_get lib ps i) \<noteq> None"
  shows "\<exists>w' ys. nsq_lookupd_request_cb lib net req resp w = Inr w' \<and> conn_list w' ys
    \<and> peers w' ys = fold add_new
        (map (\<lambda>i. producer_peer lib (json_array_get lib ps i)) [0..<json_array_length lib ps]) (peers w xs)
    \<and> resps w' = (resps w)(resp := None) \<and> reqs w' = (reqs w)(req := None) \<and> \<not> handle_added req (calls w')"
proof -
  let ?is = "[0..<json_array_length lib ps]"
  have "\<forall>i \<in> set ?is. producer_peer lib (json_array_get lib ps i) \<noteq> None" using assms(15) by simp
  then obtain w1 ys where w1: "block (map (\<lambda>i. lookupd_producer lib net (json_array_get lib ps i)) ?is) w = Inr w1"
      "conn_list w1 ys" "peers w1 ys = fold add_new
        (map (\<lambda>i. producer_peer lib (json_array_get lib ps i)) ?is) (peers w xs)"
      "reqs w1 = reqs w" "resps w1 = resps w"
    using producers_run [OF assms(1-4)] by blast
  let ?w = "w1\<lparr>resps := (resps w1)(resp := None), reqs := (reqs w1)(req := None),
      calls := Curl_easy_cleanup req # Curl_remove_handle req # calls w1\<rparr>"
  have rel: "block [free_http_response resp, free_http_request req] w1 = Inr ?w"
    using assms(5,6,8-10) w1(4,5) by (intro release_reply [of _ _ x _ y]) simp_all
  have "block (map (\<lambda>i. lookupd_producer lib net (json_array_get lib ps i)) ?is
      @ [free_http_response resp, free_http_request req]) w = Inr ?w"
    by (simp only: block_append w1(1) bind_res.simps rel)
  then have "nsq_lookupd_request_cb lib net req resp w = Inr ?w"
    using assms(5-9,12-14) mem_read_contents [OF assms(11)]
    by (simp add: nsq_lookupd_request_cb_def on_req_def BUFFER_HAS_DATA_def)
  moreover have "conn_list ?w ys" using w1(2) by (simp add: conn_list_def cong: option.case_cong)
  moreover have "peers ?w ys = peers w1 ys" by (simp add: peers_def peer_of_def cong: option.case_cong)
  ultimately show ?thesis using w1(3-5) by (intro exI [of _ ?w] exI [of _ ys]) simp
qed

text \<open>
  Property C21: an answer with another status only releases the response and the request. One
  whose text is not JSON changes nothing at all: neither is ever released.
\<close>

theorem bad_reply_cases:
  assumes "resps w resp = Some x" and "resp \<noteq> 0" and "resp_data x = req" and "req \<noteq> 0"
    and "reqs w req = Some y" and "req_has_httpc y" and "wf_buffer (req_data y)"
    and "status_code x \<noteq> 200 \<or> json_loadb lib (contents (req_data y)) = None"
  shows "nsq_lookupd_request_cb lib net req resp w =
    (if status_code x \<noteq> 200
     then Inr (w\<lparr>resps := (resps w)(resp := None), reqs := (reqs w)(req := None),
                 calls := Curl_easy_cleanup req # Curl_remove_handle req # calls w\<rparr>)
     else Inr w)"
  using assms release_reply [OF assms(1,2,4-6)] mem_read_contents [OF assms(7)]
  by (auto simp: nsq_lookupd_request_cb_def on_req_def BUFFER_HAS_DATA_def)

subsection \<open>The two JSON libraries\<close>

text \<open>
  The peers that a document lists: under \<^verbatim>\<open>producers\<close> an array of objects, each with a string (no zero
  byte in it) as \<^verbatim>\<open>broadcast_address\<close> and a 32-bit integer as \<^verbatim>\<open>tcp_port\<close>.
\<close>

fun listed_peer :: "json \<Rightarrow> (byte list \<times> int) option" where
  "listed_peer (JObject kvs) =
     (case (map_of kvs (bytes_of ''broadcast_address''), map_of kvs (bytes_of ''tcp_port'')) of
        (Some (JString a), Some (JInt n)) \<Rightarrow> if 0 \<notin> set a \<and> - (2 ^ 31) \<le> n \<and> n < 2 ^ 31 then Some (a, n) else None
      | _ \<Rightarrow> None)"
| "listed_peer _ = None"

fun listed_peers :: "json \<Rightarrow> (byte list \<times> int) list option" where
  "listed_peers (JObject kvs) =
     (case map_of kvs (bytes_of ''producers'') of
        Some (JArray xs) \<Rightarrow> those (map listed_peer xs)
      | _ \<Rightarrow> None)"
| "listed_peers _ = None"

text \<open>Dial a peer if there is no connection to it.\<close>

definition dial_new :: "(ptr \<Rightarrow> connect_env) \<Rightarrow> byte list \<times> int \<Rightarrow> nsq_proc" where
  "dial_new net peer w =
     bind_res (find_conn (Some (fst peer)) (snd peer) w) (\<lambda>found.
       if found then Inr w
       else bind_res (nsq_reader_connect_to_nsqd net (fst peer) (snd peer) w) (\<lambda>(rc, w1). Inr w1))"

lemma producer_of_document:
  assumes reads: "backend_reads view b" and peer: "listed_peer (view v) = Some peer"
  shows "lookupd_producer (json_lib_of b) net (Some v) = dial_new net peer"
proof -
  obtain kvs where v: "view v = JObject kvs" using peer by (cases "view v") simp_all
  obtain a n where a: "map_of kvs (bytes_of ''broadcast_address'') = Some (JString a)" "0 \<notin> set a"
    and n: "map_of kvs (bytes_of ''tcp_port'') = Some (JInt n)" "- (2 ^ 31) \<le> n" "n < 2 ^ 31" and p: "peer = (a, n)"
    using peer v by (auto split: option.splits json.splits if_splits)
  let ?get = "json_object_get (json_lib_of b) (Some v)"
  obtain va where va: "?get (bytes_of ''broadcast_address'') = Some va" "view va = JString a"
    using backend_object [OF reads v, of "bytes_of ''broadcast_address''"] a by auto
  obtain vn where vn: "?get (bytes_of ''tcp_port'') = Some vn" "view vn = JInt n"
    using backend_object [OF reads v, of "bytes_of ''tcp_port''"] n(1) by auto
  show ?thesis
    using va(1) vn(1) backend_string [OF reads va(2) a(2)] backend_int [OF reads vn(2) n(2,3)]
    by (simp add: lookupd_producer_def dial_new_def p fun_eq_iff Let_def cong: if_cong)
qed

lemma reply_of_document:
  assumes reads: "backend_reads view b" and x: "resps w resp = Some x" "status_code x = 200" "resp_data x = req" "req \<noteq> 0"
    and y: "reqs w req = Some y" "wf_buffer (req_data y)"
    and js: "json_loadb (json_lib_of b) (contents (req_data y)) = Some js" "listed_peers (view js) = Some ps"
  shows "nsq_lookupd_request_cb (json_lib_of b) net req resp w
    = block (map (dial_new net) ps @ [free_http_response resp, free_http_request req]) w"
proof -
  let ?lib = "json_lib_of b"
  obtain kvs where doc: "view js = JObject kvs" using js(2) by (cases "view js") simp_all
  then obtain xs where xs: "map_of kvs (bytes_of ''producers'') = Some (JArray xs)" "those (map listed_peer xs) = Some ps"
    using js(2) by (auto split: option.splits json.splits)
  obtain vs where vs: "json_object_get ?lib (Some js) (bytes_of ''producers'') = Some vs" "view vs = JArray xs"
    using backend_object [OF reads doc, of "bytes_of ''producers''"] xs(1) by auto
  have ps: "map listed_peer xs = map Some ps" using xs(2) by (simp add: those_eq_Some)
  then have len: "length ps = length xs" by (metis length_map)
  have "lookupd_producer ?lib net (json_array_get ?lib vs i) = dial_new net (ps ! i)" if i: "i < length xs" for i
  proof -
    have peer: "listed_peer (xs ! i) = Some (ps ! i)" using ps i len by (metis nth_map)
    then have "xs ! i \<noteq> JNull" by auto
    then obtain v where v: "json_array_get ?lib vs i = Some v" "view v = xs ! i"
      using backend_array(2) [OF reads vs(2) i] by auto
    show ?thesis using v peer producer_of_document [OF reads, of v] by simp
  qed
  then have "map (\<lambda>i. lookupd_producer ?lib net (json_array_get ?lib vs i)) [0..<json_array_length ?lib vs]
      = map (dial_new net) ps"
    using backend_array(1) [OF reads vs(2)] len by (intro nth_equalityI) simp_all
  then show ?thesis
    using x y js(1) vs(1) mem_read_contents [OF y(2)]
    by (simp add: nsq_lookupd_request_cb_def on_req_def BUFFER_HAS_DATA_def del: block.simps)
qed

text \<open>
  Property C19: which of the two JSON libraries is compiled in makes no difference for an answer
  that is as lookupd documents it. If each library reads the values that it is documented to read,
  and both parse the body into the same document, which lists peers with a string as address and a
  32-bit integer as port (other fields may be anything), then the handler has the same effects with both: it dials
  those peers, in order, unless it has a connection to them, and releases response and request.
\<close>

theorem request_cb_backend:
  assumes "backend_reads view1 b1" and "backend_reads view2 b2"
    and "resps w resp = Some x" and "status_code x = 200" and "resp_data x = req" and "req \<noteq> 0"
    and "reqs w req = Some y" and "wf_buffer (req_data y)"
    and "json_loadb (json_lib_of b1) (contents (req_data y)) = Some js1"
    and "json_loadb (json_lib_of b2) (contents (req_data y)) = Some js2"
    and "view1 js1 = view2 js2" and "listed_peers (view1 js1) = Some ps"
  shows "nsq_lookupd_request_cb (json_lib_of b1) net req resp w
      = block (map (dial_new net) ps @ [free_http_response resp, free_http_request req]) w
    \<and> nsq_lookupd_request_cb (json_lib_of b2) net req resp w = nsq_lookupd_request_cb (json_lib_of b1) net req resp w"
  using reply_of_document [OF assms(1,3-9,12), of net] reply_of_document [OF assms(2,3-8,10), of ps net] assms(11,12)
  by (simp del: block.simps)

subsection \<open>On a concrete answer\<close>

text \<open>
  A JSON library for one document: an object (0) whose \<^verbatim>\<open>producers\<close> (1) are two entries for
  the same peer.
\<close>

definition demo_json :: "nat json_lib" where
  "demo_json = \<lparr>json_loadb = (\<lambda>t. if t = [33] then None else Some 0),
     json_object_get = (\<lambda>v k. if v = None then None else if v = Some 0 then Some 1 else if k = bytes_of ''tcp_port'' then Some 5 else Some 4),
     json_array_length = (\<lambda>v. 2), json_array_get = (\<lambda>v i. Some (2 + i)),
     json_string_value = (\<lambda>v. if v = Some 4 then Some [49, 50] else None),
     json_int_value = (\<lambda>v. if v = Some 5 then 4150 else 0)\<rparr>"

definition demo_reply :: "int \<Rightarrow> byte list \<Rightarrow> nsq_world" where
  "demo_reply code text = demo_world\<lparr>
     reqs := [7 \<mapsto> \<lparr>req_url = [], req_has_httpc = True, req_data = \<lparr>data = 0, orig = text, offset = length text,
                      blength = length text, capacity = 0\<rparr>\<rparr>],
     resps := [8 \<mapsto> \<lparr>status_code = code, resp_data = 7\<rparr>]\<rparr>"

lemma demo_reply_inv: "net_inv (demo_reply code text)"
proof -
  have "same_net demo_world (demo_reply code text)" by (simp add: same_net_def demo_reply_def)
  from same_net_inv [OF demo_inv this] show ?thesis by simp
qed

lemma demo_peer: "producer_peer demo_json (Some (2 + i)) = Some ([49, 50], 4150)"
  by (simp add: producer_peer_def producer_address_def producer_port_def demo_json_def bytes_of_def c_str_def int_of_json_int_def)

lemma demo_reply_parts:
  "resps (demo_reply code text) 8 = Some \<lparr>status_code = code, resp_data = 7\<rparr>"
  "reqs (demo_reply code text) 7 = Some \<lparr>req_url = [], req_has_httpc = True,
     req_data = \<lparr>data = 0, orig = text, offset = length text, blength = length text, capacity = 0\<rparr>\<rparr>"
  "rdr (demo_reply code text) = Some demo_reader" "conn_list (demo_reply code text) []"
  using demo_list by (simp_all add: demo_reply_def demo_rdr conn_list_def)

theorem reply_dials_new_peers_witness:
  "\<exists>w' ys. nsq_lookupd_request_cb demo_json demo_net 7 8 (demo_reply 200 [123]) = Inr w' \<and> conn_list w' ys
    \<and> peers w' ys = [Some ([49, 50], 4150)]"
proof -
  note parts = demo_reply_parts [of 200 "[123]"]
  have net: "all_start demo_net" using demo_started(1,2) by (simp add: all_start_def)
  have js: "json_loadb demo_json [123] = Some 0" "json_object_get demo_json (Some 0) (bytes_of ''producers'') = Some 1"
    "json_array_length demo_json 1 = 2" "\<And>i. json_array_get demo_json 1 i = Some (2 + i)"
    by (simp_all add: demo_json_def)
  have "wf_buffer \<lparr>data = 0, orig = [123], offset = length [123], blength = length [123], capacity = 0\<rparr>"
    by (simp add: wf_buffer_def)
  then have "\<exists>w' ys. nsq_lookupd_request_cb demo_json demo_net 7 8 (demo_reply 200 [123]) = Inr w' \<and> conn_list w' ys
      \<and> peers w' ys = [Some ([49, 50], 4150)] \<and> resps w' = (resps (demo_reply 200 [123]))(8 := None)
      \<and> reqs w' = (reqs (demo_reply 200 [123]))(7 := None) \<and> \<not> handle_added 7 (calls w')"
    using reply_dials_new_peers [where net = demo_net and lib = demo_json and js = 0 and ps = 1,
        OF demo_reply_inv parts(3,4) net parts(1) _ _ _ parts(2)] js demo_peer
    by (simp add: contents_def peers_def add_new_def upt_rec)
  then show ?thesis by blast
qed

text \<open>
  A document, and two libraries that parse \<^verbatim>\<open>{\<close> into it. As documented, the first gives null and 0 for
  values of another type, the second prints and converts them.
\<close>

definition demo_document :: json where
  "demo_document = JObject [(bytes_of ''producers'', JArray
     [JObject [(bytes_of ''broadcast_address'', JString [49, 50]), (bytes_of ''tcp_port'', JInt 4150)]])]"

definition demo_jansson :: "json jansson" where
  "demo_jansson = \<lparr>jansson_loadb = (\<lambda>t flags. if t = [123] then Some demo_document else None),
     jansson_array_size = (\<lambda>v. case v of JArray xs \<Rightarrow> length xs | _ \<Rightarrow> 0),
     jansson_array_get = (\<lambda>v i. case v of JArray xs \<Rightarrow> if i < length xs then Some (xs ! i) else None | _ \<Rightarrow> None),
     jansson_object_get = (\<lambda>v k. case v of Some (JObject kvs) \<Rightarrow> map_of kvs k | _ \<Rightarrow> None),
     jansson_string_value = (\<lambda>v. case v of Some (JString s) \<Rightarrow> Some s | _ \<Rightarrow> None),
     jansson_integer_value = (\<lambda>v. case v of Some (JInt n) \<Rightarrow> n | _ \<Rightarrow> 0)\<rparr>"

definition demo_json_c :: "json json_c" where
  "demo_json_c = \<lparr>json_tokener_parse_ex = (\<lambda>t n. if take (nat n) t = [123] then Some demo_document else None),
     json_object_array_length = (\<lambda>v. case v of JArray xs \<Rightarrow> length xs | _ \<Rightarrow> 0),
     json_object_array_get_idx = (\<lambda>v i. case v of JArray xs \<Rightarrow> if i < length xs then Some (xs ! i) else None | _ \<Rightarrow> None),
     json_object_object_get_ex = (\<lambda>v k. let x = (case v of Some (JObject kvs) \<Rightarrow> map_of kvs k | _ \<Rightarrow> None) in (x \<noteq> None, x)),
     json_object_get_string = (\<lambda>v. case v of None \<Rightarrow> None | Some (JString s) \<Rightarrow> Some s
       | Some (JInt n) \<Rightarrow> Some (sprintf_d n) | Some _ \<Rightarrow> Some []),
     json_object_get_int = (\<lambda>v. case v of Some (JInt n) \<Rightarrow> word_of_int (max (- (2 ^ 31)) (min n (2 ^ 31 - 1)))
       | Some (JBool b) \<Rightarrow> (if b then 1 else 0) | _ \<Rightarrow> 0)\<rparr>"

lemma demo_backends: "backend_reads id (With_jansson demo_jansson)" "backend_reads id (With_json_c demo_json_c)"
  by (auto simp: jansson_reads_def demo_jansson_def json_c_reads_def demo_json_c_def Let_def option.map_id)

theorem request_cb_backend_witness:
  "nsq_lookupd_request_cb (json_lib_of (With_json_c demo_json_c)) demo_net 7 8 (demo_reply 200 [123])
    = block [dial_new demo_net ([49, 50], 4150), free_http_response 8, free_http_request 7] (demo_reply 200 [123])"
proof -
  let ?y = "\<lparr>req_url = [], req_has_httpc = True,
     req_data = \<lparr>data = 0, orig = [123], offset = length [123 :: byte], blength = length [123 :: byte], capacity = 0\<rparr>\<rparr>"
  have y: "wf_buffer (req_data ?y)" "contents (req_data ?y) = [123]" by (simp_all add: wf_buffer_def contents_def)
  have js: "json_loadb (json_lib_of (With_jansson demo_jansson)) [123] = Some demo_document"
    "json_loadb (json_lib_of (With_json_c demo_json_c)) [123] = Some demo_document"
    by (simp_all add: json_lib_of_def demo_jansson_def demo_json_c_def to_int32_small)
  have ps: "listed_peers (id demo_document) = Some [([49, 50], 4150)]"
    by (simp add: demo_document_def bytes_of_def)
  show ?thesis
    using request_cb_backend [OF demo_backends demo_reply_parts(1) _ _ _ demo_reply_parts(2), of 200 "[123]" demo_document
        demo_document "[([49, 50], 4150)]" demo_net] y js ps
    by (simp del: block.simps)
qed

theorem bad_reply_cases_witness:
  "nsq_lookupd_request_cb demo_json demo_net 7 8 (demo_reply 200 [33]) = Inr (demo_reply 200 [33])"
proof -
  have "wf_buffer \<lparr>data = 0, orig = [33], offset = length [33], blength = length [33], capacity = 0\<rparr>"
    by (simp add: wf_buffer_def)
  then show ?thesis
    using bad_reply_cases [where net = demo_net and lib = demo_json, OF demo_reply_parts(1) _ _ _ demo_reply_parts(2),
        of 200 "[33]"]
    by (simp add: contents_def demo_json_def)
qed

text \<open>A reader with one endpoint.\<close>

definition demo_lookupd :: nsq_world where
  "demo_lookupd = demo_world\<lparr>brk := 2, calls := Ev_timer_again Lookupd_poll_timer # calls demo_world,
     endpoints := [1 \<mapsto> \<lparr>ep_address = [97], ep_port = 4161, ep_next = 0\<rparr>],
     rdr := Some (demo_reader\<lparr>lookupd_head := 1\<rparr>)\<rparr>"

lemma demo_lookupd_added: "nsq_reader_add_nsqlookupd_endpoint [97] 4161 demo_world = Inr (1, demo_lookupd)"
  by (simp add: nsq_reader_add_nsqlookupd_endpoint_def on_rdr_def demo_world_def demo_reader_def foreach_conn_def
      LL_FOREACH.simps ends_def emit_def new_nsqlookupd_endpoint_def append_endpoint_def LL_APPEND_def store_def
      set_ep_next_def demo_lookupd_def c_str_def Let_def empty_world_def)

text \<open>libcurl asks for its timer; the delay that it wants is 1.5 seconds.\<close>

definition demo_poll :: poll_env where
  "demo_poll = \<lparr>rand_ret = 5, easy_init_ok = True, add_handle_ok = True,
     add_handle_calls = [Curl_timer 1500 (Curl_run [] [])]\<rparr>"

theorem lookupd_poll_requests_witness:
  "\<exists>w'. nsq_reader_lookupd_poll_cb demo_json demo_net demo_poll demo_lookupd = Inr w'
    \<and> map_option req_url (reqs w' 2) = Some (bytes_of ''http://a:4161/lookup?topic=t'')
    \<and> calls w' = [Ev_timer_again Lookupd_poll_timer, Ev_timer_start Http_timer, Ev_timer_set Http_timer 1,
        Ev_timer_stop Http_timer, Curl_add_handle 2, Ev_timer_again Lookupd_poll_timer] @ calls demo_world"
proof -
  let ?e = "\<lparr>ep_address = [97], ep_port = 4161, ep_next = 0\<rparr>"
  have r: "rdr demo_lookupd = Some (demo_reader\<lparr>lookupd_head := 1\<rparr>)" by (simp add: demo_lookupd_def)
  have es: "ll_rep ep_next (endpoints demo_lookupd) (lookupd_head (demo_reader\<lparr>lookupd_head := 1\<rparr>)) [1]"
    by (simp add: demo_lookupd_def ll_rep_def)
  have url: "lookup_url ?e (topic (demo_reader\<lparr>lookupd_head := 1\<rparr>)) = bytes_of ''http://a:4161/lookup?topic=t''"
    by (simp add: lookup_url_def demo_reader_def bytes_of_def sprintf_d_def dec_digits.simps)
  have "c_str (bytes_of ''http://a:4161/lookup?topic=t'') = bytes_of ''http://a:4161/lookup?topic=t''"
    by (simp add: bytes_of_def c_str_def)
  then show ?thesis
    using lookupd_poll_requests [OF r es, of demo_poll ?e demo_json demo_net] url
    by (simp add: demo_poll_def demo_lookupd_def request_sent_def bytes_of_def emit_def)
qed

end
