(* ===== verification/Endpoints.thy ===== *)
theory Endpoints
  imports Lookupd
begin

section \<open>Endpoints and the end of a reader\<close>

text \<open>
  Adding a lookupd endpoint (\<^verbatim>\<open>nsq_reader_add_nsqlookupd_endpoint\<close>) and releasing the reader
  (\<^verbatim>\<open>free_nsq_reader\<close>) of \<^verbatim>\<open>src/reader.c\<close>: what they do, and the states in which what
  they leave behind makes a later step use freed memory.
\<close>

subsection \<open>Stopping the reconnect timers\<close>

definition stopped :: "NSQDConnection \<Rightarrow> NSQDConnection" where
  "stopped c = (if reconnect_timer c = Timer_null then c else c\<lparr>reconnect_timer := Timer_dangling\<rparr>)"

definition timer_usable :: "nsq_world \<Rightarrow> ptr \<Rightarrow> bool" where
  "timer_usable w p \<longleftrightarrow> (\<exists>c. conns w p = Some c \<and> reconnect_timer c \<noteq> Timer_dangling)"

lemma stop_timer_run:
  assumes "conns w p = Some c" and "reconnect_timer c \<noteq> Timer_dangling" and "p \<noteq> 0"
  shows "nsqd_connection_stop_timer p w = Inr (w\<lparr>conns := (conns w)(p \<mapsto> stopped c),
    calls := (if reconnect_timer c = Timer_null then [] else [Ev_timer_stop (Reconnect_timer p)]) @ calls w\<rparr>)"
  using assms fun_upd_triv [of "conns w" p]
  by (cases "reconnect_timer c")
    (simp_all add: nsqd_connection_stop_timer_def on_conn_def upd_conn_def emit_def stopped_def)

lemma visit_stop_timers:
  assumes "distinct xs" and "0 \<notin> set xs" and "\<forall>x \<in> set xs. timer_usable w x"
  shows "\<exists>cs. visit nsqd_connection_stop_timer xs w = Inr (w\<lparr>conns :=
      (\<lambda>x. if x \<in> set xs then map_option stopped (conns w x) else conns w x), calls := cs @ calls w\<rparr>)
    \<and> set cs \<subseteq> Ev_timer_stop ` Reconnect_timer ` set xs"
  using assms
proof (induction xs arbitrary: w)
  case Nil
  have "w\<lparr>conns := conns w, calls := calls w\<rparr> = w" by simp
  then show ?case by (intro exI [of _ "[]"]) simp
next
  case (Cons p xs)
  obtain c where c: "conns w p = Some c" "reconnect_timer c \<noteq> Timer_dangling"
    using Cons.prems(3) by (auto simp: timer_usable_def)
  let ?new = "if reconnect_timer c = Timer_null then [] else [Ev_timer_stop (Reconnect_timer p)]"
  let ?w1 = "w\<lparr>conns := (conns w)(p \<mapsto> stopped c), calls := ?new @ calls w\<rparr>"
  have "\<forall>x \<in> set xs. timer_usable ?w1 x" using Cons.prems by (auto simp: timer_usable_def)
  then obtain cs where cs: "visit nsqd_connection_stop_timer xs ?w1 = Inr (?w1\<lparr>conns :=
      (\<lambda>x. if x \<in> set xs then map_option stopped (conns ?w1 x) else conns ?w1 x), calls := cs @ calls ?w1\<rparr>)"
      "set cs \<subseteq> Ev_timer_stop ` Reconnect_timer ` set xs"
    using Cons.IH [of ?w1] Cons.prems by auto
  have "(\<lambda>x. if x \<in> set xs then map_option stopped (conns ?w1 x) else conns ?w1 x)
      = (\<lambda>x. if x \<in> set (p # xs) then map_option stopped (conns w x) else conns w x)"
    using c(1) Cons.prems(1) by (auto simp: fun_eq_iff)
  then have "visit nsqd_connection_stop_timer (p # xs) w = Inr (w\<lparr>conns :=
      (\<lambda>x. if x \<in> set (p # xs) then map_option stopped (conns w x) else conns w x),
      calls := (cs @ ?new) @ calls w\<rparr>)"
    using stop_timer_run [OF c, of] Cons.prems(2) cs(1) by simp
  moreover have "set (cs @ ?new) \<subseteq> Ev_timer_stop ` Reconnect_timer ` set (p # xs)" using cs(2) by auto
  ultimately show ?case by (intro exI [of _ "cs @ ?new"]) simp
qed

lemma stopped_simps [simp]: "conn_next (stopped c) = conn_next c" "conn_bs (stopped c) = conn_bs c"
  "reconnect_timer (stopped c) = (if reconnect_timer c = Timer_null then Timer_null else Timer_dangling)"
  by (simp_all add: stopped_def)

lemma foreach_stop_run:
  assumes r: "rdr w = Some r" and xs: "conn_list w xs" and ok: "\<forall>x \<in> set xs. timer_usable w x"
  shows "\<exists>cs. foreach_conn nsqd_connection_stop_timer w = Inr (w\<lparr>conns :=
      (\<lambda>x. if x \<in> set xs then map_option stopped (conns w x) else conns w x), calls := cs @ calls w\<rparr>)
    \<and> set cs \<subseteq> Ev_timer_stop ` Reconnect_timer ` set xs"
proof -
  have rep: "ll_list conn_next (conns w) (conns_head r) xs" "distinct xs"
    using xs r by (simp_all add: conn_list_def ll_rep_def)
  have nz: "0 \<notin> set xs" using ll_list_mem [OF rep(1)] by auto
  have keep: "map_option conn_next \<circ> conns w2 = map_option conn_next \<circ> conns w1"
    if "nsqd_connection_stop_timer x w1 = Inr w2" for x w1 w2
    using that by (auto simp: nsqd_connection_stop_timer_def on_conn_def upd_conn_def emit_def fun_eq_iff
        split: if_splits option.splits timer_ptr.splits)
  have "LL_FOREACH conn_next conns (\<lambda>p w. bind_res (nsqd_connection_stop_timer p w) (\<lambda>w'. Inr (False, w')))
      (conns_head r) w = Some (visit nsqd_connection_stop_timer xs w)"
    by (rule LL_FOREACH_visits [where heap = conns, OF _ rep(1)]) (rule keep)
  then show ?thesis
    using visit_stop_timers [OF rep(2) nz ok] r by (simp add: foreach_conn_def on_rdr_def ends_def)
qed


subsection \<open>Adding an endpoint\<close>

lemma add_endpoint_run:
  assumes "net_inv w" and "rdr w = Some r" and "conn_list w xs"
    and "ll_rep ep_next (endpoints w) (lookupd_head r) es"
    and "es = [] \<longrightarrow> (\<forall>x \<in> set xs. timer_usable w x)"
  shows "\<exists>w' r'. nsq_reader_add_nsqlookupd_endpoint address port w = Inr (1, w') \<and> rdr w' = Some r'
    \<and> ll_rep ep_next (endpoints w') (lookupd_head r') (es @ [brk w])
    \<and> (\<exists>n. endpoints w' (brk w) = Some \<lparr>ep_address = c_str address, ep_port = port, ep_next = n\<rparr>)
    \<and> conn_list w' xs \<and> socks w' = socks w
    \<and> (if es = []
       then conns w' = (\<lambda>x. if x \<in> set xs then map_option stopped (conns w x) else conns w x)
         \<and> timer_active Lookupd_poll_timer (calls w')
       else conns w' = conns w \<and> calls w' = calls w)"
proof -
  have none: "lookupd_head r = 0 \<longleftrightarrow> es = []" using assms(4) by (cases es) (auto simp: ll_rep_def)
  let ?first = "on_rdr (\<lambda>r :: NSQReader. if lookupd_head r = 0
      then block [foreach_conn nsqd_connection_stop_timer, emit (Ev_timer_again Lookupd_poll_timer)] else Inr)"
  let ?stop = "\<lambda>x. if x \<in> set xs then map_option stopped (conns w x) else conns w x"
  obtain w1 where first: "?first w = Inr w1" "rdr w1 = Some r" "endpoints w1 = endpoints w" "brk w1 = brk w"
      "socks w1 = socks w" "if es = [] then conns w1 = ?stop \<and> timer_active Lookupd_poll_timer (calls w1)
         else conns w1 = conns w \<and> calls w1 = calls w"
  proof (cases "es = []")
    case True
    then obtain cs where "foreach_conn nsqd_connection_stop_timer w
        = Inr (w\<lparr>conns := ?stop, calls := cs @ calls w\<rparr>)"
      using foreach_stop_run [OF assms(2,3)] assms(5) by blast
    then show ?thesis using that True none assms(2) by (simp add: on_rdr_def emit_def)
  next
    case False
    then show ?thesis using that none assms(2) by (simp add: on_rdr_def)
  qed
  let ?e = "brk w" and ?x = "\<lparr>ep_address = c_str address, ep_port = port, ep_next = 0\<rparr>"
  have al: "endpoints w ?e = None" "?e \<noteq> 0" using assms(1) by (simp_all add: net_inv_def alloc_ok_def)
  have notin: "?e \<notin> set es" using ll_rep_mem [OF assms(4), of ?e] al by auto
  have "ll_rep ep_next ((endpoints w)(?e \<mapsto> ?x)) (lookupd_head r) es"
    using assms(4) notin by (simp add: ll_rep_def ll_list_upd)
  from ep_list.append_appends [OF this _ al(2) notin]
  obtain h hp where hp: "LL_APPEND ep_next set_ep_next (lookupd_head r) ?e ((endpoints w)(?e \<mapsto> ?x)) = Inr (h, hp)"
      "ll_rep ep_next hp h (es @ [?e])"
      "(\<exists>n. hp ?e = Some (set_ep_next n ?x)) \<or> hp ?e = Some ?x" by auto
  let ?w' = "w1\<lparr>brk := ?e + 1, endpoints := hp, rdr := Some (r\<lparr>lookupd_head := h\<rparr>)\<rparr>"
  have run: "nsq_reader_add_nsqlookupd_endpoint address port w = Inr (1, ?w')"
    using first hp(1) by (simp add: nsq_reader_add_nsqlookupd_endpoint_def new_nsqlookupd_endpoint_def
        append_endpoint_def on_rdr_def Let_def)
  have cell: "\<exists>n. hp ?e = Some \<lparr>ep_address = c_str address, ep_port = port, ep_next = n\<rparr>"
    using hp(3) by (auto simp: set_ep_next_def)
  have "map_option conn_next (conns w1 x) = map_option conn_next (conns w x)" for x
    using first(6) by (cases "conns w x") (auto split: if_splits)
  then have "conn_list ?w' xs"
    using assms(2,3) ll_list_cong [of xs conn_next "conns w1" "conns w"] by (simp add: conn_list_def ll_rep_def)
  then show ?thesis using run cell hp(2) first(5,6)
    by (intro exI [of _ ?w'] exI [of _ "r\<lparr>lookupd_head := h\<rparr>"]) (auto split: if_splits)
qed


text \<open>
  A connection whose timer was released this way, and was not set to null, cannot be freed any
  more: the close callback uses the released timer.
\<close>

lemma stopped_close_faults:
  assumes "rdr w = Some r" and "lookupd_head r \<noteq> 0" and "conn_list w xs" and "p \<in> set xs"
    and "conns w p = Some c" and "reconnect_timer c = Timer_dangling" and "app_close app = None"
  shows "nsqd_connection_close_cb (reader_cc app) q p w = Inl Use_after_free"
proof -
  have rep: "ll_rep conn_next (conns w) (conns_head r) xs" using assms(1,3) by (simp add: conn_list_def)
  have "p \<noteq> 0" using ll_rep_mem [OF rep assms(4)] by simp
  obtain h hp where del: "LL_DELETE conn_next set_conn_next (conns_head r) p (conns w) = Inr (h, hp)" "hp p = Some c"
    using conn_list.delete_removes [OF rep assms(4)] assms(5) by auto
  let ?w1 = "w\<lparr>conns := hp, rdr := Some (r\<lparr>conns_head := h\<rparr>)\<rparr>"
  have "delete_conn p w = Inr ?w1" using del(1) assms(1) by (simp add: delete_conn_def on_rdr_def)
  then have "nsqd_connection_close_cb (reader_cc app) q p w = free_nsqd_connection p ?w1"
    using assms(2,5,7)
    by (simp add: nsqd_connection_close_cb_def reader_cc_def on_conn_def nsq_reader_close_cb_def on_rdr_def)
  then show ?thesis
    using \<open>p \<noteq> 0\<close> del(2) assms(6)
    by (simp add: free_nsqd_connection_def nsqd_connection_stop_timer_def on_conn_def)
qed

text \<open>
  Property C36: what the change over leaves behind. In a reader that dialled nsqd directly and
  then got its first lookupd endpoint, every connection of the list that was there before
  ends in a use of freed memory when it closes.
\<close>

theorem first_endpoint_dangles:
  assumes "net_inv w" and "rdr w = Some r" and "lookupd_head r = 0" and "conn_list w xs"
    and "\<forall>x \<in> set xs. timer_usable w x" and "reader_owns p w" and "app_close app = None"
    and "conns w p = Some c" and "conn_bs c = q" and "socks w q = Some b" and "cbarg b = p"
    and "close_callback b = Some Nsqd_close_cb"
    and "state b = BS_CONNECTING \<or> state b = BS_CONNECTED \<and> read_ev b \<noteq> None \<and> write_ev b \<noteq> None"
  shows "\<exists>w'. nsq_reader_add_nsqlookupd_endpoint address port w = Inr (1, w')
    \<and> buffered_socket_close (nsqd_call (reader_cc app)) q w' = Inl Use_after_free"
proof -
  have es: "ll_rep ep_next (endpoints w) (lookupd_head r) []" using assms(3) by (simp add: ll_rep_def)
  obtain w' r' where w': "nsq_reader_add_nsqlookupd_endpoint address port w = Inr (1, w')" "rdr w' = Some r'"
      "ll_rep ep_next (endpoints w') (lookupd_head r') [brk w]" "conn_list w' xs" "socks w' = socks w"
      "conns w' = (\<lambda>x. if x \<in> set xs then map_option stopped (conns w x) else conns w x)"
    using add_endpoint_run [OF assms(1,2,4) es, of address port] assms(5) by auto
  obtain ys where "conn_list w ys" "p \<in> set ys" "reconnect_timer c = Timer_allocated"
    using assms(2,3,6,8) by (auto simp: reader_owns_def conn_list_def)
  then have p: "p \<in> set xs" "conns w' p = Some (stopped c)" "reconnect_timer (stopped c) = Timer_dangling"
    using conn_list_unique [OF assms(4)] w'(6) assms(8) by auto
  have head: "lookupd_head r' \<noteq> 0" using w'(3) assms(1) by (auto simp: ll_rep_def)
  let ?w = "closed_world q b w'"
  have "rdr ?w = Some r'" "conns ?w p = Some (stopped c)" "conn_list ?w xs"
    using w'(2,4) p(2) by (simp_all add: closed_world_def conn_list_def cong: option.case_cong)
  then have "nsqd_connection_close_cb (reader_cc app) q p ?w = Inl Use_after_free"
    using head p(1,3) assms(7) by (intro stopped_close_faults [of ?w r' xs p "stopped c"]) simp_all
  moreover have "buffered_socket_close (nsqd_call (reader_cc app)) q w'
      = nsqd_connection_close_cb (reader_cc app) q p ?w"
    using assms(10-13) w'(5) by (subst close_eq [of w' q b]) (auto simp: closed_world_def invoke_Some)
  ultimately show ?thesis using w'(1) by auto
qed



theorem first_endpoint_dangles_witness:
  "\<exists>w w'. nsq_reader_add_nsqlookupd_endpoint [97] 4161 w = Inr (1, w')
    \<and> buffered_socket_close (nsqd_call (reader_cc test_app)) 2 w' = Inl Use_after_free"
proof -
  obtain w h where w: "reachable test_app demo_lib demo_net w" "reader_owns 1 w" "dialled 2 1 w"
      "rdr w = Some (demo_reader\<lparr>conns_head := h\<rparr>)" "conn_list w [1]"
    by (rule demo_dialled)
  obtain b c where b: "socks w 2 = Some b" "cbarg b = 1" "state b = BS_CONNECTING"
      "close_callback b = Some Nsqd_close_cb" and c: "conns w 1 = Some c" "conn_bs c = 2"
    using w(3) by (auto simp: dialled_def)
  have head: "lookupd_head (demo_reader\<lparr>conns_head := h\<rparr>) = 0" by (simp add: demo_reader_def)
  then have "reconnect_timer c = Timer_allocated" using w(2,4) c(1) by (auto simp: reader_owns_def)
  then have "\<forall>x \<in> set [1]. timer_usable w x" using c(1) by (simp add: timer_usable_def)
  from first_endpoint_dangles [OF reachable_net_inv [OF test_app_ok w(1)] w(4) head w(5) this w(2) _ c b(1,2,4),
      of test_app "[97]" 4161]
  show ?thesis using b(3) by (auto simp: test_app_def)
qed


subsection \<open>Releasing the reader\<close>

text \<open>A reader without connections: the loop over the endpoints reads each after it was freed.\<close>

lemma free_reader_endpoints:
  assumes "rdr w = Some r" and "conn_list w []" and "ll_rep ep_next (endpoints w) (lookupd_head r) es"
  shows "free_nsq_reader app w = (if es = [] then Inr (w\<lparr>rdr := None\<rparr>) else Inl Use_after_free)"
proof -
  have none: "foreach_conn f w = Inr w" for f
    using assms(1,2) by (simp add: foreach_conn_def on_rdr_def conn_list_def ll_rep_def ends_def LL_FOREACH.simps)
  show ?thesis
  proof (cases es)
    case Nil
    then show ?thesis using assms none
      by (simp add: free_nsq_reader_def foreach_endpoint_def on_rdr_def ll_rep_def ends_def LL_FOREACH.simps)
  next
    case (Cons e rest)
    then have e: "lookupd_head r = e" "e \<noteq> 0" "endpoints w e \<noteq> None"
      using assms(3) by (auto simp: ll_rep_def)
    then have "foreach_endpoint free_nsqlookupd_endpoint w = Inl Use_after_free"
      using assms(1) by (auto simp: foreach_endpoint_def on_rdr_def ends_def LL_FOREACH.simps
          free_nsqlookupd_endpoint_def deref_freed)
    then show ?thesis using none Cons by (simp add: free_nsq_reader_def)
  qed
qed

text \<open>
  Property C37: releasing a reader with an open connection and no lookupd. The connection is
  closed, which starts its reconnect timer, and the reader is released under it: when the
  timer fires, its handler uses the released reader.
\<close>

theorem free_reader_leaves_timer:
  assumes "reader_owns p w" and "rdr w = Some r" and "lookupd_head r = 0" and "conn_list w [p]"
    and "app_close app = None" and "conns w p = Some c" and "conn_bs c = q" and "socks w q = Some b"
    and "state b = BS_CONNECTING \<or> state b = BS_CONNECTED \<and> read_ev b \<noteq> None \<and> write_ev b \<noteq> None"
    and "cbarg b = p" and "close_callback b = Some Nsqd_close_cb"
  shows "\<exists>w'. free_nsq_reader app w = Inr w' \<and> rdr w' = None \<and> enabled (Reconnect_due p) w'
    \<and> handle app lib net (Reconnect_due p) w' = Inl Use_after_free"
proof -
  obtain w1 h where w1: "buffered_socket_close (nsqd_call (reader_cc app)) q w = Inr w1"
      "rdr w1 = Some (r\<lparr>conns_head := h\<rparr>)" "conns w1 p = Some c" "timer_active (Reconnect_timer p) (calls w1)"
    using closes [OF assms(1,2,4-11)] assms(3) by auto
  have p: "conns_head r = p" "p \<noteq> 0" "conn_next c = 0"
    using assms(2,4,6) by (auto simp: conn_list_def ll_rep_def)
  then have "foreach_conn (nsqd_connection_disconnect (reader_cc app)) w = Inr w1"
    using assms(2,6,7) w1(1,3)
    by (simp add: foreach_conn_def on_rdr_def ends_def LL_FOREACH.simps nsqd_connection_disconnect_def on_conn_def)
  moreover have "foreach_endpoint free_nsqlookupd_endpoint w1 = Inr w1"
    using w1(2) assms(3) by (simp add: foreach_endpoint_def on_rdr_def ends_def LL_FOREACH.simps)
  ultimately have "free_nsq_reader app w = Inr (w1\<lparr>rdr := None\<rparr>)"
    using w1(2) by (simp add: free_nsq_reader_def on_rdr_def)
  moreover have "handle app lib net (Reconnect_due p) (w1\<lparr>rdr := None\<rparr>) = Inl Use_after_free"
    using w1(3) by (simp add: nsq_reader_reconnect_cb_def on_conn_def on_rdr_def)
  ultimately show ?thesis using w1(4) by auto
qed

theorem free_reader_leaves_timer_witness:
  "\<exists>w w'. free_nsq_reader test_app w = Inr w' \<and> enabled (Reconnect_due 1) w'
    \<and> handle test_app demo_lib demo_net (Reconnect_due 1) w' = Inl Use_after_free"
proof -
  have list: "conn_list (demo_live [0, 0]) [1]"
    by (simp add: conn_list_def demo_live_def demo_reader_def ll_rep_def new_conn_def)
  have "lookupd_head (demo_reader\<lparr>conns_head := 1\<rparr>) = 0" "app_close test_app = None"
    by (simp_all add: demo_reader_def test_app_def)
  moreover have "reader_owns 1 (demo_live [0, 0])" by (rule demo_live_ok) simp_all
  ultimately have base: "conns (demo_live [0, 0]) 1 = Some c \<Longrightarrow> conn_bs c = 2 \<Longrightarrow> socks (demo_live [0, 0]) 2 = Some b \<Longrightarrow>
      state b = BS_CONNECTED \<Longrightarrow> read_ev b \<noteq> None \<Longrightarrow> write_ev b \<noteq> None \<Longrightarrow> cbarg b = 1 \<Longrightarrow>
      close_callback b = Some Nsqd_close_cb \<Longrightarrow> ?thesis" for c b
    using free_reader_leaves_timer [OF _ demo_live_space(4) _ list, of test_app c 2 b demo_lib demo_net] by blast
  obtain c b where "conns (demo_live [0, 0]) 1 = Some c" "conn_bs c = 2" "socks (demo_live [0, 0]) 2 = Some b"
      "state b = BS_CONNECTED" "read_ev b \<noteq> None" "write_ev b \<noteq> None" "cbarg b = 1"
      "close_callback b = Some Nsqd_close_cb"
    by (simp add: demo_live_def new_conn_def new_sock_def)
  then show ?thesis by (rule base)
qed

subsection \<open>Answers and polls that fault\<close>

text \<open>
  A producer without an address. \<^verbatim>\<open>nsq_lookupd_request_cb\<close> uses the null pointer,
  whether the reader has connections to compare it with or not.
\<close>

theorem missing_address_faults:
  assumes "net_inv w" and r: "rdr w = Some r" and "producer_address lib item = None"
  shows "lookupd_producer lib net item w = Inl Null_deref"
proof -
  obtain xs where xs: "conn_list w xs" and links: "links_ok w" using assms(1) by (rule net_invE)
  have "find_conn None port w = (if xs = [] then Inr False else Inl Null_deref)" for port
  proof (cases xs)
    case Nil
    then show ?thesis using xs r
      by (simp add: find_conn_def on_rdr_def conn_list_def ll_rep_def ends_def LL_FOREACH.simps)
  next
    case (Cons p rest)
    then obtain c where c: "conns w p = Some c" "conns_head r = p" "p \<noteq> 0"
      using xs r by (auto simp: conn_list_def ll_rep_def)
    obtain b where "socks w (conn_bs c) = Some b" using links_conn [OF links c(1)] by blast
    then show ?thesis using Cons c r
      by (simp add: find_conn_def on_rdr_def ends_def LL_FOREACH.simps same_peer_def on_conn_def on_sock_def
          strcmp_eq_def)
  qed
  then show ?thesis using assms(3) by (simp add: lookupd_producer_def producer_address_def Let_def)
qed


theorem missing_address_faults_witness:
  "lookupd_producer demo_json demo_net None (demo_reply 200 [123]) = Inl Null_deref"
proof -
  have "producer_address demo_json None = None"
    by (simp add: producer_address_def demo_json_def)
  from missing_address_faults [OF demo_reply_inv demo_reply_parts(3) this] show ?thesis .
qed

text \<open>
  Property C40: polls that fault. A URL of 256 bytes or more does not fit the array of
  \<^verbatim>\<open>nsq_reader_lookupd_poll_cb\<close>, so a long topic overruns it; and when libcurl has no easy
  handle to give, \<^verbatim>\<open>new_http_request\<close> returns the null pointer, which is used.
\<close>

theorem lookupd_poll_faults:
  assumes "rdr w = Some r" and "ll_rep ep_next (endpoints w) (lookupd_head r) es" and "es \<noteq> []"
    and "endpoints w (es ! (rand_ret env mod length es)) = Some x"
    and "256 \<le> length (lookup_url x (topic r)) \<or> \<not> easy_init_ok env"
  shows "nsq_reader_lookupd_poll_cb lib net env w
    = Inl (if 256 \<le> length (lookup_url x (topic r)) then Out_of_bounds else Null_deref)"
proof -
  let ?k = "rand_ret env mod length es" and ?url = "lookup_url x (topic r)"
  let ?e = "if 256 \<le> length ?url then Out_of_bounds else Null_deref"
  have l: "ll_list ep_next (endpoints w) (lookupd_head r) es" using assms(2) by (simp add: ll_rep_def)
  have k: "?k < length es" using assms(3) by simp
  then have nz: "es ! ?k \<noteq> 0" using ll_rep_mem [OF assms(2), of "es ! ?k"] by simp
  have send: "send_lookup lib net env (es ! ?k) w = Inl ?e"
    using assms(1,4,5) nz
    by (auto simp: send_lookup_def on_rdr_def Let_def new_http_request_def http_client_get_def upd_req_def on_req_def)
  have count: "ends (LL_FOREACH ep_next (\<lambda>_. endpoints w) (\<lambda>el n. Inr (False, n + 1)) (lookupd_head r) 0)
      = Inr (length es)"
    using LL_FOREACH_count [OF l, of 0] by (simp add: ends_def)
  have "ends (LL_FOREACH ep_next (\<lambda>(i, w). endpoints w)
      (\<lambda>el (i, w). if i = ?k then bind_res (send_lookup lib net env el w) (\<lambda>w'. Inr (True, (i + 1, w')))
        else Inr (False, (i + 1, w))) (lookupd_head r) (0, w)) = Inl ?e"
    using LL_FOREACH_nth [where heap = endpoints and j = 0 and f = "send_lookup lib net env", OF l k] send
    by (simp add: ends_def)
  then show ?thesis
    using assms(1,3) count by (simp add: nsq_reader_lookupd_poll_cb_def on_rdr_def)
qed

theorem lookupd_poll_faults_witness:
  "nsq_reader_lookupd_poll_cb demo_json demo_net \<lparr>rand_ret = 0, easy_init_ok = True, add_handle_ok = True, add_handle_calls = []\<rparr>
    (demo_lookupd\<lparr>rdr := Some (demo_reader\<lparr>lookupd_head := 1, topic := replicate 256 97\<rparr>)\<rparr>) = Inl Out_of_bounds"
proof -
  let ?r = "demo_reader\<lparr>lookupd_head := 1, topic := replicate 256 97\<rparr>"
  let ?w = "demo_lookupd\<lparr>rdr := Some ?r\<rparr>" and ?e = "\<lparr>ep_address = [97], ep_port = 4161, ep_next = 0\<rparr>"
  have r: "rdr ?w = Some ?r" by simp
  have es: "ll_rep ep_next (endpoints ?w) (lookupd_head ?r) [1]" by (simp add: demo_lookupd_def ll_rep_def)
  have url: "256 \<le> length (lookup_url ?e (topic ?r))" by (simp add: lookup_url_def)
  have x: "endpoints ?w ([1] ! (rand_ret \<lparr>rand_ret = 0, easy_init_ok = True, add_handle_ok = True, add_handle_calls = []\<rparr> mod length [1 :: ptr]))
      = Some ?e"
    by (simp add: demo_lookupd_def)
  from lookupd_poll_faults [OF r es _ x disjI1 [OF url]] show ?thesis using url by simp
qed

end
