(* ===== verification/Flow.thy ===== *)
theory Flow
  imports Lifecycle
begin

section \<open>Output, and the limits of the buffers\<close>

text \<open>
  The output side of a buffered socket as a queue: whatever the interleaving of
  \<^verbatim>\<open>buffered_socket_write\<close> and of writable events, the kernel gets the bytes in the order in
  which they were written, none twice and none left out. Then what happens at the limits of
  the buffers: a write that does not fit, a frame larger than the read buffer, a frame
  shorter than its type field.
\<close>

subsection \<open>Output is first in, first out\<close>

datatype out_op = Put "byte list" | Writable "byte list \<Rightarrow> send_result"

text \<open>The bytes that a call of \<^verbatim>\<open>send\<close> takes.\<close>

definition sent_by :: "(byte list \<Rightarrow> send_result) \<Rightarrow> byte list \<Rightarrow> byte list" where
  "sent_by out bs = (case out bs of Send_count k \<Rightarrow> take k bs | Send_error e \<Rightarrow> [])"

lemma sent_rest: "sent_by out bs @ drop (length (sent_by out bs)) bs = bs"
  by (cases "out bs") (simp_all add: sent_by_def min_def)

text \<open>A run; events that libev does not deliver are skipped. The first result is what was sent.\<close>

fun out_run :: "(nsqd_fn \<Rightarrow> ptr \<Rightarrow> ptr \<Rightarrow> nsq_proc) \<Rightarrow> ptr \<Rightarrow> out_op list \<Rightarrow> nsq_world \<Rightarrow>
    fault + byte list \<times> nsq_world" where
  "out_run call q [] w = Inr ([], w)"
| "out_run call q (Put bs # ops) w =
     bind_res (buffered_socket_write bs (length bs) q w) (\<lambda>(n, w'). out_run call q ops w')"
| "out_run call q (Writable out # ops) w =
     (if io_active (Write_io q) (calls w) then
        bind_res (buffered_socket_write_cb call out q w) (\<lambda>w'.
        bind_res (out_run call q ops w') (\<lambda>(s, w''). Inr (sent_by out (wbuf q w) @ s, w'')))
      else out_run call q ops w)"

fun put_bytes :: "out_op list \<Rightarrow> byte list" where
  "put_bytes [] = []"
| "put_bytes (Put bs # ops) = bs @ put_bytes ops"
| "put_bytes (Writable out # ops) = put_bytes ops"

text \<open>The kernel takes some of what it is offered, or asks to try again.\<close>

definition progress :: "(byte list \<Rightarrow> send_result) \<Rightarrow> bool" where
  "progress out \<longleftrightarrow> send_ok out \<and> (\<forall>bs. bs \<noteq> [] \<longrightarrow>
     (case out bs of Send_count k \<Rightarrow> 0 < k | Send_error e \<Rightarrow> e = EAGAIN \<or> e = EINTR \<or> e = EINPROGRESS))"

fun out_op_ok :: "out_op \<Rightarrow> bool" where
  "out_op_ok (Put bs) \<longleftrightarrow> bs \<noteq> []"
| "out_op_ok (Writable out) \<longleftrightarrow> progress out"

definition out_ready :: "ptr \<Rightarrow> nsq_world \<Rightarrow> bool" where
  "out_ready q w \<longleftrightarrow> (\<exists>b. socks w q = Some b \<and> state b = BS_CONNECTED \<and> wf_bounded (write_buf b)
     \<and> write_ev b \<noteq> None \<and> write_callback b = None)
     \<and> (io_active (Write_io q) (calls w) \<longleftrightarrow> wbuf q w \<noteq> [])"

lemma put_step:
  assumes r: "out_ready q w" and bs: "bs \<noteq> []" and fits: "length (wbuf q w @ bs) \<le> sock_space q w"
  shows "\<exists>w'. buffered_socket_write bs (length bs) q w = Inr (length bs, w') \<and> out_ready q w'
    \<and> wbuf q w' = wbuf q w @ bs \<and> sock_space q w' = sock_space q w"
proof -
  obtain b g where b: "socks w q = Some b" "state b = BS_CONNECTED" "wf_bounded (write_buf b)"
      "write_ev b = Some g" "write_callback b = None"
    using r by (auto simp: out_ready_def)
  obtain wb where wb: "buffer_put (junk w) bs (write_buf b) = Inr wb" "wf_bounded wb"
      "contents wb = contents (write_buf b) @ bs" "blength wb = blength (write_buf b)"
    using buffer_put_bounded [OF b(3), of bs "junk w"] fits b(1) by (auto simp: wbuf_def sock_space_def)
  have "buffer_add_void (junk w) bs (length bs) (write_buf b) = Inr wb"
    using wb(1) buffer_add_void_take [of "length bs" bs "junk w"] by simp
  then have "buffered_socket_write bs (length bs) q w = Inr (length bs,
      w\<lparr>socks := (socks w)(q \<mapsto> b\<lparr>write_buf := wb\<rparr>), calls := Ev_io_start (Write_io q) g # calls w\<rparr>)"
    using b by (simp add: buffered_socket_write_def sock_simps)
  then show ?thesis using wb b bs by (auto simp: out_ready_def wbuf_def sock_space_def)
qed

lemma writable_out_step:
  assumes r: "out_ready q w" and out: "progress out" and en: "io_active (Write_io q) (calls w)"
  shows "\<exists>w'. buffered_socket_write_cb call out q w = Inr w' \<and> out_ready q w'
    \<and> sent_by out (wbuf q w) @ wbuf q w' = wbuf q w \<and> sock_space q w' = sock_space q w"
proof -
  obtain b where b: "socks w q = Some b" "state b = BS_CONNECTED" "wf_bounded (write_buf b)"
      "write_ev b \<noteq> None" "write_callback b = None"
    using r by (auto simp: out_ready_def)
  have wf: "wf_buffer (write_buf b)" and ok: "send_ok out" using b(3) out by (simp_all add: wf_bounded_def progress_def)
  have ne: "contents (write_buf b) \<noteq> []" using r en b(1) by (simp add: out_ready_def wbuf_def)
  let ?k = "length (sent_by out (contents (write_buf b)))"
  obtain wb res err where wr: "buffer_write_fd out (errno w) (write_buf b) = Inr (wb, res, err)"
      and wb: "wf_bounded wb" "contents wb = drop ?k (contents (write_buf b))" "blength wb = blength (write_buf b)"
      and res: "0 < res \<or> res = -1 \<and> (err = EAGAIN \<or> err = EINTR \<or> err = EINPROGRESS)"
  proof (cases "out (contents (write_buf b))")
    case (Send_count k)
    then have "0 < k" "k \<le> length (contents (write_buf b))"
      using out ne ok by (fastforce simp: progress_def send_ok_def)+
    then show ?thesis
      using that [of "buffer_drain k (write_buf b)"] Send_count b(3) wf
      by (simp add: buffer_write_fd_eq [OF wf ok] sent_by_def min_absorb2 wf_bounded_drain contents_buffer_drain
          buffer_drain_frame)
  next
    case (Send_error e)
    then have "e = EAGAIN \<or> e = EINTR \<or> e = EINPROGRESS"
      using out ne by (fastforce simp: progress_def)
    then show ?thesis
      using that [of "write_buf b"] Send_error b(3) by (simp add: buffer_write_fd_eq [OF wf ok] sent_by_def)
  qed
  let ?w' = "buf_world q (b\<lparr>write_buf := wb\<rparr>) err (if offset wb = 0 then [Ev_io_stop (Write_io q)] else []) w"
  have run: "buffered_socket_write_cb call out q w = Inr ?w'"
    using res by (auto simp: write_cb_eq [OF b(1,5,4) wr] Let_def)
  have "offset wb = 0 \<longleftrightarrow> contents wb = []" using offset_contents [OF wb(1)] by simp
  then have "out_ready q ?w'" using b wb en by (auto simp: out_ready_def wbuf_def buf_world_def)
  moreover have "sent_by out (wbuf q w) @ wbuf q ?w' = wbuf q w"
    using b(1) wb(2) sent_rest [of out "contents (write_buf b)"] by (simp add: wbuf_def buf_world_def)
  ultimately show ?thesis using run b(1) wb(3) by (auto simp: sock_space_def buf_world_def)
qed

text \<open>
  Property C11: output is first in, first out. In any interleaving of writes that fit and of
  writable events, what the kernel took followed by what is still buffered is what was
  buffered followed by everything that was written; and the socket waits for output exactly
  while it has unsent bytes.
\<close>

theorem output_in_order:
  assumes "out_ready q w" and "list_all out_op_ok ops"
    and "length (wbuf q w @ put_bytes ops) \<le> sock_space q w"
  shows "\<exists>s w'. out_run call q ops w = Inr (s, w') \<and> s @ wbuf q w' = wbuf q w @ put_bytes ops
    \<and> (io_active (Write_io q) (calls w') \<longleftrightarrow> wbuf q w' \<noteq> [])"
proof -
  have "\<exists>s w'. out_run call q ops w = Inr (s, w') \<and> s @ wbuf q w' = wbuf q w @ put_bytes ops \<and> out_ready q w'"
    using assms
  proof (induction ops arbitrary: w)
    case (Cons op ops)
    show ?case
    proof (cases op)
      case (Put bs)
      obtain w1 where w1: "buffered_socket_write bs (length bs) q w = Inr (length bs, w1)" "out_ready q w1"
          "wbuf q w1 = wbuf q w @ bs" "sock_space q w1 = sock_space q w"
        using put_step [OF Cons.prems(1), of bs] Cons.prems(2,3) Put by auto
      show ?thesis using Cons.IH [OF w1(2)] Cons.prems(2,3) w1 Put by auto
    next
      case (Writable out)
      show ?thesis
      proof (cases "io_active (Write_io q) (calls w)")
        case True
        obtain w1 where w1: "buffered_socket_write_cb call out q w = Inr w1" "out_ready q w1"
            "sent_by out (wbuf q w) @ wbuf q w1 = wbuf q w" "sock_space q w1 = sock_space q w"
          using writable_out_step [OF Cons.prems(1) _ True, of out call] Cons.prems(2) Writable by auto
        have "length (wbuf q w1) \<le> length (wbuf q w)" using arg_cong [OF w1(3), of length] by simp
        then obtain s w' where "out_run call q ops w1 = Inr (s, w')" "s @ wbuf q w' = wbuf q w1 @ put_bytes ops"
            "out_ready q w'"
          using Cons.IH [OF w1(2)] Cons.prems(2,3) w1(4) Writable by auto
        then show ?thesis using Writable True w1(1) arg_cong [OF w1(3), of "\<lambda>s. s @ put_bytes ops"] by auto
      next
        case False
        then show ?thesis using Cons.IH [OF Cons.prems(1)] Cons.prems(2,3) Writable by auto
      qed
    qed
  qed auto
  then show ?thesis by (auto simp: out_ready_def)
qed


text \<open>A concrete run: two writes, a partial send, an interrupted one, and the rest.\<close>

definition demo_out :: "out_op list" where
  "demo_out = [Put [1, 2, 3], Writable (\<lambda>bs. Send_count (min 2 (length bs))), Put [4],
     Writable (\<lambda>bs. Send_error EAGAIN), Writable (\<lambda>bs. Send_count (length bs))]"

theorem output_in_order_witness:
  "\<exists>s w'. out_run (nsqd_call (reader_cc test_app)) 2 demo_out (demo_live [0]) = Inr (s, w')
    \<and> s @ wbuf 2 w' = [1, 2, 3, 4]"
proof -
  have "wf_bounded (new_buffer (\<lambda>_. 0) 16384 16384)"
    by (simp add: wf_bounded_def wf_new_buffer) (simp add: new_buffer_def)
  then have r: "out_ready 2 (demo_live [0])"
    by (simp add: out_ready_def demo_live_space(3)) (simp add: demo_live_def new_sock_def default_cfg_def)
  have ok: "list_all out_op_ok demo_out" by (auto simp: demo_out_def progress_def send_ok_def)
  have "length (wbuf 2 (demo_live [0]) @ put_bytes demo_out) \<le> sock_space 2 (demo_live [0])"
    by (simp add: demo_live_space demo_out_def)
  moreover have "put_bytes demo_out = [1, 2, 3, 4]" by (simp add: demo_out_def)
  ultimately show ?thesis
    using output_in_order [OF r ok, of "nsqd_call (reader_cc test_app)"] demo_live_space(3) [of "[0]"] by auto
qed

subsection \<open>A write that does not fit\<close>

text \<open>
  A write that the buffer refuses is lost, and the count that is returned says that
  it was written.
\<close>

theorem refused_write_reports_success:
  assumes "socks w q = Some b" and "state b = BS_CONNECTED" and "write_ev b = Some g"
    and "wf_buffer (write_buf b)" and "len < 2 ^ 31" and "\<not> accepts len (write_buf b)"
  shows "buffered_socket_write src len q w
    = Inr (len, w\<lparr>calls := Ev_io_start (Write_io q) g # calls w\<rparr>)"
  using assms(1-3) buffer_add_rejected [OF assms(4-6), of "junk w" src]
  by (simp add: buffered_socket_write_def sock_simps buffer_add_void_def fun_upd_idem)

theorem refused_write_reports_success_witness:
  "\<exists>w'. buffered_socket_write (replicate 20000 7) 20000 2 (demo_live [0]) = Inr (20000, w')
    \<and> wbuf 2 w' = []"
proof -
  obtain b where b: "socks (demo_live [0]) 2 = Some b" "state b = BS_CONNECTED" "write_ev b = Some 7"
      "write_buf b = new_buffer (\<lambda>_. 0) 16384 16384"
    by (simp add: demo_live_def new_sock_def default_cfg_def)
  have "wf_buffer (write_buf b)" "\<not> accepts 20000 (write_buf b)"
    using b(4) accepts_at_capacity [of "write_buf b" 20000]
    by (simp_all add: wf_new_buffer) (simp_all add: new_buffer_def room_def)
  from refused_write_reports_success [OF b(1-3) this(1) _ this(2), of "replicate 20000 7"] show ?thesis
    using demo_live_space(3) [of "[0]"] by (auto simp: wbuf_def)
qed


subsection \<open>A frame larger than the read buffer\<close>

text \<open>
  Property C38: a read into a buffer that is full and at its capacity. \<^verbatim>\<open>buffer_read_fd\<close>
  reports a failure without a system call that failed, so \<^verbatim>\<open>errno\<close> is an old value: after an
  earlier \<^verbatim>\<open>EAGAIN\<close> or \<^verbatim>\<open>EINTR\<close> the event changes nothing, and libev delivers it again for
  ever; after any other value the socket is closed and the connection leaves the list, to be
  retried without lookupd and freed with it. So a frame larger than the buffer is never delivered.
\<close>

theorem full_buffer_read:
  assumes "reader_owns p w" and "live q p w" and "rdr w = Some r" and "conn_list w xs" and "app_close app = None"
    and "socks w q = Some b" and "read_env_ok env" and "0 < read_size env"
    and "offset (read_buf b) = blength (read_buf b)" and "0 < capacity (read_buf b)"
    and "capacity (read_buf b) \<le> blength (read_buf b)"
  shows "if read_errno env (errno w) \<in> {EAGAIN, EINTR}
    then handle app lib net (Socket_readable q env) w = Inr (w\<lparr>errno := read_errno env (errno w)\<rparr>)
    else \<exists>w'. handle app lib net (Socket_readable q env) w = Inr w' \<and> conn_list w' (remove1 p xs)
      \<and> (\<exists>h. rdr w' = Some (r\<lparr>conns_head := h\<rparr>))
      \<and> (if lookupd_head r = 0 then retried q p w' else released q p w')"
proof -
  obtain c where c: "conns w p = Some c" "conn_bs c = q"
    and b: "read_callback b = None" "wf_buffer (read_buf b)" "cbarg b = p" "state b = BS_CONNECTED" "read_ev b \<noteq> None"
      "write_ev b \<noteq> None" "close_callback b = Some Nsqd_close_cb" "error_callback b = Some Nsqd_error_cb"
    using assms(2,6) by (auto simp: live_def wf_bounded_def)
  have "\<not> accepts (read_size env) (read_buf b)"
    using accepts_at_capacity [OF b(2) assms(10,11), of "read_size env"] read_size_bound [of env] assms(8,9)
    by (simp add: room_def)
  note rd = buffer_read_fd_rejected [OF b(2) assms(7) this, of "junk w" "errno w"]
  let ?w = "w\<lparr>errno := read_errno env (errno w)\<rparr>"
  have "b\<lparr>read_buf := read_buf b\<rparr> = b" by simp
  then have "buf_world q (b\<lparr>read_buf := read_buf b\<rparr>) e [] w = w\<lparr>errno := e\<rparr>" for e
    using assms(6) by (simp add: buf_world_def fun_upd_idem)
  then have run: "handle app lib net (Socket_readable q env) w =
      (if errno ?w = EAGAIN \<or> errno ?w = EINTR then Inr ?w else io_error (nsqd_call (reader_cc app)) q ?w)"
    by (simp add: read_cb_eq [OF assms(6) b(1) rd] Let_def)
  have "reader_owns p ?w" by (rule reader_owns_kept [OF assms(1)]) (simp add: others_kept_def)
  moreover have "conn_list ?w xs" using assms(4) by (simp add: conn_list_def cong: option.case_cong)
  ultimately have "\<exists>w'. buffered_socket_close (nsqd_call (reader_cc app)) q ?w = Inr w' \<and> conn_list w' (remove1 p xs)
      \<and> (\<exists>h. rdr w' = Some (r\<lparr>conns_head := h\<rparr>))
      \<and> (if lookupd_head r = 0 then retried q p w' else released q p w')"
    using b c assms(3,5,6) by (intro closes_cases [where c = c and b = b]) simp_all
  moreover have "io_error (nsqd_call (reader_cc app)) q ?w = buffered_socket_close (nsqd_call (reader_cc app)) q ?w"
    using assms(6) b(8) by (simp add: io_error_def invoke_Some nsqd_connection_error_cb_def)
  ultimately show ?thesis using run by simp
qed

definition demo_full :: "int \<Rightarrow> nsq_world" where
  "demo_full e = demo_live [0]\<lparr>errno := e, socks := [2 \<mapsto> (new_sock default_cfg (\<lambda>_. 0) [49] 4150 1)
     \<lparr>fd := 7, state := BS_CONNECTED, read_ev := Some 7, write_ev := Some 7,
      read_buf := \<lparr>data = 0, orig = replicate 8 0, offset = 8, blength = 8, capacity = 8\<rparr>\<rparr>]\<rparr>"

theorem full_buffer_read_witness:
  "handle test_app demo_lib demo_net (Socket_readable 2 (demo_read [1])) (demo_full EAGAIN) = Inr (demo_full EAGAIN)
    \<and> (\<exists>w'. handle test_app demo_lib demo_net (Socket_readable 2 (demo_read [1])) (demo_full 0) = Inr w' \<and> retried 2 1 w')"
proof -
  have "wf_bounded (new_buffer (\<lambda>_. 0) n n)" if "0 < n" "n < 2 ^ 31" for n
    using that by (simp add: wf_bounded_def wf_new_buffer) (simp add: new_buffer_def)
  then have l: "live 2 1 (demo_full e)" for e
    by (simp add: demo_full_def demo_live_def live_def new_sock_def new_conn_def default_cfg_def
        wf_bounded_def wf_buffer_def)
  have own: "reader_owns 1 (demo_full e)" for e
    using demo_live_ok(2) [of "[0]"] by (simp add: reader_owns_def demo_full_def)
  have r: "rdr (demo_full e) = Some (demo_reader\<lparr>conns_head := 1\<rparr>)" for e
    using demo_live_space(4) [of "[0]"] by (simp add: demo_full_def)
  have xs: "conn_list (demo_full e) [1]" for e
    by (simp add: conn_list_def demo_full_def demo_live_def demo_reader_def ll_rep_def new_conn_def)
  obtain b where b: "socks (demo_full e) 2 = Some b" "offset (read_buf b) = 8" "blength (read_buf b) = 8"
      "capacity (read_buf b) = 8" for e
    by (simp add: demo_full_def)
  have env: "read_env_ok (demo_read [1])" "0 < read_size (demo_read [1])"
    by (simp_all add: read_env_ok_def demo_read_def read_size_def)
  have "app_close test_app = None" "lookupd_head demo_reader = 0" by (simp_all add: test_app_def demo_reader_def)
  moreover have "read_errno (demo_read [1]) (errno (demo_full e)) = e" for e
    by (simp add: read_errno_def demo_read_def demo_full_def)
  moreover have "demo_full e\<lparr>errno := e\<rparr> = demo_full e" for e by (simp add: demo_full_def)
  moreover have "(0 :: int) \<notin> {EAGAIN, EINTR}" by (simp add: EAGAIN_def EINTR_def)
  ultimately show ?thesis
    using full_buffer_read [OF own l r xs _ b(1) env, of test_app EAGAIN demo_lib demo_net]
      full_buffer_read [OF own l r xs _ b(1) env, of test_app 0 demo_lib demo_net] b(2-4)
    by (auto simp del: handle.simps)
qed

subsection \<open>A frame shorter than its type\<close>

text \<open>
  Property C39: a frame whose size field is below 4, with at least 4 bytes behind it in the buffer. The
  size of the rest, \<^verbatim>\<open>size - 4\<close>, wraps around to almost \<open>2 ^ 32\<close>. If the type field says that it
  is a message, decoding it reads beyond the end of the block. If it is neither a message nor a response, the
  final drain empties the whole read buffer: every frame that was received behind the short
  one is lost.
\<close>

theorem short_frame_drops_input:
  assumes "live q p w" and "\<not> timer_active (Read_bytes_timer q) (calls w)" and "conns w p = Some c"
    and "unat (current_msg_size c) < 4" and "4 \<le> length (rbuf q w)"
  shows "(ntohl_at (take 4 (rbuf q w)) = NSQ_FRAME_TYPE_MESSAGE \<longrightarrow> nsqd_connection_read_data cc q p w = Inl Out_of_bounds)
    \<and> (ntohl_at (take 4 (rbuf q w)) \<notin> {NSQ_FRAME_TYPE_RESPONSE, NSQ_FRAME_TYPE_MESSAGE} \<longrightarrow>
        (\<exists>w'. nsqd_connection_read_data cc q p w = Inr w' \<and> unconsumed q p w' []
          \<and> delivered p (calls w') = delivered p (calls w)))"
proof -
  obtain b where b: "socks w q = Some b" "wf_bounded (read_buf b)" using assms(1) by (auto simp: live_def)
  let ?s = "contents (read_buf b)"
  have s: "rbuf q w = ?s" using b by (simp add: rbuf_def)
  let ?rb = "buffer_drain 4 (read_buf b)"
  let ?size = "current_msg_size c - 4"
  let ?c = "c\<lparr>current_frame_type := ntohl_at (take 4 ?s), current_msg_size := ?size, current_data := data ?rb\<rparr>"
  let ?w = "w\<lparr>conns := (conns w)(p \<mapsto> ?c), socks := (socks w)(q \<mapsto> b\<lparr>read_buf := buffer_drain (unat ?size) ?rb\<rparr>)\<rparr>"
  have rd: "mem_read (orig (read_buf b)) (data (read_buf b)) 4 = Inr (take 4 ?s)"
    using contents_read [OF b(2), of 4] assms(5) s by simp
  have size: "unat ?size = unat (current_msg_size c) + 2 ^ 32 - 4"
    using unat_sub_if' [of "current_msg_size c" 4] assms(4) by simp
  have "nsqd_connection_read_data cc q p w = Inl Out_of_bounds"
    if "ntohl_at (take 4 (rbuf q w)) = NSQ_FRAME_TYPE_MESSAGE"
  proof -
    have "length (orig ?rb) < 2 ^ 31" using b(2) wf_buffer_drain [of "read_buf b" 4] by (auto simp: wf_bounded_def wf_buffer_def)
    moreover have "size_sub (unat ?size) 26 = unat (current_msg_size c) + 2 ^ 32 - 30"
      using size assms(4) size_sub_ge [of 26 "unat ?size"] by simp
    ultimately have "nsq_decode_message (junk w) (orig ?rb) (data ?rb) (unat ?size) = Inl Out_of_bounds"
      by (simp add: nsq_decode_message_def mem_read_def Let_def)
    then show ?thesis
      using b assms(3) that rd s
      by (simp add: nsqd_connection_read_data_def sock_simps upd_conn_def on_conn_def handle_frame_def
          NSQ_FRAME_TYPE_RESPONSE_def NSQ_FRAME_TYPE_MESSAGE_def)
  qed
  moreover have "\<exists>w'. nsqd_connection_read_data cc q p w = Inr w' \<and> unconsumed q p w' []
      \<and> delivered p (calls w') = delivered p (calls w)"
    if other: "ntohl_at (take 4 (rbuf q w)) \<notin> {NSQ_FRAME_TYPE_RESPONSE, NSQ_FRAME_TYPE_MESSAGE}"
  proof -
    have "nsqd_connection_read_data cc q p w = buffered_socket_read_bytes 4 Nsqd_read_size p q ?w"
      using b assms(3) other rd s
      by (simp add: nsqd_connection_read_data_def sock_simps upd_conn_def on_conn_def handle_frame_def)
    moreover have l: "live q p ?w"
      using assms(1,3) b by (auto simp: live_def wf_bounded_drain)
    moreover have "length ?s \<le> unat ?size"
      using b(2) offset_contents [OF b(2)] size by (simp add: wf_bounded_def wf_buffer_def)
    then have "rbuf q ?w = []"
      using b(2) contents_buffer_drain [of "read_buf b" 4] contents_buffer_drain [of ?rb "unat ?size"]
      by (simp add: rbuf_def wf_bounded_def wf_buffer_drain)
    moreover have "\<not> timer_active (Read_bytes_timer q) (calls ?w)" using assms(2) by simp
    ultimately show ?thesis
      using request_bytes [of q p ?w 4 Nsqd_read_size] by (auto simp: unconsumed_def)
  qed
  ultimately show ?thesis by blast
qed


theorem short_frame_drops_input_witness:
  "\<exists>w'. nsqd_connection_read_data (reader_cc test_app) 2 1 (demo_live [0, 0, 0, 1, 0, 0, 0, 9]) = Inr w'
    \<and> rbuf 2 w' = []"
proof -
  let ?bs = "[0, 0, 0, 1, 0, 0, 0, 9] :: byte list"
  have "\<not> timer_active (Read_bytes_timer 2) (calls (demo_live ?bs))" by (simp add: demo_live_def)
  moreover obtain c where "conns (demo_live ?bs) 1 = Some c" "current_msg_size c = 0"
    by (simp add: demo_live_def new_conn_def)
  moreover have "rbuf 2 (demo_live ?bs) = ?bs" by (simp add: rbuf_def demo_live_def contents_def)
  moreover have "ntohl_at (take 4 ?bs) \<notin> {NSQ_FRAME_TYPE_RESPONSE, NSQ_FRAME_TYPE_MESSAGE}"
    by (simp add: ntohl_at_def NSQ_FRAME_TYPE_RESPONSE_def NSQ_FRAME_TYPE_MESSAGE_def)
  moreover have "live 2 1 (demo_live ?bs)" by (rule demo_live_ok) simp_all
  ultimately obtain w' where w': "nsqd_connection_read_data (reader_cc test_app) 2 1 (demo_live ?bs) = Inr w'"
      "unconsumed 2 1 w' []"
    using short_frame_drops_input [of 2 1 "demo_live ?bs" c "reader_cc test_app"] by auto
  then show ?thesis by (auto simp: unconsumed_def be32_bytes_def)
qed

end
