(* ===== verification/Frame_Rule.thy ===== *)
theory Frame_Rule
  imports Session
begin

section \<open>What an event leaves alone\<close>

text \<open>
  The frame of the handlers: an event of the socket \<open>q\<close> of connection \<open>p\<close> changes nothing of
  any other socket or connection, except that a connection that closes leaves the list. The
  handlers are built from statements on \<open>q\<close> and \<open>p\<close>; \<open>stays q p f\<close> says of one that it keeps
  to them, and composes along \<open>block\<close>.
\<close>

subsection \<open>The relation\<close>

definition unlinked :: "NSQDConnection \<Rightarrow> NSQDConnection" where
  "unlinked c = c\<lparr>conn_next := 0\<rparr>"

definition concerns :: "ptr \<Rightarrow> ptr \<Rightarrow> ext_call \<Rightarrow> bool" where
  "concerns q p c \<longleftrightarrow> about q c \<and> (\<forall>x l. x \<noteq> p \<longrightarrow> delivered x (c # l) = delivered x l)"

definition list_kept :: "ptr \<Rightarrow> nsq_world \<Rightarrow> nsq_world \<Rightarrow> bool" where
  "list_kept p w w' \<longleftrightarrow> (\<forall>r xs. rdr w = Some r \<longrightarrow> ll_rep conn_next (conns w) (conns_head r) xs \<longrightarrow>
     (\<exists>h ys. rdr w' = Some (r\<lparr>conns_head := h\<rparr>) \<and> ll_rep conn_next (conns w') h ys \<and> set xs - {p} \<subseteq> set ys))"

definition elsewhere :: "ptr \<Rightarrow> ptr \<Rightarrow> nsq_world \<Rightarrow> nsq_world \<Rightarrow> bool" where
  "elsewhere q p w w' \<longleftrightarrow> (\<forall>x. x \<noteq> q \<longrightarrow> socks w' x = socks w x)
     \<and> (\<forall>x. x \<noteq> p \<longrightarrow> map_option unlinked (conns w' x) = map_option unlinked (conns w x))
     \<and> (\<exists>cs. calls w' = cs @ calls w \<and> list_all (concerns q p) cs) \<and> list_kept p w w'"

lemma concerns_simps [simp]:
  "concerns q p (Ev_io_start (Read_io q) f)" "concerns q p (Ev_io_start (Write_io q) f)"
  "concerns q p (Ev_io_stop (Read_io q))" "concerns q p (Ev_io_stop (Write_io q))"
  "concerns q p (Ev_timer_start (Read_bytes_timer q))" "concerns q p (Ev_timer_stop (Read_bytes_timer q))"
  "concerns q p (Timer_expired (Read_bytes_timer q))" "concerns q p (Once_fired q)"
  "concerns q p (Sys_close f)" "concerns q p (Ev_timer_stop (Reconnect_timer x))"
  "concerns q p (Ev_timer_again (Reconnect_timer x))"
  "concerns q p (User_connect x)" "concerns q p (User_close x)" "concerns q p (User_msg p m)"
  by (auto simp: concerns_def)

lemma concerns_append:
  "list_all (concerns q p) cs \<Longrightarrow> x \<noteq> p \<Longrightarrow> delivered x (cs @ l) = delivered x l"
  by (induction cs) (simp_all add: concerns_def)

lemma concerns_about: "list_all (concerns q p) cs \<Longrightarrow> list_all (about q) cs"
  by (auto simp: list_all_iff concerns_def)

lemma list_kept_same:
  assumes "rdr w' = rdr w" and "\<And>x. map_option conn_next (conns w' x) = map_option conn_next (conns w x)"
  shows "list_kept p w w'"
  unfolding list_kept_def
proof (intro allI impI)
  fix r xs assume r: "rdr w = Some r" and xs: "ll_rep conn_next (conns w) (conns_head r) xs"
  have "ll_rep conn_next (conns w') (conns_head r) xs"
    using xs ll_list_cong [of xs conn_next "conns w'" "conns w"] assms(2) by (simp add: ll_rep_def)
  then show "\<exists>h ys. rdr w' = Some (r\<lparr>conns_head := h\<rparr>) \<and> ll_rep conn_next (conns w') h ys \<and> set xs - {p} \<subseteq> set ys"
    using r assms(1) by (intro exI [of _ "conns_head r"] exI [of _ xs]) simp
qed

lemma list_kept_trans:
  assumes "list_kept p w w1" and "list_kept p w1 w2"
  shows "list_kept p w w2"
  unfolding list_kept_def
proof (intro allI impI)
  fix r xs assume "rdr w = Some r" "ll_rep conn_next (conns w) (conns_head r) xs"
  then obtain h ys where 1: "rdr w1 = Some (r\<lparr>conns_head := h\<rparr>)" "ll_rep conn_next (conns w1) h ys"
      "set xs - {p} \<subseteq> set ys"
    using assms(1) unfolding list_kept_def by blast
  then obtain h2 zs where "rdr w2 = Some (r\<lparr>conns_head := h\<rparr>\<lparr>conns_head := h2\<rparr>)"
      "ll_rep conn_next (conns w2) h2 zs" "set ys - {p} \<subseteq> set zs"
    using assms(2) unfolding list_kept_def by force
  then show "\<exists>h ys. rdr w2 = Some (r\<lparr>conns_head := h\<rparr>) \<and> ll_rep conn_next (conns w2) h ys \<and> set xs - {p} \<subseteq> set ys"
    using 1(3) by (intro exI [of _ h2] exI [of _ zs]) auto
qed

lemma elsewhereI:
  "(\<And>x. x \<noteq> q \<Longrightarrow> socks w' x = socks w x) \<Longrightarrow>
    (\<And>x. x \<noteq> p \<Longrightarrow> map_option unlinked (conns w' x) = map_option unlinked (conns w x)) \<Longrightarrow>
    calls w' = cs @ calls w \<Longrightarrow> list_all (concerns q p) cs \<Longrightarrow> list_kept p w w' \<Longrightarrow> elsewhere q p w w'"
  unfolding elsewhere_def by blast

lemma elsewhere_refl: "elsewhere q p w w"
  by (rule elsewhereI [where cs = "[]"]) (simp_all add: list_kept_same)

lemma elsewhere_trans: "elsewhere q p w w1 \<Longrightarrow> elsewhere q p w1 w2 \<Longrightarrow> elsewhere q p w w2"
  unfolding elsewhere_def
proof (elim conjE exE, intro conjI)
  fix cs ds assume "calls w1 = cs @ calls w" "list_all (concerns q p) cs"
    "calls w2 = ds @ calls w1" "list_all (concerns q p) ds"
  then show "\<exists>cs. calls w2 = cs @ calls w \<and> list_all (concerns q p) cs"
    by (intro exI [of _ "ds @ cs"]) simp
qed (simp_all add: list_kept_trans [of p w w1 w2])

subsection \<open>Statements that keep to a connection\<close>

definition bound :: "ptr \<Rightarrow> ptr \<Rightarrow> nsq_world \<Rightarrow> bool" where
  "bound q p w \<longleftrightarrow> (\<forall>b. socks w q = Some b \<longrightarrow> cbarg b = p
       \<and> (read_bytes_callback b \<noteq> None \<longrightarrow> read_bytes_arg b = p))
     \<and> (\<forall>c. conns w p = Some c \<longrightarrow> conn_bs c = q)"

definition stays :: "ptr \<Rightarrow> ptr \<Rightarrow> nsq_proc \<Rightarrow> bool" where
  "stays q p f \<longleftrightarrow> (\<forall>w w'. bound q p w \<longrightarrow> f w = Inr w' \<longrightarrow> bound q p w' \<and> elsewhere q p w w')"

named_theorems stays_rules \<open>procedures that keep to a connection and its socket\<close>

lemma staysD: "stays q p f \<Longrightarrow> bound q p w \<Longrightarrow> f w = Inr w' \<Longrightarrow> bound q p w' \<and> elsewhere q p w w'"
  by (simp add: stays_def)

lemma staysI:
  "(\<And>w w'. bound q p w \<Longrightarrow> f w = Inr w' \<Longrightarrow> bound q p w' \<and> elsewhere q p w w') \<Longrightarrow> stays q p f"
  by (simp add: stays_def)

lemma stays_Inr [stays_rules]: "stays q p Inr"
  by (simp add: stays_def elsewhere_refl)

lemma stays_fail [stays_rules]: "stays q p (\<lambda>_. Inl e)"
  by (simp add: stays_def)

lemma stays_seq:
  assumes "stays q p f" and "stays q p g" shows "stays q p (\<lambda>w. bind_res (f w) g)"
proof (rule staysI)
  fix w w' assume "bound q p w" "bind_res (f w) g = Inr w'"
  then obtain w1 where "f w = Inr w1" "bound q p w1" "elsewhere q p w w1" "g w1 = Inr w'"
    using staysD [OF assms(1)] by (auto simp: bind_res_Inr_iff)
  then show "bound q p w' \<and> elsewhere q p w w'" using staysD [OF assms(2)] elsewhere_trans by blast
qed

lemma stays_block: "list_all (stays q p) fs \<Longrightarrow> stays q p (block fs)"
proof (induction fs)
  case Nil
  then show ?case by (simp add: block_Nil stays_Inr)
next
  case (Cons f fs)
  have "stays q p (\<lambda>w. bind_res (f w) (block fs))" using Cons by (intro stays_seq) simp_all
  then show ?case by (simp add: stays_def)
qed

lemma stays_if: "(c \<Longrightarrow> stays q p f) \<Longrightarrow> (\<not> c \<Longrightarrow> stays q p g) \<Longrightarrow> stays q p (if c then f else g)"
  by simp

lemma stays_if_app:
  "(c \<Longrightarrow> stays q p f) \<Longrightarrow> (\<not> c \<Longrightarrow> stays q p g) \<Longrightarrow> stays q p (\<lambda>w. if c then f w else g w)"
  by (cases c) simp_all

lemma stays_bind:
  "(\<And>w x. m w = Inr x \<Longrightarrow> stays q p (f x)) \<Longrightarrow> stays q p (\<lambda>w. bind_res (m w) (\<lambda>x. f x w))"
  by (auto simp: stays_def bind_res_Inr_iff)

lemma stays_on_sock:
  assumes "\<And>b. cbarg b = p \<Longrightarrow> (read_bytes_callback b \<noteq> None \<Longrightarrow> read_bytes_arg b = p) \<Longrightarrow> stays q p (f b)"
  shows "stays q p (on_sock q f)"
proof (rule staysI)
  fix w w' assume bd: "bound q p w" and run: "on_sock q f w = Inr w'"
  then obtain b where b: "socks w q = Some b" "f b w = Inr w'"
    by (cases "socks w q") (simp_all add: on_sock_def)
  have "stays q p (f b)" using bd b(1) by (intro assms) (simp_all add: bound_def)
  then show "bound q p w' \<and> elsewhere q p w w'" using bd b(2) by (rule staysD)
qed

lemma stays_on_sock_any: "(\<And>b. stays q p (f b)) \<Longrightarrow> stays q p (on_sock q f)"
  by (rule stays_on_sock)

lemma stays_on_conn:
  assumes "\<And>c. conn_bs c = q \<Longrightarrow> stays q p (f c)"
  shows "stays q p (on_conn p f)"
proof (rule staysI)
  fix w w' assume bd: "bound q p w" and run: "on_conn p f w = Inr w'"
  then obtain c where c: "conns w p = Some c" "f c w = Inr w'"
    by (cases "conns w p") (simp_all add: on_conn_def)
  have "stays q p (f c)" using bd c(1) by (intro assms) (simp add: bound_def)
  then show "bound q p w' \<and> elsewhere q p w w'" using bd c(2) by (rule staysD)
qed

lemma stays_on_rdr: "(\<And>r. stays q p (f r)) \<Longrightarrow> stays q p (on_rdr f)"
  by (auto simp: stays_def on_rdr_def split: option.splits)

lemma stays_emit [stays_rules]:
  assumes c: "concerns q p c" shows "stays q p (emit c)"
proof (rule staysI)
  fix w w' assume bd: "bound q p w" and "emit c w = Inr w'"
  then have w': "w' = w\<lparr>calls := c # calls w\<rparr>" by (simp add: emit_def)
  have "elsewhere q p w w'"
    by (rule elsewhereI [where cs = "[c]"]) (simp_all add: w' c list_kept_same)
  then show "bound q p w' \<and> elsewhere q p w w'" using bd by (simp add: bound_def w')
qed

lemma stays_set_errno [stays_rules]: "stays q p (set_errno e)"
proof (rule staysI)
  fix w w' assume bd: "bound q p w" and "set_errno e w = Inr w'"
  then have w': "w' = w\<lparr>errno := e\<rparr>" by (simp add: set_errno_def)
  have "elsewhere q p w w'" by (rule elsewhereI [where cs = "[]"]) (simp_all add: w' list_kept_same)
  then show "bound q p w' \<and> elsewhere q p w w'" using bd by (simp add: bound_def w')
qed

lemma stays_upd_sock:
  assumes "\<And>b. cbarg (f b) = cbarg b"
    and "\<And>b. read_bytes_callback (f b) \<noteq> None \<Longrightarrow> (read_bytes_callback b \<noteq> None \<Longrightarrow> read_bytes_arg b = p) \<Longrightarrow>
      read_bytes_arg (f b) = p"
  shows "stays q p (upd_sock q f)"
proof (rule staysI)
  fix w w' assume bd: "bound q p w" and run: "upd_sock q f w = Inr w'"
  then obtain b where b: "socks w q = Some b" and w': "w' = w\<lparr>socks := (socks w)(q \<mapsto> f b)\<rparr>"
    by (auto simp: upd_sock_def on_sock_def split: option.splits)
  have "bound q p w'" using bd b assms(1) [of b] assms(2) [of b] by (auto simp: bound_def w')
  moreover have "elsewhere q p w w'"
    by (auto simp: elsewhere_def w' intro: list_kept_same exI [of _ "[]"])
  ultimately show "bound q p w' \<and> elsewhere q p w w'" by simp
qed

lemma stays_upd_sock_simple:
  assumes "\<And>b. cbarg (f b) = cbarg b" and "\<And>b. read_bytes_callback (f b) = read_bytes_callback b"
    and "\<And>b. read_bytes_arg (f b) = read_bytes_arg b"
  shows "stays q p (upd_sock q f)"
  using assms by (intro stays_upd_sock) simp_all

lemma stays_upd_conn:
  assumes "\<And>c. conn_bs (f c) = conn_bs c" and "\<And>c. conn_next (f c) = conn_next c"
  shows "stays q p (upd_conn p f)"
proof (rule staysI)
  fix w w' assume bd: "bound q p w" and run: "upd_conn p f w = Inr w'"
  then obtain c where c: "conns w p = Some c" and w': "w' = w\<lparr>conns := (conns w)(p \<mapsto> f c)\<rparr>"
    by (auto simp: upd_conn_def on_conn_def split: option.splits)
  have "bound q p w'" using bd c assms(1) by (auto simp: bound_def w')
  moreover have "list_kept p w w'" using c assms(2) by (intro list_kept_same) (simp_all add: w')
  then have "elsewhere q p w w'" by (rule elsewhereI [where cs = "[]", rotated 4]) (simp_all add: w')
  ultimately show "bound q p w' \<and> elsewhere q p w w'" by simp
qed


subsection \<open>The procedures of a connection\<close>

lemma stays_ev_io [stays_rules]:
  "stays q p (ev_io_start_read q)" "stays q p (ev_io_start_write q)"
  "stays q p (ev_io_stop_read q)" "stays q p (ev_io_stop_write q)"
  by (auto simp: ev_io_start_read_def ev_io_start_write_def ev_io_stop_read_def ev_io_stop_write_def
      intro!: stays_on_sock_any stays_rules split: option.split)

lemma stays_write:
  assumes bd: "bound q p w" and run: "buffered_socket_write src len q w = Inr (n, w')"
  shows "bound q p w' \<and> elsewhere q p w w'"
proof -
  obtain b where b: "socks w q = Some b"
    using run by (cases "socks w q") (simp_all add: buffered_socket_write_def on_sock_def)
  show ?thesis
  proof (cases "state b = BS_CONNECTED")
    case True
    then obtain wb where "block [upd_sock q (write_buf_update (\<lambda>_. wb)), ev_io_start_write q] w = Inr w'"
      using run b by (auto simp: buffered_socket_write_def on_sock_def bind_res_Inr_iff)
    moreover have "stays q p (block [upd_sock q (write_buf_update (\<lambda>_. wb)), ev_io_start_write q])"
      by (intro stays_block) (simp add: stays_upd_sock_simple stays_rules)
    ultimately show ?thesis using bd by (intro staysD)
  next
    case False
    then have "w' = w" using run b by (simp add: buffered_socket_write_def on_sock_def)
    then show ?thesis using bd elsewhere_refl by simp
  qed
qed

lemma stays_sock_write [stays_rules]: "stays q p (sock_write src len q)"
  by (rule staysI) (auto simp: sock_write_def bind_res_Inr_iff dest: stays_write)

lemma stays_reset [stays_rules]: "stays q p (reset_command_buf p)"
  unfolding reset_command_buf_def by (rule stays_upd_conn) simp_all

lemma stays_write_command [stays_rules]: "stays q p (write_command f p)"
  unfolding write_command_def by (intro stays_on_conn stays_bind stays_upd_conn) simp_all

lemma stays_flush [stays_rules]: "stays q p (flush_command_buf p)"
proof (rule staysI)
  fix w w' assume bd: "bound q p w" and run: "flush_command_buf p w = Inr w'"
  obtain c where c: "conns w p = Some c" "conn_bs c = q"
    using run bd by (cases "conns w p") (simp_all add: flush_command_buf_def on_conn_def bound_def)
  obtain n cb w1 where w1: "buffered_socket_write_buffer (command_buf c) q w = Inr (n, cb, w1)"
      "upd_conn p (command_buf_update (\<lambda>_. cb)) w1 = Inr w'"
    using run c by (auto simp: flush_command_buf_def on_conn_def bind_res_Inr_iff)
  have "bound q p w1 \<and> elsewhere q p w w1"
    using w1(1) bd by (auto simp: buffered_socket_write_buffer_def Let_def bind_res_Inr_iff elsewhere_refl
        dest: stays_write split: if_splits)
  moreover have "stays q p (upd_conn p (command_buf_update (\<lambda>_. cb)))" by (rule stays_upd_conn) simp_all
  ultimately show "bound q p w' \<and> elsewhere q p w w'"
    using staysD [where f = "upd_conn p (command_buf_update (\<lambda>_. cb))", OF _ _ w1(2)] elsewhere_trans by blast
qed

lemma stays_read_bytes [stays_rules]: "stays q p (buffered_socket_read_bytes n k p q)"
proof -
  have "stays q p (upd_sock q (\<lambda>b. b\<lparr>read_bytes_callback := Some k, read_bytes_arg := p, read_bytes_n := n\<rparr>))"
    by (rule stays_upd_sock) simp_all
  then show ?thesis
    unfolding buffered_socket_read_bytes_def by (intro stays_on_sock_any stays_block) (simp add: stays_rules)
qed

lemma stays_read_size [stays_rules]: "stays q p (nsqd_connection_read_size q p)"
  unfolding nsqd_connection_read_size_def Let_def
  by (intro stays_on_sock_any stays_block)
    (simp add: stays_upd_sock_simple stays_on_sock_any stays_on_conn stays_bind stays_upd_conn stays_rules)

text \<open>What the application may do: anything that keeps to the connection it is called for.\<close>

definition app_stays :: "application \<Rightarrow> ptr \<Rightarrow> ptr \<Rightarrow> bool" where
  "app_stays app q p \<longleftrightarrow> (\<forall>f. app_connect app = Some f \<longrightarrow> stays q p (f p))
     \<and> (\<forall>f. app_close app = Some f \<longrightarrow> stays q p (f p))
     \<and> (\<forall>f m. app_msg app = Some f \<longrightarrow> stays q p (f p m))"

lemma stays_user: "(\<And>f. x = Some f \<Longrightarrow> stays q p (f p)) \<Longrightarrow> concerns q p e \<Longrightarrow>
    stays q p (case x of None \<Rightarrow> Inr | Some f \<Rightarrow> block [emit e, f p])"
  by (cases x) (simp_all add: stays_rules stays_block del: block.simps)

lemma stays_msg_cb:
  assumes "app_stays app q p" shows "stays q p (nsq_reader_msg_cb app p m)"
  using assms by (cases "app_msg app")
    (simp_all add: nsq_reader_msg_cb_def app_stays_def stays_rules stays_on_rdr stays_block del: block.simps)

lemma stays_handle_frame:
  assumes app: "app_stays app q p" shows "stays q p (handle_frame (reader_cc app) q p)"
proof -
  have "stays q p (block [reset_command_buf p, write_command nsq_nop p, flush_command_buf p])"
    by (intro stays_block) (simp add: stays_rules)
  then show ?thesis
    unfolding handle_frame_def reader_cc_def
    by (intro stays_on_conn stays_on_sock_any stays_if_app stays_bind)
      (simp_all add: stays_rules stays_msg_cb [OF app] del: block.simps)
qed

lemma stays_read_data:
  assumes app: "app_stays app q p" shows "stays q p (nsqd_connection_read_data (reader_cc app) q p)"
  unfolding nsqd_connection_read_data_def
  by (intro stays_block)
    (simp add: stays_upd_sock_simple stays_on_sock_any stays_on_conn stays_bind stays_upd_conn stays_rules
      stays_handle_frame [OF app])


subsection \<open>Closing\<close>

lemma LL_DELETE_cells:
  assumes "LL_DELETE conn_next set_conn_next head del h = Inr (h', hp)"
  shows "map_option unlinked (hp x) = map_option unlinked (h x)"
    and "map_option conn_bs (hp x) = map_option conn_bs (h x)"
  using assms by (auto simp: LL_DELETE_def store_def deref_def bind_res_Inr_iff unlinked_def set_conn_next_def
      split: if_splits option.splits)

text \<open>
  After the deletion the connection is rearmed or freed; freeing is only harmless to the list
  because the connection has left it.
\<close>

lemma stays_close_tail:
  assumes bd: "bound q p w" and p: "p \<noteq> 0" and del: "delete_conn p w = Inr w1"
    and run: "on_rdr (\<lambda>r. if lookupd_head r = 0 then ev_timer_again_reconnect p else free_nsqd_connection p) w1 = Inr w'"
  shows "bound q p w' \<and> elsewhere q p w w'"
proof -
  obtain r h hp where r: "rdr w = Some r"
      and hp: "LL_DELETE conn_next set_conn_next (conns_head r) p (conns w) = Inr (h, hp)"
      and w1: "w1 = w\<lparr>conns := hp, rdr := Some (r\<lparr>conns_head := h\<rparr>)\<rparr>"
    using del by (auto simp: delete_conn_def on_rdr_def bind_res_Inr_iff split: option.splits)
  have rep: "\<exists>ys. ll_rep conn_next hp h ys \<and> set xs - {p} \<subseteq> set ys \<and> p \<notin> set ys"
    if xs: "ll_rep conn_next (conns w) (conns_head r) xs" for xs
  proof (cases "p \<in> set xs")
    case True
    then have "ll_rep conn_next hp h (remove1 p xs)" using conn_list.delete_removes [OF xs True] hp by auto
    then show ?thesis using xs by (intro exI [of _ "remove1 p xs"]) (auto simp: ll_rep_def)
  next
    case False
    then have "xs \<noteq> []"
      using hp xs conn_list.delete_from_empty [OF p] by (auto simp: ll_rep_def)
    then have "hp = conns w" "h = conns_head r" using conn_list.delete_missing [OF xs False] hp by simp_all
    then show ?thesis using xs False by (intro exI [of _ xs]) auto
  qed
  have bd1: "bound q p w1"
    using bd LL_DELETE_cells(2) [OF hp, of p, symmetric] by (auto simp: bound_def w1)
  have frame: "bound q p w' \<and> elsewhere q p w w'"
    if w': "socks w' = (socks w)(q := x)" "\<forall>b. x = Some b \<longrightarrow> socks w q = Some b"
      "conns w' = hp(p := y)" "\<forall>c. y = Some c \<longrightarrow> (\<exists>d. hp p = Some d \<and> conn_bs c = conn_bs d)"
      "rdr w' = Some (r\<lparr>conns_head := h\<rparr>)" "calls w' = cs @ calls w" "list_all (concerns q p) cs" for x y cs
  proof -
    have "list_kept p w w'"
      unfolding list_kept_def
    proof (intro allI impI)
      fix r' xs assume "rdr w = Some r'" "ll_rep conn_next (conns w) (conns_head r') xs"
      then obtain ys where ys: "ll_rep conn_next hp h ys" "set xs - {p} \<subseteq> set ys" "p \<notin> set ys" "r' = r"
        using rep [of xs] r by auto
      have "ll_list conn_next (hp(p := y)) h ys = ll_list conn_next hp h ys"
        using ys(3) by (intro ll_list_cong) auto
      then have "ll_rep conn_next (conns w') h ys" using ys(1) w'(3) by (simp add: ll_rep_def)
      then show "\<exists>h ys. rdr w' = Some (r'\<lparr>conns_head := h\<rparr>) \<and> ll_rep conn_next (conns w') h ys \<and> set xs - {p} \<subseteq> set ys"
        using w'(5) ys(2,4) by (intro exI [of _ h] exI [of _ ys]) simp
    qed
    moreover have "map_option unlinked (conns w' x) = map_option unlinked (conns w x)" if "x \<noteq> p" for x
      using that LL_DELETE_cells(1) [OF hp, of x] by (simp add: w'(3))
    ultimately have "elsewhere q p w w'"
      using w'(1,6,7) by (intro elsewhereI [where cs = cs]) simp_all
    moreover have "bound q p w'"
      unfolding bound_def
    proof (intro conjI allI impI)
      fix b assume "socks w' q = Some b"
      then have "socks w q = Some b" using w'(1,2) by simp
      then show "cbarg b = p" "read_bytes_callback b \<noteq> None \<Longrightarrow> read_bytes_arg b = p"
        using bd by (simp_all add: bound_def)
    next
      fix c assume "conns w' p = Some c"
      then show "conn_bs c = q" using w'(3,4) bd1 by (auto simp: bound_def w1)
    qed
    ultimately show ?thesis by simp
  qed
  show ?thesis
  proof (cases "lookupd_head r = 0")
    case True
    then obtain c where "hp p = Some c" "w' = w1\<lparr>calls := Ev_timer_again (Reconnect_timer p) # calls w\<rparr>"
      using run by (auto simp: w1 on_rdr_def ev_timer_again_reconnect_def on_conn_def emit_def
          split: option.splits timer_ptr.splits)
    then show ?thesis
      by (intro frame [where x = "socks w q" and y = "hp p" and cs = "[Ev_timer_again (Reconnect_timer p)]"])
        (simp_all add: w1 fun_upd_idem)
  next
    case False
    then obtain c where c: "hp p = Some c" and w': "socks w' = (socks w)(conn_bs c := None)"
        "conns w' = hp(p := None)" "rdr w' = Some (r\<lparr>conns_head := h\<rparr>)"
        and cs: "calls w' = [] @ calls w \<or> calls w' = [Ev_timer_stop (Reconnect_timer p)] @ calls w"
      using run p by (cases "hp p"; cases "reconnect_timer (the (hp p))")
        (auto simp: w1 on_rdr_def free_nsqd_connection_def nsqd_connection_stop_timer_def on_conn_def emit_def
          upd_conn_def free_buffered_socket_def split: option.splits)
    have "conn_bs c = q" using bd1 c by (simp add: bound_def w1)
    with cs show ?thesis
      by (elim disjE) (erule frame [where x = None and y = None, rotated 5]; simp add: w')+
  qed
qed

lemma stays_reader_close:
  assumes app: "app_stays app q p" and p: "p \<noteq> 0"
  shows "stays q p (nsqd_connection_close_cb (reader_cc app) q p)"
proof (rule staysI)
  fix w w' assume bd: "bound q p w" and run: "nsqd_connection_close_cb (reader_cc app) q p w = Inr w'"
  let ?user = "case app_close app of None \<Rightarrow> Inr | Some f \<Rightarrow> block [emit (User_close p), f p]"
  let ?tail = "on_rdr (\<lambda>r. if lookupd_head r = 0 then ev_timer_again_reconnect p else free_nsqd_connection p)"
  obtain w1 w2 where w1: "?user w = Inr w1" and w2: "delete_conn p w1 = Inr w2" and w': "?tail w2 = Inr w'"
    using run by (cases "conns w p") (auto simp: nsqd_connection_close_cb_def reader_cc_def on_conn_def
        nsq_reader_close_cb_def bind_res_Inr_iff)
  have "stays q p ?user" using app by (intro stays_user) (simp_all add: app_stays_def)
  then have 1: "bound q p w1 \<and> elsewhere q p w w1" using bd w1 by (rule staysD)
  then show "bound q p w' \<and> elsewhere q p w w'"
    using stays_close_tail [OF _ p w2 w'] elsewhere_trans by blast
qed

lemma stays_reader_connect:
  assumes app: "app_stays app q p" shows "stays q p (nsq_reader_connect_cb app p)"
proof -
  have "stays q p (case app_connect app of None \<Rightarrow> Inr | Some f \<Rightarrow> block [emit (User_connect p), f p])"
    using app by (intro stays_user) (simp_all add: app_stays_def)
  then show ?thesis
    unfolding nsq_reader_connect_cb_def by (intro stays_block) (simp add: stays_rules stays_on_rdr)
qed

lemma stays_nsqd_call:
  assumes app: "app_stays app q p" and p: "p \<noteq> 0"
  shows "stays q p (nsqd_call (reader_cc app) k q p)"
proof (cases k)
  case Nsqd_connect_cb
  have "stays q p (nsqd_connection_connect_cb (reader_cc app) q p)"
    unfolding nsqd_connection_connect_cb_def
    by (intro stays_block) (simp add: stays_on_conn stays_rules reader_cc_def stays_reader_connect [OF app])
  then show ?thesis using Nsqd_connect_cb by simp
qed (simp_all add: stays_reader_close [OF app p] stays_rules stays_read_size stays_read_data [OF app]
    nsqd_connection_error_cb_def)

subsection \<open>The handlers of a socket\<close>

lemma stays_invoke:
  assumes "app_stays app q p" and "p \<noteq> 0"
  shows "stays q p (invoke (nsqd_call (reader_cc app)) sel q)"
  unfolding invoke_def
proof (rule stays_on_sock)
  fix b :: "nsqd_fn BufferedSocket" assume "cbarg b = p"
  then show "stays q p (case sel b of None \<Rightarrow> Inr | Some k \<Rightarrow> nsqd_call (reader_cc app) k q (cbarg b))"
    using stays_nsqd_call [OF assms] by (cases "sel b") (simp_all add: stays_rules)
qed

lemma stays_close:
  assumes "app_stays app q p" and "p \<noteq> 0"
  shows "stays q p (buffered_socket_close (nsqd_call (reader_cc app)) q)"
  unfolding buffered_socket_close_def
  by (intro stays_on_sock_any stays_if stays_block)
    (simp_all add: stays_rules stays_block stays_upd_sock_simple stays_invoke [OF assms] del: block.simps)

lemma stays_io_error:
  assumes "app_stays app q p" and "p \<noteq> 0"
  shows "stays q p (io_error (nsqd_call (reader_cc app)) q)"
  unfolding io_error_def
  by (intro stays_block) (simp add: stays_invoke [OF assms] stays_close [OF assms])

lemma stays_read_cb:
  assumes "app_stays app q p" and "p \<noteq> 0"
  shows "stays q p (buffered_socket_read_cb (nsqd_call (reader_cc app)) env q)"
proof -
  have *: "stays q p (block
     [upd_sock q (read_buf_update (\<lambda>_. rb)), set_errno err,
      if res = -1 then (if err = EAGAIN \<or> err = EINTR then Inr else io_error (nsqd_call (reader_cc app)) q)
      else if res = 0 then io_error (nsqd_call (reader_cc app)) q
      else block
        [invoke (nsqd_call (reader_cc app)) read_callback q,
         on_sock q (\<lambda>b.
           if read_bytes_n b \<noteq> 0 \<and> read_bytes_n b \<le> BUFFER_HAS_DATA (read_buf b)
           then emit (Ev_timer_start (Read_bytes_timer q)) else Inr)]])" for rb res err
    by (intro stays_block) (simp add: stays_rules stays_block stays_upd_sock_simple stays_on_sock_any
        stays_invoke [OF assms] stays_io_error [OF assms] del: block.simps)
  show ?thesis
    unfolding buffered_socket_read_cb_def
    by (intro stays_on_sock_any stays_bind) (simp only: split_beta, rule *)
qed

lemma stays_write_cb:
  assumes "app_stays app q p" and "p \<noteq> 0"
  shows "stays q p (buffered_socket_write_cb (nsqd_call (reader_cc app)) out q)"
proof -
  have *: "stays q p (block
     [upd_sock q (write_buf_update (\<lambda>_. wb)), set_errno err,
      if BUFFER_HAS_DATA wb = 0 then ev_io_stop_write q else Inr,
      if res = -1 then
        (if err = EAGAIN \<or> err = EINTR \<or> err = EINPROGRESS then Inr else io_error (nsqd_call (reader_cc app)) q)
      else if res = 0 then io_error (nsqd_call (reader_cc app)) q
      else invoke (nsqd_call (reader_cc app)) write_callback q])" for wb res err
    by (intro stays_block) (simp add: stays_rules stays_upd_sock_simple
        stays_invoke [OF assms] stays_io_error [OF assms] del: block.simps)
  show ?thesis
    unfolding buffered_socket_write_cb_def
    by (intro stays_on_sock_any stays_bind) (simp only: split_beta, rule *)
qed

lemma stays_read_bytes_cb:
  assumes "app_stays app q p" and "p \<noteq> 0"
  shows "stays q p (buffered_socket_read_bytes_cb (nsqd_call (reader_cc app)) q)"
  unfolding buffered_socket_read_bytes_cb_def
proof (rule stays_on_sock, rule stays_block)
  fix b :: "nsqd_fn BufferedSocket" assume arg: "read_bytes_callback b \<noteq> None \<Longrightarrow> read_bytes_arg b = p"
  have "stays q p (upd_sock q (\<lambda>b. b\<lparr>read_bytes_callback := None, read_bytes_n := 0, read_bytes_arg := 0\<rparr>))"
    by (rule stays_upd_sock) simp_all
  moreover have "stays q p (case read_bytes_callback b of None \<Rightarrow> (\<lambda>_. Inl Null_deref)
      | Some k \<Rightarrow> nsqd_call (reader_cc app) k q (read_bytes_arg b))"
    using arg stays_nsqd_call [OF assms] by (cases "read_bytes_callback b") (simp_all add: stays_rules)
  ultimately show "list_all (stays q p)
      [upd_sock q (\<lambda>b. b\<lparr>read_bytes_callback := None, read_bytes_n := 0, read_bytes_arg := 0\<rparr>),
       case read_bytes_callback b of None \<Rightarrow> (\<lambda>_. Inl Null_deref)
       | Some k \<Rightarrow> nsqd_call (reader_cc app) k q (read_bytes_arg b)]" by simp
qed

text \<open>The frame of an event.\<close>

lemma stays_handle:
  assumes app: "app_stays app q p" and p: "p \<noteq> 0" and ev: "socket_event q ev"
  shows "stays q p (handle app lib net ev)"
proof (cases ev)
  case (Socket_readable r env)
  then show ?thesis using ev stays_read_cb [OF app p] by (simp add: stays_def)
next
  case (Socket_writable r out)
  then show ?thesis using ev stays_write_cb [OF app p] by (simp add: stays_def)
next
  case (Read_bytes_due r)
  have "stays q p (block [emit (Timer_expired (Read_bytes_timer q)),
      buffered_socket_read_bytes_cb (nsqd_call (reader_cc app)) q])"
    by (intro stays_block) (simp add: stays_rules stays_read_bytes_cb [OF app p])
  then show ?thesis using ev Read_bytes_due by (simp add: stays_def del: block.simps)
qed (use ev in simp_all)

lemma message_handler_stays: "stays q p (message_handler p m)"
  unfolding message_handler_def by (intro stays_block) (simp add: stays_rules stays_on_rdr)

lemma test_app_stays: "app_stays test_app q p"
  by (simp add: app_stays_def test_app_def message_handler_stays)


subsection \<open>What the other connections see\<close>

lemma unlinked_simps [simp]:
  "conn_bs (unlinked c) = conn_bs c" "command_buf (unlinked c) = command_buf c"
  "reconnect_timer (unlinked c) = reconnect_timer c" "current_msg_size (unlinked c) = current_msg_size c"
  by (simp_all add: unlinked_def)

lemma elsewhere_conn:
  assumes "elsewhere q p w w'" and "x \<noteq> p" and "conns w x = Some c"
  obtains c' where "conns w' x = Some c'" and "conn_bs c' = conn_bs c" and "command_buf c' = command_buf c"
    and "reconnect_timer c' = reconnect_timer c" and "current_msg_size c' = current_msg_size c"
proof -
  have "map_option unlinked (conns w' x) = Some (unlinked c)" using assms by (simp add: elsewhere_def)
  then obtain c' where c': "conns w' x = Some c'" "unlinked c' = unlinked c" by auto
  show ?thesis
    using that [OF c'(1)] unlinked_simps [of c'] unlinked_simps [of c] unfolding c'(2) by simp
qed

lemma elsewhere_timers:
  assumes "elsewhere q p w w'" and "y \<noteq> q"
  shows "io_active (Read_io y) (calls w') = io_active (Read_io y) (calls w)"
    and "io_active (Write_io y) (calls w') = io_active (Write_io y) (calls w)"
    and "timer_active (Read_bytes_timer y) (calls w') = timer_active (Read_bytes_timer y) (calls w)"
    and "once_pending y (calls w') = once_pending y (calls w)"
proof -
  obtain cs where cs: "calls w' = cs @ calls w" "list_all (about q) cs"
    using assms(1) concerns_about by (auto simp: elsewhere_def)
  show "io_active (Read_io y) (calls w') = io_active (Read_io y) (calls w)"
    and "io_active (Write_io y) (calls w') = io_active (Write_io y) (calls w)"
    and "timer_active (Read_bytes_timer y) (calls w') = timer_active (Read_bytes_timer y) (calls w)"
    and "once_pending y (calls w') = once_pending y (calls w)"
    by (simp_all add: cs(1) about_append [OF cs(2) assms(2)])
qed

lemma elsewhere_delivered: "elsewhere q p w w' \<Longrightarrow> x \<noteq> p \<Longrightarrow> delivered x (calls w') = delivered x (calls w)"
  by (auto simp: elsewhere_def concerns_append)

lemma elsewhere_dead: "elsewhere q p w w' \<Longrightarrow> y \<noteq> q \<Longrightarrow> dead y w' = dead y w"
  by (simp add: dead_def elsewhere_timers)

lemma elsewhere_owns:
  assumes e: "elsewhere q p w w'" and x: "x \<noteq> p" and own: "reader_owns x w"
  shows "reader_owns x w'"
proof -
  obtain r xs c where r: "x \<noteq> 0" "rdr w = Some r" "ll_rep conn_next (conns w) (conns_head r) xs" "x \<in> set xs"
      "int_range (max_in_flight r)" "conns w x = Some c"
      "if lookupd_head r = 0 then reconnect_timer c = Timer_allocated else reconnect_timer c \<noteq> Timer_dangling"
    using own by (auto simp: reader_owns_def)
  have "list_kept p w w'" using e by (simp add: elsewhere_def)
  then obtain h ys where ys: "rdr w' = Some (r\<lparr>conns_head := h\<rparr>)" "ll_rep conn_next (conns w') h ys"
      "set xs - {p} \<subseteq> set ys"
    using r(2,3) unfolding list_kept_def by blast
  obtain c' where c': "conns w' x = Some c'" "reconnect_timer c' = reconnect_timer c"
    by (rule elsewhere_conn [OF e x r(6)])
  have "x \<in> set ys" using ys(3) r(4) x by blast
  then show ?thesis using r(1,5,7) ys(1,2) c'
    by (auto simp: reader_owns_def intro!: exI [of _ ys])
qed

lemma elsewhere_unconsumed:
  assumes e: "elsewhere q p w w'" and ne: "y \<noteq> q" "x \<noteq> p" and u: "unconsumed y x w u"
  shows "unconsumed y x w' u"
proof -
  have s: "socks w' y = socks w y" using e ne(1) by (simp add: elsewhere_def)
  have l: "live y x w'" if l: "live y x w"
  proof -
    obtain b c where b: "socks w y = Some b" and c: "conns w x = Some c" using l by (auto simp: live_def)
    obtain c' where "conns w' x = Some c'" "conn_bs c' = conn_bs c" "command_buf c' = command_buf c"
      by (rule elsewhere_conn [OF e ne(2) c])
    then show ?thesis using l b c s elsewhere_timers(1) [OF e ne(1)] by (simp add: live_def)
  qed
  have rd: "reading y x k n w'" if "reading y x k n w" for k n
    using that l s elsewhere_timers(3) [OF e ne(1)] by (simp add: reading_def rbuf_def)
  have "rbuf y w' = rbuf y w" using s by (simp add: rbuf_def)
  then consider "reading y x Nsqd_read_size 4 w'" "u = rbuf y w'"
    | c where "conns w x = Some c" "reading y x Nsqd_read_data (unat (current_msg_size c)) w'"
        "u = be32_bytes (current_msg_size c) @ rbuf y w'"
    using u rd by (auto simp: unconsumed_def)
  then show ?thesis
  proof cases
    case 2
    obtain c' where "conns w' x = Some c'" "current_msg_size c' = current_msg_size c"
      by (rule elsewhere_conn [OF e ne(2) 2(1)])
    then show ?thesis using 2(2,3) by (simp add: unconsumed_def)
  qed (simp add: unconsumed_def)
qed

lemma unconsumed_bound:
  assumes "unconsumed q p w u" shows "bound q p w"
  using assms unconsumed_live [OF assms] by (auto simp: unconsumed_def reading_def live_def bound_def)

end
