(* ===== verification/Interleaving.thy ===== *)
theory Interleaving
  imports Frame_Rule
begin

section \<open>Any interleaving of any number of connections\<close>

text \<open>
  Delivery for a whole program: the events of all connections in any order. Each step is one of
  the frame reader on its own connection (Delivery), and leaves the others as they are
  (Frame_Rule), so each connection delivers the messages of its own byte stream.
\<close>

subsection \<open>Streams and runs\<close>

text \<open>The bytes that the reads on one socket take from the kernel in a run.\<close>

fun bytes_for :: "ptr \<Rightarrow> event \<Rightarrow> nsq_world \<Rightarrow> byte list" where
  "bytes_for q (Socket_readable r env) w = (if r = q then taken env q w else [])"
| "bytes_for q ev w = []"

fun stream_for ::
  "ptr \<Rightarrow> application \<Rightarrow> 'j json_lib \<Rightarrow> (ptr \<Rightarrow> connect_env) \<Rightarrow> event list \<Rightarrow> nsq_world \<Rightarrow> byte list" where
  "stream_for q app lib net [] w = []"
| "stream_for q app lib net (ev # evs) w =
     (if enabled ev w then
        bytes_for q ev w @
        (case handle app lib net ev w of Inl e \<Rightarrow> [] | Inr w' \<Rightarrow> stream_for q app lib net evs w')
      else stream_for q app lib net evs w)"

lemma bytes_for_own: "socket_event q ev \<Longrightarrow> bytes_for q ev w = event_bytes ev w"
  by (cases ev) simp_all

lemma bytes_for_other: "socket_event q ev \<Longrightarrow> y \<noteq> q \<Longrightarrow> bytes_for y ev w = []"
  by (cases ev) simp_all

definition apart :: "(ptr \<times> ptr) set \<Rightarrow> bool" where
  "apart K \<longleftrightarrow> (\<forall>(q, p) \<in> K. \<forall>(y, x) \<in> K. q = y \<longleftrightarrow> p = x)"

definition serves :: "(ptr \<times> ptr) set \<Rightarrow> (ptr \<Rightarrow> byte list) \<Rightarrow> nsq_world \<Rightarrow> bool" where
  "serves K U w \<longleftrightarrow> (\<forall>(q, p) \<in> K. reader_owns p w \<and> unconsumed q p w (U q) \<or> dead q w)"

definition handled :: "(ptr \<times> ptr) set \<Rightarrow> (ptr \<Rightarrow> byte list) \<Rightarrow> (ptr \<Rightarrow> byte list) \<Rightarrow> nsq_world \<Rightarrow> nsq_world \<Rightarrow> bool" where
  "handled K U S w w' \<longleftrightarrow> (\<forall>(q, p) \<in> K. \<exists>fs u'.
     delivered p (calls w') = delivered p (calls w) @ concat (map (frame_messages seen_message) fs)
     \<and> (\<forall>f \<in> set fs. length f < 2 ^ 32) \<and> U q @ S q = concat (map frame_bytes fs) @ u'
     \<and> (unconsumed q p w' u' \<or> dead q w'))"

lemma interleaved_step:
  assumes K: "apart K" "(q, p) \<in> K" and app: "app_acks app q p" "app_stays app q p"
    and st: "serves K U w" and ev: "socket_event q ev" "enabled ev w"
    and ok: "\<forall>f r. next_frame (U q) = Some (f, r) \<longrightarrow> frame_ok f"
  shows "\<exists>w1 fs u1. handle app lib net ev w = Inr w1 \<and> serves K (U(q := u1)) w1
    \<and> delivered p (calls w1) = delivered p (calls w) @ concat (map (frame_messages seen_message) fs)
    \<and> (\<forall>f \<in> set fs. length f < 2 ^ 32) \<and> U q @ event_bytes ev w = concat (map frame_bytes fs) @ u1
    \<and> (\<forall>(y, x) \<in> K. y \<noteq> q \<longrightarrow> delivered x (calls w1) = delivered x (calls w))"
proof -
  have "\<not> dead q w" using dead_disabled [OF _ ev(1)] ev(2) by blast
  then have own: "reader_owns p w" and u: "unconsumed q p w (U q)" using st K(2) by (auto simp: serves_def)
  obtain w1 fs u1 where w1: "handle app lib net ev w = Inr w1"
      "delivered p (calls w1) = delivered p (calls w) @ concat (map (frame_messages seen_message) fs)"
      "\<forall>f \<in> set fs. length f < 2 ^ 32" "U q @ event_bytes ev w = concat (map frame_bytes fs) @ u1"
      "reader_owns p w1 \<and> unconsumed q p w1 u1 \<or> dead q w1"
    using reader_frames.event_step [OF reader_frames.intro [OF app(1)] own u ev ok] by blast
  have "p \<noteq> 0" using own by (simp add: reader_owns_def)
  then have e: "elsewhere q p w w1"
    using staysD [OF stays_handle [OF app(2) _ ev(1)] unconsumed_bound [OF u] w1(1)] by simp
  have others: "x \<noteq> p" if "(y, x) \<in> K" "y \<noteq> q" for y x using K that by (auto simp: apart_def)
  have "reader_owns x w1 \<and> unconsumed y x w1 ((U(q := u1)) y) \<or> dead y w1" if yx: "(y, x) \<in> K" for y x
  proof (cases "y = q")
    case True
    then have "x = p" using K yx by (auto simp: apart_def)
    then show ?thesis using True w1(5) by simp
  next
    case False
    have "reader_owns x w \<and> unconsumed y x w (U y) \<or> dead y w" using st yx by (auto simp: serves_def)
    then show ?thesis
      using False elsewhere_owns [OF e others [OF yx False]] elsewhere_unconsumed [OF e False others [OF yx False]]
        elsewhere_dead [OF e False] by auto
  qed
  then have "serves K (U(q := u1)) w1" by (auto simp: serves_def)
  then show ?thesis using w1 elsewhere_delivered [OF e] others by blast
qed

lemma interleaved_run:
  assumes "apart K" and "\<forall>(q, p) \<in> K. app_acks app q p \<and> app_stays app q p" and "serves K U w"
    and "list_all (\<lambda>ev. \<exists>(q, p) \<in> K. socket_event q ev) evs"
    and "\<forall>(q, p) \<in> K. \<forall>f \<in> set (fst (split_frames (U q @ stream_for q app lib net evs w))). frame_ok f"
  shows "\<exists>w'. event_run app lib net evs w = Inr w' \<and> handled K U (\<lambda>q. stream_for q app lib net evs w) w w'"
  using assms(3-)
proof (induction evs arbitrary: w U)
  case Nil
  have "\<exists>fs u'. delivered p (calls w) = delivered p (calls w) @ concat (map (frame_messages seen_message) fs)
      \<and> (\<forall>f \<in> set fs. length f < 2 ^ 32) \<and> U q @ [] = concat (map frame_bytes fs) @ u'
      \<and> (unconsumed q p w u' \<or> dead q w)" if "(q, p) \<in> K" for q p
    using Nil(1) that by (intro exI [of _ "[]"] exI [of _ "U q"]) (auto simp: serves_def)
  then show ?case by (auto simp: handled_def)
next
  case (Cons ev evs)
  show ?case
  proof (cases "enabled ev w")
    case False
    then show ?thesis using Cons by simp
  next
    case True
    let ?S = "\<lambda>w y. stream_for y app lib net evs w"
    obtain q p where q: "(q, p) \<in> K" "socket_event q ev" using Cons.prems(2) by auto
    have ok: "\<forall>f r. next_frame (U q) = Some (f, r) \<longrightarrow> frame_ok f"
      using Cons.prems(3) q(1) next_frame_in by fast
    have app: "app_acks app q p" "app_stays app q p" using assms(2) q(1) by auto
    obtain w1 fs u1 where w1: "handle app lib net ev w = Inr w1" "serves K (U(q := u1)) w1"
        "delivered p (calls w1) = delivered p (calls w) @ concat (map (frame_messages seen_message) fs)"
        "\<forall>f \<in> set fs. length f < 2 ^ 32" "U q @ event_bytes ev w = concat (map frame_bytes fs) @ u1"
        "\<forall>(y, x) \<in> K. y \<noteq> q \<longrightarrow> delivered x (calls w1) = delivered x (calls w)"
      using interleaved_step [OF assms(1) q(1) app Cons.prems(1) q(2) True ok] by blast
    have sq: "U q @ stream_for q app lib net (ev # evs) w = concat (map frame_bytes fs) @ u1 @ ?S w1 q"
      using True w1(1,5) bytes_for_own [OF q(2)] by (simp flip: append_assoc)
    have so: "stream_for y app lib net (ev # evs) w = ?S w1 y" if "y \<noteq> q" for y
      using True w1(1) bytes_for_other [OF q(2) that] by simp
    have ok1: "\<forall>(y, x) \<in> K. \<forall>f \<in> set (fst (split_frames ((U(q := u1)) y @ ?S w1 y))). frame_ok f"
    proof (clarify)
      fix y x f assume yx: "(y, x) \<in> K" and f: "f \<in> set (fst (split_frames ((U(q := u1)) y @ ?S w1 y)))"
      then have "f \<in> set (fst (split_frames (U y @ stream_for y app lib net (ev # evs) w)))"
        by (cases "y = q") (simp_all add: sq so split_frames_append [OF w1(4)] del: stream_for.simps)
      then show "frame_ok f" using Cons.prems(3) yx by fast
    qed
    have evs1: "list_all (\<lambda>ev. \<exists>(q, p) \<in> K. socket_event q ev) evs" using Cons.prems(2) by simp
    obtain w' where w': "event_run app lib net evs w1 = Inr w'" "handled K (U(q := u1)) (?S w1) w1 w'"
      using Cons.IH [OF w1(2) evs1 ok1] by blast
    have "\<exists>fs u'. delivered x (calls w') = delivered x (calls w) @ concat (map (frame_messages seen_message) fs)
        \<and> (\<forall>f \<in> set fs. length f < 2 ^ 32)
        \<and> U y @ stream_for y app lib net (ev # evs) w = concat (map frame_bytes fs) @ u'
        \<and> (unconsumed y x w' u' \<or> dead y w')" if yx: "(y, x) \<in> K" for y x
    proof -
      obtain gs u' where g: "delivered x (calls w') = delivered x (calls w1) @ concat (map (frame_messages seen_message) gs)"
          "\<forall>f \<in> set gs. length f < 2 ^ 32" "(U(q := u1)) y @ ?S w1 y = concat (map frame_bytes gs) @ u'"
          "unconsumed y x w' u' \<or> dead y w'"
        using w'(2) yx unfolding handled_def by blast
      show ?thesis
      proof (cases "y = q")
        case True
        then have "x = p" using assms(1) q(1) yx by (auto simp: apart_def)
        then show ?thesis
          using True g w1(3,4) sq by (intro exI [of _ "fs @ gs"] exI [of _ u']) (auto simp del: stream_for.simps)
      next
        case False
        then have "delivered x (calls w1) = delivered x (calls w)" using w1(6) yx by blast
        then show ?thesis
          using False g so [OF False] by (intro exI [of _ gs] exI [of _ u']) (auto simp del: stream_for.simps)
      qed
    qed
    then have "handled K U (\<lambda>q. stream_for q app lib net (ev # evs) w) w w'" by (auto simp: handled_def)
    then show ?thesis using True w1(1) w'(1) by auto
  qed
qed

text \<open>
  Property C1: any number of connections at once. On every interleaving of the events of
  connections that are connected and have received nothing yet, no handler faults, and each
  connection delivers exactly the messages of its own byte stream, each once and in order; all
  of them whenever it is open and its read timer is idle. What happens on the others, a lost
  connection included, makes no difference to it.
\<close>

theorem interleaved_delivery:
  assumes "apart K" and "\<forall>(q, p) \<in> K. app_acks app q p \<and> app_stays app q p"
    and "\<forall>(q, p) \<in> K. reader_owns p w \<and> unconsumed q p w []"
    and "list_all (\<lambda>ev. \<exists>(q, p) \<in> K. socket_event q ev) evs"
    and "\<forall>(q, p) \<in> K. list_all frame_ok (fst (split_frames (stream_for q app lib net evs w)))"
  shows "\<exists>w'. event_run app lib net evs w = Inr w' \<and> (\<forall>(q, p) \<in> K. \<exists>k.
    delivered p (calls w') = delivered p (calls w) @ concat (map (frame_messages seen_message)
      (take k (fst (split_frames (stream_for q app lib net evs w)))))
    \<and> (io_active (Read_io q) (calls w') \<and> \<not> timer_active (Read_bytes_timer q) (calls w')
       \<longrightarrow> k = length (fst (split_frames (stream_for q app lib net evs w)))))"
proof -
  let ?S = "\<lambda>q. stream_for q app lib net evs w"
  have "serves K (\<lambda>_. []) w" using assms(3) by (auto simp: serves_def)
  then obtain w' where w': "event_run app lib net evs w = Inr w'" "handled K (\<lambda>_. []) ?S w w'"
    using interleaved_run [OF assms(1,2) _ assms(4), of "\<lambda>_. []" w lib net] assms(5) by (auto simp: list_all_iff)
  have "\<exists>k. delivered p (calls w') = delivered p (calls w) @ concat (map (frame_messages seen_message)
      (take k (fst (split_frames (?S q)))))
    \<and> (io_active (Read_io q) (calls w') \<and> \<not> timer_active (Read_bytes_timer q) (calls w')
       \<longrightarrow> k = length (fst (split_frames (?S q))))" if qp: "(q, p) \<in> K" for q p
  proof -
    obtain fs u' where fs: "delivered p (calls w') = delivered p (calls w) @ concat (map (frame_messages seen_message) fs)"
        "\<forall>f \<in> set fs. length f < 2 ^ 32" "?S q = concat (map frame_bytes fs) @ u'" "unconsumed q p w' u' \<or> dead q w'"
      using w'(2) qp unfolding handled_def by force
    have frames: "fst (split_frames (?S q)) = fs @ fst (split_frames u')"
      using split_frames_append [OF fs(2), of u'] by (simp add: fs(3))
    have "split_frames u' = ([], u')"
      if "io_active (Read_io q) (calls w')" "\<not> timer_active (Read_bytes_timer q) (calls w')"
      using fs(4) that idle_no_frame [of q p w' u'] split_frames_none by (auto simp: dead_def)
    then show ?thesis using fs(1) frames by (intro exI [of _ "length fs"]) auto
  qed
  then show ?thesis using w'(1) by auto
qed


text \<open>Two connections, each waiting for its first frame.\<close>

definition demo_waiting :: "int \<Rightarrow> ptr \<Rightarrow> nsqd_fn BufferedSocket" where
  "demo_waiting f p = (new_sock default_cfg (\<lambda>_. 0) [49] 4150 p)
     \<lparr>fd := f, state := BS_CONNECTED, read_ev := Some f, write_ev := Some f, read_bytes_n := 4,
      read_bytes_callback := Some Nsqd_read_size, read_bytes_arg := p\<rparr>"

definition demo_pair :: nsq_world where
  "demo_pair = demo_world\<lparr>
     socks := [2 \<mapsto> demo_waiting 7 1, 4 \<mapsto> demo_waiting 8 3],
     conns := [1 \<mapsto> (new_conn default_cfg (\<lambda>_. 0) [49] 4150 2)\<lparr>reconnect_timer := Timer_allocated, conn_next := 3\<rparr>,
               3 \<mapsto> (new_conn default_cfg (\<lambda>_. 0) [49] 4150 4)\<lparr>reconnect_timer := Timer_allocated\<rparr>],
     rdr := Some (demo_reader\<lparr>conns_head := 1\<rparr>),
     calls := [Ev_io_start (Read_io 4) 8, Ev_io_start (Read_io 2) 7]\<rparr>"

lemma demo_pair_serves:
  "\<forall>(q, p) \<in> {(2, 1), (4, 3)}. reader_owns p demo_pair \<and> unconsumed q p demo_pair []"
proof -
  have "ll_rep conn_next (conns demo_pair) 1 [1, 3]"
    by (simp add: ll_rep_def demo_pair_def new_conn_def)
  then have "reader_owns 1 demo_pair \<and> reader_owns 3 demo_pair"
    by (auto simp: reader_owns_def demo_pair_def demo_reader_def int_range_def new_conn_def intro!: exI [of _ "[1, 3]"])
  moreover have "wf_bounded (new_buffer (\<lambda>_. 0) n n)" if "0 < n" "n < 2 ^ 31" for n
    using that by (simp add: wf_bounded_def wf_new_buffer) (simp add: new_buffer_def)
  then have "live 2 1 demo_pair \<and> live 4 3 demo_pair"
    by (simp add: demo_pair_def live_def demo_waiting_def new_sock_def new_conn_def default_cfg_def)
  then have "unconsumed 2 1 demo_pair [] \<and> unconsumed 4 3 demo_pair []"
    by (simp add: unconsumed_def reading_def) (simp add: demo_pair_def rbuf_def demo_waiting_def new_sock_def)
  ultimately show ?thesis by simp
qed

definition demo_mix :: "event list" where
  "demo_mix = [Socket_readable 2 (demo_read (frame_bytes demo_frame)), Socket_readable 4 (demo_read [0]),
     Read_bytes_due 2, Read_bytes_due 4, Read_bytes_due 2, Socket_readable 4 (demo_read [])]"

lemma taken_some: "taken (demo_read bs) q w = [] \<or> taken (demo_read bs) q w = take (read_size (demo_read bs)) bs"
  by (auto simp: taken_def demo_read_def split: option.split)

lemma stream_skip:
  assumes "\<And>w. bytes_for q ev w = []" and "\<And>w. stream_for q app lib net evs w \<in> X" and "[] \<in> X"
  shows "stream_for q app lib net (ev # evs) w \<in> X"
  using assms by (auto simp del: handle.simps enabled.simps split: sum.split)

lemma stream_take:
  assumes "\<And>w. bytes_for q ev w \<in> X" and "\<And>w. stream_for q app lib net evs w \<in> {[]}" and "[] \<in> X"
  shows "stream_for q app lib net (ev # evs) w \<in> X"
  using assms by (auto simp del: handle.simps enabled.simps split: sum.split)

lemma demo_streams:
  "stream_for 2 app lib net demo_mix w \<in> {[], frame_bytes demo_frame}"
  "stream_for 4 app lib net demo_mix w \<in> {[], [0]}"
proof -
  have "read_size (demo_read bs) = length bs" if "length bs \<le> 4096" for bs
    using that by (simp add: demo_read_def read_size_def)
  then have t: "taken (demo_read (frame_bytes demo_frame)) q w \<in> {[], frame_bytes demo_frame}"
    "taken (demo_read [0]) q w \<in> {[], [0]}" "taken (demo_read []) q w = []" for q w
    using taken_some [of "frame_bytes demo_frame" q w] taken_some [of "[0]" q w] taken_some [of "[]" q w]
      demo_frame_ok(3) by auto
  show "stream_for 2 app lib net demo_mix w \<in> {[], frame_bytes demo_frame}"
    unfolding demo_mix_def
  proof (rule stream_take)
    show "bytes_for 2 (Socket_readable 2 (demo_read (frame_bytes demo_frame))) w \<in> {[], frame_bytes demo_frame}" for w
      using t(1) [of 2 w] by simp
  qed ((intro stream_skip)?, simp_all)
  show "stream_for 4 app lib net demo_mix w \<in> {[], [0]}"
    unfolding demo_mix_def
  proof (rule stream_skip, simp, rule stream_take)
    show "bytes_for 4 (Socket_readable 4 (demo_read [0])) w \<in> {[], [0]}" for w
      using t(2) [of 4 w] by simp
  qed ((intro stream_skip)?, simp_all add: t(3))
qed

theorem interleaved_delivery_witness:
  "\<exists>w'. event_run test_app demo_lib demo_net demo_mix demo_pair = Inr w' \<and> (\<forall>p \<in> {1, 3}. \<exists>k.
    delivered p (calls w') = concat (map (frame_messages seen_message) (take k [demo_frame])))"
proof -
  let ?K = "{(2, 1), (4, 3)} :: (ptr \<times> ptr) set"
  let ?S = "\<lambda>q. stream_for q test_app demo_lib demo_net demo_mix demo_pair"
  have none: "split_frames [] = ([], [])" "split_frames [0] = ([], [0])"
    by (simp_all add: split_frames_none next_frame_def)
  then have fr: "fst (split_frames (?S 2)) = [] \<or> fst (split_frames (?S 2)) = [demo_frame]"
    "fst (split_frames (?S 4)) = []"
    using demo_streams [of test_app demo_lib demo_net demo_pair] demo_frame_ok(2) by auto
  have "apart ?K" "\<forall>(q, p) \<in> ?K. app_acks test_app q p \<and> app_stays test_app q p"
    by (auto simp: apart_def test_app_acks test_app_stays)
  moreover have "list_all (\<lambda>ev. \<exists>(q, p) \<in> ?K. socket_event q ev) demo_mix"
    by (simp add: demo_mix_def demo_read_def read_env_ok_def)
  moreover have "\<forall>(q, p) \<in> ?K. list_all frame_ok (fst (split_frames (?S q)))"
    using fr demo_frame_ok(1) by auto
  ultimately obtain w' where w': "event_run test_app demo_lib demo_net demo_mix demo_pair = Inr w'"
      "\<forall>(q, p) \<in> ?K. \<exists>k. delivered p (calls w') = delivered p (calls demo_pair)
        @ concat (map (frame_messages seen_message) (take k (fst (split_frames (?S q)))))"
    using interleaved_delivery [OF _ _ demo_pair_serves, of test_app demo_mix demo_lib demo_net] by blast
  have "delivered p (calls demo_pair) = []" for p by (simp add: demo_pair_def)
  then have "\<exists>k. delivered p (calls w') = concat (map (frame_messages seen_message) (take k [demo_frame]))"
    if "p \<in> {1, 3}" for p
    using w'(2) that fr by (auto intro: exI [of _ "0 :: nat"])
  then show ?thesis using w'(1) by blast
qed

end
