(* ===== verification/Steady.thy ===== *)
theory Steady
  imports Interleaving Lifecycle
begin

section \<open>What the events of a connection leave alone\<close>

text \<open>
  What a reader that never mixes dialling with lookupd keeps to (\<open>steady\<close>): without lookupd, the
  reconnect timer that runs belongs to an allocated connection that has it; with lookupd there are
  no reconnect timers at all. \<open>aside w w'\<close> says that the client of lookupd was left alone, and
  \<open>plain f\<close> that the procedure \<open>f\<close> keeps both and leaves no new single callback behind; it composes
  along \<open>block\<close>.
\<close>

definition steady :: "nsq_world \<Rightarrow> bool" where
  "steady w \<longleftrightarrow> (\<exists>r. rdr w = Some r \<and>
     (if lookupd_head r = 0
      then \<forall>x. timer_active (Reconnect_timer x) (calls w) \<longrightarrow>
             (\<exists>c. conns w x = Some c \<and> reconnect_timer c = Timer_allocated)
      else \<forall>x. \<not> timer_active (Reconnect_timer x) (calls w)
             \<and> (\<forall>c. conns w x = Some c \<longrightarrow> reconnect_timer c = Timer_null)))"

lemma steadyE:
  assumes "steady w"
  obtains r where "rdr w = Some r"
    and "lookupd_head r = 0 \<longrightarrow> (\<forall>x. timer_active (Reconnect_timer x) (calls w) \<longrightarrow>
      (\<exists>c. conns w x = Some c \<and> reconnect_timer c = Timer_allocated))"
    and "lookupd_head r \<noteq> 0 \<longrightarrow> (\<forall>x. \<not> timer_active (Reconnect_timer x) (calls w))
      \<and> (\<forall>x c. conns w x = Some c \<longrightarrow> reconnect_timer c = Timer_null)"
proof -
  obtain r where "rdr w = Some r" and "if lookupd_head r = 0
      then \<forall>x. timer_active (Reconnect_timer x) (calls w) \<longrightarrow>
             (\<exists>c. conns w x = Some c \<and> reconnect_timer c = Timer_allocated)
      else \<forall>x. \<not> timer_active (Reconnect_timer x) (calls w)
             \<and> (\<forall>c. conns w x = Some c \<longrightarrow> reconnect_timer c = Timer_null)"
    using assms unfolding steady_def by blast
  then show ?thesis by (intro that [of r]) simp_all
qed

text \<open>The reader but for its list of connections.\<close>

definition rdr_core :: "nsq_world \<Rightarrow> NSQReader option" where
  "rdr_core w = map_option (conns_head_update (\<lambda>_. 0)) (rdr w)"

text \<open>What of the history concerns the client of lookupd.\<close>

definition same_web :: "ext_call list \<Rightarrow> ext_call list \<Rightarrow> bool" where
  "same_web l l' \<longleftrightarrow> timer_active Lookupd_poll_timer l' = timer_active Lookupd_poll_timer l
     \<and> timer_active Http_timer l' = timer_active Http_timer l
     \<and> (\<forall>s. io_on (Http_io s) l' = io_on (Http_io s) l)
     \<and> (\<forall>r. handle_added r l' = handle_added r l)"

definition aside :: "nsq_world \<Rightarrow> nsq_world \<Rightarrow> bool" where
  "aside w w' \<longleftrightarrow> rdr_core w' = rdr_core w \<and> endpoints w' = endpoints w \<and> reqs w' = reqs w
     \<and> resps w' = resps w \<and> http_socks w' = http_socks w \<and> brk w \<le> brk w' \<and> same_web (calls w) (calls w')"

definition calm :: "nsq_world \<Rightarrow> nsq_world \<Rightarrow> bool" where
  "calm w w' \<longleftrightarrow> steady w' \<and> aside w w' \<and> (\<forall>x. once_pending x (calls w') \<longrightarrow> once_pending x (calls w))"

definition plain :: "nsq_proc \<Rightarrow> bool" where
  "plain f \<longleftrightarrow> (\<forall>w w'. steady w \<longrightarrow> f w = Inr w' \<longrightarrow> calm w w')"

named_theorems plain_rules \<open>procedures that keep to a connection\<close>

lemma same_web_refl [simp]: "same_web l l"
  by (simp add: same_web_def)

lemma same_web_trans: "same_web l l1 \<Longrightarrow> same_web l1 l2 \<Longrightarrow> same_web l l2"
  by (simp add: same_web_def)

lemma aside_refl: "aside w w"
  by (simp add: aside_def)

lemma aside_trans: "aside w w1 \<Longrightarrow> aside w1 w2 \<Longrightarrow> aside w w2"
  by (auto simp: aside_def intro: same_web_trans)

lemma calm_refl: "steady w \<Longrightarrow> calm w w"
  by (simp add: calm_def aside_refl)

lemma calm_trans: "calm w w1 \<Longrightarrow> calm w1 w2 \<Longrightarrow> calm w w2"
  by (auto simp: calm_def intro: aside_trans)

lemma calm_steady: "calm w w' \<Longrightarrow> steady w'"
  by (simp add: calm_def)

lemma plainI: "(\<And>w w'. steady w \<Longrightarrow> f w = Inr w' \<Longrightarrow> calm w w') \<Longrightarrow> plain f"
  by (simp add: plain_def)

lemma plainD: "plain f \<Longrightarrow> steady w \<Longrightarrow> f w = Inr w' \<Longrightarrow> calm w w'"
  unfolding plain_def by blast

lemma rdr_core_head:
  assumes "rdr_core w' = rdr_core w" and "rdr w = Some r"
  obtains h where "rdr w' = Some (r\<lparr>conns_head := h\<rparr>)"
proof -
  obtain r' where r': "rdr w' = Some r'" "r'\<lparr>conns_head := 0\<rparr> = r\<lparr>conns_head := 0\<rparr>"
    using assms by (auto simp: rdr_core_def)
  then have "r' = r\<lparr>conns_head := conns_head r'\<rparr>" by (cases r; cases r') simp
  then show ?thesis using r'(1) that by metis
qed

lemma steady_later:
  assumes "steady w" and "rdr_core w' = rdr_core w"
    and t: "\<And>x. map_option reconnect_timer (conns w' x) = map_option reconnect_timer (conns w x)"
      "\<And>x. timer_active (Reconnect_timer x) (calls w') \<Longrightarrow> timer_active (Reconnect_timer x) (calls w)"
  shows "steady w'"
proof -
  obtain r where r: "rdr w = Some r"
    and st: "lookupd_head r = 0 \<longrightarrow> (\<forall>x. timer_active (Reconnect_timer x) (calls w) \<longrightarrow>
        (\<exists>c. conns w x = Some c \<and> reconnect_timer c = Timer_allocated))"
      "lookupd_head r \<noteq> 0 \<longrightarrow> (\<forall>x. \<not> timer_active (Reconnect_timer x) (calls w))
        \<and> (\<forall>x c. conns w x = Some c \<longrightarrow> reconnect_timer c = Timer_null)"
    using assms(1) by (rule steadyE)
  obtain h where r': "rdr w' = Some (r\<lparr>conns_head := h\<rparr>)" using assms(2) r by (rule rdr_core_head)
  show ?thesis
  proof (cases "lookupd_head r = 0")
    case True
    have "\<exists>c. conns w' x = Some c \<and> reconnect_timer c = Timer_allocated"
      if "timer_active (Reconnect_timer x) (calls w')" for x
      using st(1) True t(2) [OF that] t(1) [of x] by (metis map_option_eq_Some)
    then show ?thesis using r' True by (simp add: steady_def)
  next
    case False
    have "reconnect_timer c = Timer_null" if "conns w' x = Some c" for x c
      using st(2) False t(1) [of x] that by (metis map_option_eq_Some)
    then show ?thesis using r' False st(2) t(2) by (auto simp: steady_def)
  qed
qed

lemma calm_later:
  assumes "steady w" and "aside w w'"
    and "\<And>x. map_option reconnect_timer (conns w' x) = map_option reconnect_timer (conns w x)"
    and "\<And>x. timer_active (Reconnect_timer x) (calls w') \<Longrightarrow> timer_active (Reconnect_timer x) (calls w)"
    and "\<And>x. once_pending x (calls w') \<Longrightarrow> once_pending x (calls w)"
  shows "calm w w'"
  using assms steady_later [OF assms(1) _ assms(3,4)] by (simp add: calm_def aside_def)

lemma plain_Inr [plain_rules]: "plain Inr"
  by (simp add: plain_def calm_refl)

lemma plain_fail [plain_rules]: "plain (\<lambda>_. Inl e)"
  by (simp add: plain_def)

lemma plain_seq:
  assumes "plain f" and "plain g" shows "plain (\<lambda>w. bind_res (f w) g)"
proof (rule plainI)
  fix w w' assume w: "steady w" "bind_res (f w) g = Inr w'"
  then obtain w1 where w1: "f w = Inr w1" "g w1 = Inr w'" by (auto simp: bind_res_Inr_iff)
  from plainD [OF assms(1) w(1) w1(1)] plainD [OF assms(2) _ w1(2)]
  show "calm w w'" using calm_steady calm_trans by blast
qed

lemma plain_block: "list_all plain fs \<Longrightarrow> plain (block fs)"
proof (induction fs)
  case Nil
  then show ?case by (simp add: block_Nil plain_Inr)
next
  case (Cons f fs)
  have "plain (\<lambda>w. bind_res (f w) (block fs))" using Cons by (intro plain_seq) simp_all
  then show ?case by (simp add: plain_def)
qed

lemma plain_if: "(c \<Longrightarrow> plain f) \<Longrightarrow> (\<not> c \<Longrightarrow> plain g) \<Longrightarrow> plain (if c then f else g)"
  by simp

lemma plain_if_app: "(c \<Longrightarrow> plain f) \<Longrightarrow> (\<not> c \<Longrightarrow> plain g) \<Longrightarrow> plain (\<lambda>w. if c then f w else g w)"
  by (cases c) simp_all

lemma plain_bind: "(\<And>w x. m w = Inr x \<Longrightarrow> plain (f x)) \<Longrightarrow> plain (\<lambda>w. bind_res (m w) (\<lambda>x. f x w))"
  unfolding plain_def by (auto simp: bind_res_Inr_iff)

lemma plain_on_sock: "(\<And>b. plain (f b)) \<Longrightarrow> plain (on_sock q f)"
  unfolding plain_def by (auto simp: on_sock_def split: option.splits)

lemma plain_on_conn: "(\<And>c. plain (f c)) \<Longrightarrow> plain (on_conn p f)"
  unfolding plain_def by (auto simp: on_conn_def split: option.splits)

lemma plain_on_rdr: "(\<And>r. plain (f r)) \<Longrightarrow> plain (on_rdr f)"
  unfolding plain_def by (auto simp: on_rdr_def split: option.splits)

text \<open>An entry of the history that starts none of the timers and is none of the HTTP client's.\<close>

definition harmless :: "ext_call \<Rightarrow> bool" where
  "harmless c \<longleftrightarrow> (\<forall>l. (\<forall>x. timer_active (Reconnect_timer x) (c # l) \<longrightarrow> timer_active (Reconnect_timer x) l)
     \<and> same_web l (c # l) \<and> (\<forall>x. once_pending x (c # l) \<longrightarrow> once_pending x l))"

lemma harmlessD:
  assumes "harmless c"
  shows "timer_active (Reconnect_timer x) (c # l) \<Longrightarrow> timer_active (Reconnect_timer x) l"
    and "same_web l (c # l)" and "once_pending x (c # l) \<Longrightarrow> once_pending x l"
  using assms unfolding harmless_def by blast+

lemma harmless_simps [simp]:
  "harmless (Ev_io_start (Read_io q) f)" "harmless (Ev_io_start (Write_io q) f)"
  "harmless (Ev_io_stop (Read_io q))" "harmless (Ev_io_stop (Write_io q))"
  "harmless (Ev_timer_stop (Read_bytes_timer q))" "harmless (Ev_timer_stop (Reconnect_timer p))"
  "harmless (Timer_expired (Read_bytes_timer q))"
  "harmless (Ev_timer_start (Read_bytes_timer q))" "harmless (Once_fired q)" "harmless (Sys_close f)"
  "harmless (User_connect p)" "harmless (User_close p)" "harmless (User_msg p m)"
  by (simp_all add: harmless_def same_web_def)

lemma plain_emit [plain_rules]: "harmless c \<Longrightarrow> plain (emit c)"
  by (rule plainI, rule calm_later)
    (auto simp: emit_def aside_def rdr_core_def harmlessD simp del: timer_active.simps once_pending.simps dest: harmlessD)

lemma plain_set_errno [plain_rules]: "plain (set_errno e)"
  by (rule plainI, rule calm_later) (auto simp: set_errno_def aside_def rdr_core_def)

lemma plain_upd_sock [plain_rules]: "plain (upd_sock q f)"
  by (rule plainI, rule calm_later) (auto simp: upd_sock_def on_sock_def aside_def rdr_core_def split: option.splits)

lemma plain_upd_conn:
  assumes "\<And>c. reconnect_timer (f c) = reconnect_timer c" shows "plain (upd_conn p f)"
  by (rule plainI, rule calm_later)
    (auto simp: assms upd_conn_def on_conn_def aside_def rdr_core_def split: option.splits)

subsection \<open>The procedures\<close>

lemma plain_ev_io [plain_rules]:
  "plain (ev_io_start_read q)" "plain (ev_io_start_write q)" "plain (ev_io_stop_read q)" "plain (ev_io_stop_write q)"
  by (auto simp: ev_io_start_read_def ev_io_start_write_def ev_io_stop_read_def ev_io_stop_write_def
      intro!: plain_on_sock plain_rules split: option.split)

definition plain_ret :: "(nsq_world \<Rightarrow> fault + 'r \<times> nsq_world) \<Rightarrow> bool" where
  "plain_ret f \<longleftrightarrow> plain (\<lambda>w. bind_res (f w) (\<lambda>(x, w'). Inr w'))"

lemma plain_write: "plain_ret (buffered_socket_write src len q)"
  unfolding plain_ret_def
proof (rule plainI)
  fix w w' assume d: "steady w" and run: "bind_res (buffered_socket_write src len q w) (\<lambda>(x, w'). Inr w') = Inr w'"
  then obtain n where n: "buffered_socket_write src len q w = Inr (n, w')" by (auto simp: bind_res_Inr_iff)
  obtain b where b: "socks w q = Some b"
    using n by (cases "socks w q") (simp_all add: buffered_socket_write_def on_sock_def)
  show "calm w w'"
  proof (cases "state b = BS_CONNECTED")
    case True
    then obtain wb where "block [upd_sock q (write_buf_update (\<lambda>_. wb)), ev_io_start_write q] w = Inr w'"
      using n b by (auto simp: buffered_socket_write_def on_sock_def bind_res_Inr_iff)
    moreover have "plain (block [upd_sock q (write_buf_update (\<lambda>_. wb)), ev_io_start_write q])"
      by (intro plain_block) (simp add: plain_rules)
    ultimately show ?thesis using d by (intro plainD)
  next
    case False
    then have "w' = w" using n b by (simp add: buffered_socket_write_def on_sock_def)
    then show ?thesis using d by (simp add: calm_refl)
  qed
qed

lemma plain_sock_write [plain_rules]: "plain (sock_write src len q)"
  using plain_write [of src len q] by (simp add: plain_ret_def sock_write_def [abs_def])

lemma plain_reset [plain_rules]: "plain (reset_command_buf p)"
  unfolding reset_command_buf_def by (rule plain_upd_conn) simp

lemma plain_write_command [plain_rules]: "plain (write_command f p)"
  unfolding write_command_def by (intro plain_on_conn plain_bind plain_upd_conn) simp

lemma plain_flush [plain_rules]: "plain (flush_command_buf p)"
proof (rule plainI)
  fix w w' assume d: "steady w" and run: "flush_command_buf p w = Inr w'"
  obtain c where c: "conns w p = Some c"
    using run by (cases "conns w p") (simp_all add: flush_command_buf_def on_conn_def)
  obtain n cb w1 where w1: "buffered_socket_write_buffer (command_buf c) (conn_bs c) w = Inr (n, cb, w1)"
      "upd_conn p (command_buf_update (\<lambda>_. cb)) w1 = Inr w'"
    using run c by (auto simp: flush_command_buf_def on_conn_def bind_res_Inr_iff)
  have "calm w w1"
  proof (cases "0 < BUFFER_HAS_DATA (command_buf c)")
    case True
    let ?f = "buffered_socket_write (drop (data (command_buf c)) (orig (command_buf c)))
        (BUFFER_HAS_DATA (command_buf c)) (conn_bs c)"
    have "bind_res (?f w) (\<lambda>(x, w'). Inr w') = Inr w1"
      using w1(1) True by (auto simp: buffered_socket_write_buffer_def Let_def bind_res_Inr_iff)
    then show ?thesis using plainD [OF plain_write [unfolded plain_ret_def] d] by blast
  next
    case False
    then show ?thesis using w1(1) d by (simp add: buffered_socket_write_buffer_def calm_refl)
  qed
  moreover have "plain (upd_conn p (command_buf_update (\<lambda>_. cb)))" by (rule plain_upd_conn) simp
  ultimately show "calm w w'"
    using plainD [where f = "upd_conn p (command_buf_update (\<lambda>_. cb))", OF _ _ w1(2)]
    using calm_steady calm_trans by blast
qed

lemma plain_read_bytes [plain_rules]: "plain (buffered_socket_read_bytes n k arg q)"
  unfolding buffered_socket_read_bytes_def by (intro plain_on_sock plain_block) (simp add: plain_rules)

lemma plain_read_size [plain_rules]: "plain (nsqd_connection_read_size q p)"
  unfolding nsqd_connection_read_size_def Let_def
  by (intro plain_on_sock plain_block) (simp add: plain_on_sock plain_on_conn plain_bind plain_upd_conn plain_rules)

text \<open>What the application may do: anything that does not reach beyond the connections.\<close>

definition app_plain :: "application \<Rightarrow> bool" where
  "app_plain app \<longleftrightarrow> (\<forall>f p. app_connect app = Some f \<longrightarrow> plain (f p))
     \<and> (\<forall>f p. app_close app = Some f \<longrightarrow> plain (f p))
     \<and> (\<forall>f p m. app_msg app = Some f \<longrightarrow> plain (f p m))"

lemma plain_user: "(\<And>f. x = Some f \<Longrightarrow> plain (f p)) \<Longrightarrow> harmless e \<Longrightarrow>
    plain (case x of None \<Rightarrow> Inr | Some f \<Rightarrow> block [emit e, f p])"
  by (cases x) (simp_all add: plain_rules plain_block del: block.simps)

lemma plain_msg_cb: "app_plain app \<Longrightarrow> plain (nsq_reader_msg_cb app p m)"
  by (cases "app_msg app")
    (simp_all add: nsq_reader_msg_cb_def app_plain_def plain_rules plain_on_rdr plain_block del: block.simps)

lemma plain_handle_frame:
  assumes app: "app_plain app" shows "plain (handle_frame (reader_cc app) q p)"
proof -
  have "plain (block [reset_command_buf p, write_command nsq_nop p, flush_command_buf p])"
    by (intro plain_block) (simp add: plain_rules)
  then show ?thesis
    unfolding handle_frame_def reader_cc_def
    by (intro plain_on_conn plain_on_sock plain_if_app plain_bind)
      (simp_all add: plain_rules plain_msg_cb [OF app] del: block.simps)
qed

lemma plain_read_data:
  assumes app: "app_plain app" shows "plain (nsqd_connection_read_data (reader_cc app) q p)"
  unfolding nsqd_connection_read_data_def
  by (intro plain_block)
    (simp add: plain_on_sock plain_on_conn plain_bind plain_upd_conn plain_rules plain_handle_frame [OF app])

lemma same_field:
  "map_option unlinked x = map_option unlinked y \<Longrightarrow> (\<And>c. f (unlinked c) = f c) \<Longrightarrow> map_option f x = map_option f y"
  by (cases x; cases y) (simp_all, metis)

lemma plain_delete_conn [plain_rules]: "plain (delete_conn p)"
proof (rule plainI)
  fix w w' assume d: "steady w" and run: "delete_conn p w = Inr w'"
  then obtain r h hp where r: "rdr w = Some r"
      and hp: "LL_DELETE conn_next set_conn_next (conns_head r) p (conns w) = Inr (h, hp)"
      and w': "w' = w\<lparr>conns := hp, rdr := Some (r\<lparr>conns_head := h\<rparr>)\<rparr>"
    by (auto simp: delete_conn_def on_rdr_def bind_res_Inr_iff split: option.splits)
  have "map_option reconnect_timer (hp x) = map_option reconnect_timer (conns w x)" for x
    using LL_DELETE_cells(1) [OF hp, of x] unlinked_simps(3) by (rule same_field)
  then show "calm w w'"
    using r by (intro calm_later [OF d]) (simp_all add: w' aside_def rdr_core_def)
qed

lemma plain_rearm: "plain (on_rdr (\<lambda>r. if lookupd_head r = 0 then ev_timer_again_reconnect p else free_nsqd_connection p))"
proof (rule plainI)
  fix w w' assume d: "steady w"
    and run: "on_rdr (\<lambda>r. if lookupd_head r = 0 then ev_timer_again_reconnect p else free_nsqd_connection p) w = Inr w'"
  obtain r where r: "rdr w = Some r"
    and lookupd: "lookupd_head r \<noteq> 0 \<longrightarrow> (\<forall>x. \<not> timer_active (Reconnect_timer x) (calls w))
      \<and> (\<forall>x c. conns w x = Some c \<longrightarrow> reconnect_timer c = Timer_null)"
    using d by (rule steadyE)
  show "calm w w'"
  proof (cases "lookupd_head r = 0")
    case True
    then obtain c where "conns w p = Some c" "reconnect_timer c = Timer_allocated"
        "w' = w\<lparr>calls := Ev_timer_again (Reconnect_timer p) # calls w\<rparr>"
      using run r by (auto simp: on_rdr_def ev_timer_again_reconnect_def on_conn_def emit_def
          split: option.splits timer_ptr.splits)
    then show ?thesis
      using d True r by (auto simp: calm_def steady_def aside_def rdr_core_def same_web_def)
  next
    case False
    have free: "free_nsqd_connection p w = Inr w'" using run r False by (simp add: on_rdr_def)
    show ?thesis
    proof (cases "p = 0")
      case True
      then show ?thesis using free d by (simp add: free_nsqd_connection_def calm_refl)
    next
      case nonnull: False
      then obtain c where c: "conns w p = Some c" "reconnect_timer c = Timer_null"
        using free lookupd False
        by (cases "conns w p") (auto simp: free_nsqd_connection_def nsqd_connection_stop_timer_def on_conn_def)
      then obtain sk where "w' = w\<lparr>socks := sk, conns := (conns w)(p := None)\<rparr>"
        using free nonnull by (auto simp: free_nsqd_connection_def nsqd_connection_stop_timer_def on_conn_def
            free_buffered_socket_def bind_res_Inr_iff split: option.splits)
      then show ?thesis using d False r by (auto simp: calm_def steady_def aside_def rdr_core_def)
    qed
  qed
qed

lemma plain_close_cb:
  assumes app: "app_plain app" shows "plain (nsqd_connection_close_cb (reader_cc app) q p)"
proof -
  have "plain (case app_close app of None \<Rightarrow> Inr | Some f \<Rightarrow> block [emit (User_close p), f p])"
    using app by (intro plain_user) (simp_all add: app_plain_def)
  then show ?thesis
    unfolding nsqd_connection_close_cb_def reader_cc_def nsq_reader_close_cb_def
    by (intro plain_on_conn) (simp add: plain_block plain_rules plain_rearm del: block.simps)
qed

lemma plain_connect_cb:
  assumes app: "app_plain app" shows "plain (nsqd_connection_connect_cb (reader_cc app) q p)"
proof -
  have "plain (case app_connect app of None \<Rightarrow> Inr | Some f \<Rightarrow> block [emit (User_connect p), f p])"
    using app by (intro plain_user) (simp_all add: app_plain_def)
  then have "plain (nsq_reader_connect_cb app p)"
    unfolding nsq_reader_connect_cb_def by (intro plain_block) (simp add: plain_rules plain_on_rdr)
  then show ?thesis
    unfolding nsqd_connection_connect_cb_def reader_cc_def
    by (intro plain_block) (simp add: plain_on_conn plain_rules)
qed

lemma plain_call:
  assumes app: "app_plain app" shows "plain (nsqd_call (reader_cc app) k q p)"
  by (cases k) (simp_all add: plain_connect_cb [OF app] plain_close_cb [OF app] plain_read_data [OF app]
      plain_read_size nsqd_connection_error_cb_def plain_Inr)

lemma plain_invoke: "app_plain app \<Longrightarrow> plain (invoke (nsqd_call (reader_cc app)) sel q)"
  unfolding invoke_def
  by (intro plain_on_sock) (simp add: plain_rules plain_call split: option.split)

lemma plain_close: "app_plain app \<Longrightarrow> plain (buffered_socket_close (nsqd_call (reader_cc app)) q)"
  unfolding buffered_socket_close_def
  by (intro plain_on_sock plain_if plain_block)
    (simp_all add: plain_rules plain_invoke plain_block del: block.simps)

lemma plain_io_error: "app_plain app \<Longrightarrow> plain (io_error (nsqd_call (reader_cc app)) q)"
  unfolding io_error_def by (intro plain_block) (simp add: plain_invoke plain_close)

lemma plain_read_cb:
  assumes app: "app_plain app" shows "plain (buffered_socket_read_cb (nsqd_call (reader_cc app)) env q)"
proof -
  have "plain (block [invoke (nsqd_call (reader_cc app)) read_callback q,
      on_sock q (\<lambda>b. if read_bytes_n b \<noteq> 0 \<and> read_bytes_n b \<le> BUFFER_HAS_DATA (read_buf b)
        then emit (Ev_timer_start (Read_bytes_timer q)) else Inr)])"
    by (intro plain_block) (simp add: plain_invoke [OF app] plain_on_sock plain_rules)
  then show ?thesis
    unfolding buffered_socket_read_cb_def
    by (intro plain_on_sock plain_bind)
      (auto intro!: plain_block simp: plain_rules plain_io_error [OF app] simp del: block.simps)
qed

lemma plain_write_cb:
  assumes app: "app_plain app" shows "plain (buffered_socket_write_cb (nsqd_call (reader_cc app)) out q)"
  unfolding buffered_socket_write_cb_def
  by (intro plain_on_sock plain_bind)
    (auto intro!: plain_block simp: plain_rules plain_io_error [OF app] plain_invoke [OF app] simp del: block.simps)

lemma plain_read_bytes_cb:
  assumes app: "app_plain app" shows "plain (buffered_socket_read_bytes_cb (nsqd_call (reader_cc app)) q)"
  unfolding buffered_socket_read_bytes_cb_def
  by (intro plain_on_sock plain_block)
    (simp add: plain_rules plain_call [OF app] split: option.split)

lemma plain_done_cb:
  assumes app: "app_plain app" shows "plain (buffered_socket_connect_cb (nsqd_call (reader_cc app)) env q)"
  unfolding buffered_socket_connect_cb_def
  by (intro plain_on_sock plain_if plain_block)
    (simp_all add: plain_rules plain_close [OF app] plain_invoke [OF app] plain_block del: block.simps)

text \<open>The events that concern a single connection.\<close>

fun on_socket :: "ptr \<Rightarrow> event \<Rightarrow> bool" where
  "on_socket q (Socket_readable r env) \<longleftrightarrow> r = q"
| "on_socket q (Socket_writable r out) \<longleftrightarrow> r = q"
| "on_socket q (Read_bytes_due r) \<longleftrightarrow> r = q"
| "on_socket q (Connect_done r env) \<longleftrightarrow> r = q"
| "on_socket q ev \<longleftrightarrow> False"

lemma plain_handle:
  assumes app: "app_plain app" and ev: "on_socket q ev"
  shows "plain (handle app lib net ev)"
proof (cases ev)
  case (Read_bytes_due r)
  have "plain (block [emit (Timer_expired (Read_bytes_timer r)),
      buffered_socket_read_bytes_cb (nsqd_call (reader_cc app)) r])"
    by (intro plain_block) (simp add: plain_rules plain_read_bytes_cb [OF app])
  then show ?thesis by (simp add: Read_bytes_due plain_def del: block.simps)
next
  case (Connect_done r env)
  have "plain (block [emit (Once_fired r), buffered_socket_connect_cb (nsqd_call (reader_cc app)) env r])"
    by (intro plain_block) (simp add: plain_rules plain_done_cb [OF app])
  then show ?thesis by (simp add: Connect_done plain_def del: block.simps)
next
  case (Socket_readable r env)
  then show ?thesis using plain_read_cb [OF app, of env r] by (simp add: plain_def)
next
  case (Socket_writable r out)
  then show ?thesis using plain_write_cb [OF app, of out r] by (simp add: plain_def)
qed (use ev in simp_all)

lemma message_handler_plain: "plain (message_handler p m)"
  unfolding message_handler_def by (intro plain_block) (simp add: plain_rules plain_on_rdr)

lemma test_app_plain: "app_plain test_app"
  by (simp add: app_plain_def test_app_def message_handler_plain)

end
