(* ===== verification/Steady_Run.thy ===== *)
theory Steady_Run
  imports Steady
begin

section \<open>Events of the connections\<close>

text \<open>
  The states that the connections of a reader can be in (\<open>steady_ok\<close>): each socket is set up and
  waits for a frame, or waits for its connect, or nothing will be heard of it again; and that
  every event of a connection, and dialling another one, ends in such a state.
\<close>

subsection \<open>The handshake, whatever the room in the buffers\<close>

definition greets :: "application \<Rightarrow> bool" where
  "greets app \<longleftrightarrow> (\<forall>f q p. app_connect app = Some f \<longrightarrow> owned_silent q p (f p))"

definition silent_for :: "NSQReader \<Rightarrow> ptr \<Rightarrow> ptr \<Rightarrow> nsq_proc \<Rightarrow> bool" where
  "silent_for r q p f \<longleftrightarrow> (\<forall>w. reader_owns p w \<longrightarrow> live q p w \<longrightarrow> rdr w = Some r \<longrightarrow>
     (\<exists>w'. f w = Inr w' \<and> quiet q p [] w w'))"

lemma silent_for_owned: "owned_silent q p f \<Longrightarrow> silent_for r q p f"
  by (simp add: owned_silent_def silent_for_def)

lemma silent_for_block: "list_all (silent_for r q p) fs \<Longrightarrow> silent_for r q p (block fs)"
proof (induction fs)
  case Nil
  then show ?case by (simp add: block_Nil silent_Inr silent_owned silent_for_owned)
next
  case (Cons f fs)
  show ?case
    unfolding silent_for_def
  proof (intro allI impI)
    fix w assume own: "reader_owns p w" and l: "live q p w" and r: "rdr w = Some r"
    then obtain w1 where w1: "f w = Inr w1" "quiet q p [] w w1"
      using Cons.prems by (auto simp: silent_for_def)
    then have "live q p w1" "reader_owns p w1" "rdr w1 = Some r"
      using reader_owns_kept [OF own] r by (simp_all add: quiet_def others_kept_def)
    then obtain w2 where "block fs w1 = Inr w2" "quiet q p [] w1 w2"
      using Cons by (auto simp: silent_for_def)
    then show "\<exists>w'. block (f # fs) w = Inr w' \<and> quiet q p [] w w'"
      using w1 quiet_trans [of q p "[]" w w1 "[]" w2] by auto
  qed
qed

lemma silent_for_subscribe:
  assumes "length (topic r) < 2 ^ 29" "length (channel r) < 2 ^ 29"
  shows "silent_for r q p (on_rdr (\<lambda>r. write_command (\<lambda>j. nsq_subscribe j (topic r) (channel r)) p))"
proof -
  have "silent q p (write_command (\<lambda>j. nsq_subscribe j (topic r) (channel r)) p)"
    using SUB_small [OF assms] by (intro silent_write_command [where cmd = "SUB (topic r) (channel r)"]) simp_all
  then show ?thesis by (simp add: silent_for_def silent_def on_rdr_def)
qed

lemma silent_user_connect:
  assumes "greets app"
  shows "owned_silent q p (case app_connect app of None \<Rightarrow> Inr | Some f \<Rightarrow> block [emit (User_connect p), f p])"
proof (cases "app_connect app")
  case None
  then show ?thesis by (simp add: silent_Inr silent_owned)
next
  case (Some f)
  have "owned_silent q p (emit (User_connect p))" by (intro silent_owned silent_emit) simp_all
  moreover have "owned_silent q p (f p)" using assms Some by (simp add: greets_def)
  ultimately show ?thesis using Some by (simp add: owned_silent_block del: block.simps)
qed

lemma silent_for_connect:
  assumes "greets app" and "length (topic r) < 2 ^ 29" "length (channel r) < 2 ^ 29"
  shows "silent_for r q p (nsq_reader_connect_cb app p)"
  unfolding nsq_reader_connect_cb_def
  by (intro silent_for_block)
    (simp add: silent_for_owned silent_user_connect [OF assms(1)] silent_for_subscribe [OF assms(2,3)]
      silent_reset_command_buf silent_flush silent_owned owned_silent_rdy)

lemma connect_done_returns:
  assumes own: "reader_owns p w" and d: "dialled q p w" and env: "connect_ok env" and r: "rdr w = Some r"
    and sizes: "length (topic r) < 2 ^ 29" "length (channel r) < 2 ^ 29" and app: "greets app"
  shows "\<exists>w'. handle app lib net (Connect_done q env) w = Inr w' \<and> reader_owns p w' \<and> unconsumed q p w' []"
proof -
  obtain b c where b: "socks w q = Some b" "cbarg b = p" "state b = BS_CONNECTING" "contents (read_buf b) = []"
      "connect_callback b = Some Nsqd_connect_cb" and c: "conns w p = Some c" "conn_bs c = q"
    using d by (auto simp: dialled_def)
  let ?w1 = "connected_world q b (w\<lparr>calls := Once_fired q # calls w\<rparr>)"
  have l1: "live q p ?w1" using d b by (auto simp: dialled_def live_def connected_world_def)
  have o1: "reader_owns p ?w1"
    by (rule reader_owns_kept [OF own]) (simp add: others_kept_def connected_world_def)
  have idle: "\<not> timer_active (Read_bytes_timer q) (calls ?w1)"
    using d by (simp add: dialled_def connected_world_def)
  have empty: "rbuf q ?w1 = []" using b by (simp add: rbuf_def connected_world_def)
  obtain w2 where w2: "buffered_socket_write (bytes_of ''  V2'' @ replicate 6 0) 4 q ?w1 = Inr (4, w2)"
      "quiet q p [] ?w1 w2" "conns w2 = conns ?w1"
    using write_live [OF l1, of 4 "bytes_of ''  V2'' @ replicate 6 0"] by (auto simp: bytes_of_def)
  have l2: "live q p w2" and o2: "reader_owns p w2" and r2: "rdr w2 = Some r"
    using w2(2) r reader_owns_kept [OF o1] by (simp_all add: quiet_def others_kept_def connected_world_def)
  obtain w3 where w3: "nsq_reader_connect_cb app p w2 = Inr w3" "quiet q p [] w2 w3"
    using silent_for_connect [OF app sizes, of q p] o2 l2 r2 by (auto simp: silent_for_def)
  have q3: "quiet q p [] ?w1 w3" using quiet_trans [OF w2(2) w3(2)] by simp
  then have l3: "live q p w3" and o3: "reader_owns p w3" and idle3: "\<not> timer_active (Read_bytes_timer q) (calls w3)"
    using idle reader_owns_kept [OF o1] by (simp_all add: quiet_def read_side_def)
  obtain w4 where w4: "buffered_socket_read_bytes 4 Nsqd_read_size p q w3 = Inr w4"
      "reading q p Nsqd_read_size 4 w4" "rbuf q w4 = rbuf q w3" "others_kept p w3 w4"
    using request_bytes [OF l3 idle3] by blast
  have "handle app lib net (Connect_done q env) w = nsqd_connection_connect_cb (reader_cc app) q p ?w1"
    using b env by (simp add: emit_def connect_cb_eq connected_world_def sock_simps)
  also have "\<dots> = Inr w4"
    using w2(1,3) w3(1) w4(1) c
    by (simp add: nsqd_connection_connect_cb_def on_conn_def sock_write_def connected_world_def reader_cc_def)
  finally have "handle app lib net (Connect_done q env) w = Inr w4" .
  moreover have "unconsumed q p w4 []"
    using w4(2,3) q3 empty by (auto simp: unconsumed_def quiet_def read_side_def rbuf_def split: option.splits)
  ultimately show ?thesis using reader_owns_kept [OF o3 w4(4)] by blast
qed

lemma connect_failed_returns:
  assumes own: "reader_owns p w" and d: "dialled q p w" and env: "\<not> connect_ok env" and app: "app_acks app q p"
    and sk: "\<not> io_active (Read_io q) (calls w)" "\<not> io_active (Write_io q) (calls w)"
  shows "\<exists>w'. handle app lib net (Connect_done q env) w = Inr w' \<and> dead q w'"
proof -
  obtain b c where b: "socks w q = Some b" "cbarg b = p" "state b = BS_CONNECTING"
      "close_callback b = Some Nsqd_close_cb" and c: "conns w p = Some c" "conn_bs c = q"
    using d by (auto simp: dialled_def)
  let ?w = "closed_world q b (connect_fail_world env (w\<lparr>calls := Once_fired q # calls w\<rparr>))"
  have "shut q p ?w"
    using b c sk by (auto simp: shut_def dead_def closed_world_def close_calls_def connect_fail_world_def)
  moreover have "reader_owns p ?w"
    by (rule reader_owns_kept [OF own]) (simp add: others_kept_def closed_world_def connect_fail_world_def)
  ultimately obtain w' where w': "nsqd_connection_close_cb (reader_cc app) q p ?w = Inr w'" "dead q w'"
    using reader_close_returns [OF app] by blast
  have "handle app lib net (Connect_done q env) w = nsqd_connection_close_cb (reader_cc app) q p ?w"
    using b env
    by (simp add: emit_def connect_cb_eq)
      (subst close_eq [of _ q b], simp_all add: connect_fail_world_def closed_world_def invoke_Some)
  then show ?thesis using w' by simp
qed

subsection \<open>The frame of a finished connect\<close>

lemma stays_done_cb:
  assumes "app_stays app q p" and "p \<noteq> 0"
  shows "stays q p (buffered_socket_connect_cb (nsqd_call (reader_cc app)) env q)"
  unfolding buffered_socket_connect_cb_def
  by (intro stays_on_sock_any stays_if stays_block)
    (simp_all add: stays_rules stays_close [OF assms] stays_invoke [OF assms] stays_upd_sock_simple stays_block
      del: block.simps)

lemma stays_on_socket:
  assumes app: "app_stays app q p" and p: "p \<noteq> 0" and ev: "on_socket q ev"
  shows "stays q p (handle app lib net ev)"
proof (cases ev)
  case (Connect_done r env)
  have "stays q p (block [emit (Once_fired q), buffered_socket_connect_cb (nsqd_call (reader_cc app)) env q])"
    by (intro stays_block) (simp add: stays_rules stays_done_cb [OF app p])
  then show ?thesis using ev Connect_done by (simp add: stays_def del: block.simps)
next
  case (Read_bytes_due r)
  then show ?thesis using ev stays_handle [OF app p, of ev] by simp
next
  case (Socket_readable r env)
  then show ?thesis using ev stays_read_cb [OF app p] by (simp add: stays_def)
next
  case (Socket_writable r out)
  then show ?thesis using ev stays_write_cb [OF app p] by (simp add: stays_def)
qed (use ev in simp_all)

lemma elsewhere_dialled:
  assumes e: "elsewhere q p w w'" and ne: "y \<noteq> q" "x \<noteq> p" and d: "dialled y x w"
  shows "dialled y x w'"
proof -
  obtain b c where b: "socks w y = Some b" and c: "conns w x = Some c" using d by (auto simp: dialled_def)
  obtain c' where "conns w' x = Some c'" "conn_bs c' = conn_bs c" "command_buf c' = command_buf c"
    by (rule elsewhere_conn [OF e ne(2) c])
  moreover have "socks w' y = socks w y" using e ne(1) by (simp add: elsewhere_def)
  ultimately show ?thesis using d b c elsewhere_timers(3) [OF e ne(1)] by (simp add: dialled_def)
qed

subsection \<open>The states\<close>

definition settled :: "ptr \<Rightarrow> nsq_world \<Rightarrow> bool" where
  "settled q w \<longleftrightarrow> dead q w \<and> \<not> once_pending q (calls w)
     \<or> (\<exists>b p. socks w q = Some b \<and> cbarg b = p \<and> reader_owns p w
          \<and> ((\<exists>u. unconsumed q p w u) \<or> dialled q p w))"

definition steady_ok :: "nsq_world \<Rightarrow> bool" where
  "steady_ok w \<longleftrightarrow> net_inv w \<and> steady w \<and> (\<forall>q. settled q w)"

lemma sock_bound:
  assumes "net_inv w" and "socks w q = Some b"
  shows "bound q (cbarg b) w"
  using links_sock [OF _ assms(2)] assms by (auto simp: bound_def sock_linked_def net_inv_def)

lemma sock_owner_unique:
  assumes "net_inv w" and "socks w q = Some b" and "socks w y = Some d" and "y \<noteq> q"
  shows "cbarg d \<noteq> cbarg b"
  using links_sock [OF _ assms(2)] links_sock [OF _ assms(3)] assms(1,4)
  by (auto simp: sock_linked_def net_inv_def)

lemma settled_elsewhere:
  assumes e: "elsewhere q p w w'" and y: "y \<noteq> q" and s: "settled y w"
    and x: "\<And>d. socks w y = Some d \<Longrightarrow> cbarg d \<noteq> p"
  shows "settled y w'"
proof (cases "dead y w \<and> \<not> once_pending y (calls w)")
  case True
  then show ?thesis
    using elsewhere_dead [OF e y] elsewhere_timers(4) [OF e y] by (simp add: settled_def)
next
  case False
  then obtain b z where b: "socks w y = Some b" "cbarg b = z" and own: "reader_owns z w"
      and z: "(\<exists>u. unconsumed y z w u) \<or> dialled y z w"
    using s unfolding settled_def by blast
  have ne: "z \<noteq> p" using x [OF b(1)] b(2) by simp
  have "socks w' y = Some b" using e y b(1) by (simp add: elsewhere_def)
  then show ?thesis
    using b(2) elsewhere_owns [OF e ne own] z elsewhere_unconsumed [OF e y ne] elsewhere_dialled [OF e y ne]
    unfolding settled_def by blast
qed

subsection \<open>Peers that send well-formed frames\<close>

text \<open>What the frame reader has not yet handled, and whether the frame in front is well formed.\<close>

definition waiting_bytes :: "ptr \<Rightarrow> nsq_world \<Rightarrow> byte list" where
  "waiting_bytes q w =
     (case socks w q of None \<Rightarrow> []
      | Some b \<Rightarrow>
          (if read_bytes_callback b = Some Nsqd_read_data then
             (case conns w (cbarg b) of None \<Rightarrow> [] | Some c \<Rightarrow> be32_bytes (current_msg_size c))
           else []) @ contents (read_buf b))"

fun peer_ok :: "event \<Rightarrow> nsq_world \<Rightarrow> bool" where
  "peer_ok (Read_bytes_due q) w \<longleftrightarrow>
     (case next_frame (waiting_bytes q w) of None \<Rightarrow> True | Some (f, r) \<Rightarrow> frame_ok f)"
| "peer_ok ev w \<longleftrightarrow> True"

lemma unconsumed_waiting:
  assumes "unconsumed q p w u" shows "u = waiting_bytes q w"
  using assms by (auto simp: unconsumed_def reading_def live_def waiting_bytes_def rbuf_def)

subsection \<open>An event of a socket\<close>

definition app_fits :: "application \<Rightarrow> bool" where
  "app_fits app \<longleftrightarrow> app_ok app \<and> app_plain app \<and> greets app \<and> (\<forall>q p. app_acks app q p \<and> app_stays app q p)"

context reader_frames
begin

lemma socket_step:
  assumes own: "reader_owns p w" and u: "unconsumed q p w u" and ev: "socket_event q ev" "enabled ev w" "peer_ok ev w"
  shows "\<exists>w'. handle app lib net ev w = Inr w' \<and> (reader_owns p w' \<and> (\<exists>u'. unconsumed q p w' u') \<or> dead q w')"
proof (cases ev)
  case (Socket_readable r env)
  then show ?thesis using frames.readable_step [OF own u, of env] ev by fastforce
next
  case (Socket_writable r out)
  then show ?thesis using frames.writable_step [OF own u, of out] ev by fastforce
next
  case (Read_bytes_due r)
  then have r: "r = q" "timer_active (Read_bytes_timer q) (calls w)" using ev by simp_all
  have "frame_ok f" if "next_frame u = Some (f, t)" for f t
    using that ev(3) Read_bytes_due r(1) unconsumed_waiting [OF u] by simp
  then show ?thesis
    using frames.timer_step [OF own u r(2)] Read_bytes_due r(1) by (simp del: block.simps) blast
qed (use ev in simp_all)

end

lemma on_socket_returns:
  assumes ok: "steady_ok w" and app: "app_fits app" and ev: "on_socket q ev" "enabled ev w" "possible ev w" "peer_ok ev w"
  shows "\<exists>w' b. handle app lib net ev w = Inr w' \<and> socks w q = Some b \<and> cbarg b \<noteq> 0
    \<and> (reader_owns (cbarg b) w' \<and> (\<exists>u. unconsumed q (cbarg b) w' u)
       \<or> dead q w' \<and> (once_pending q (calls w) \<longrightarrow> (\<exists>env. ev = Connect_done q env)))"
proof -
  have acks: "app_acks app q p" for p using app by (simp add: app_fits_def)
  have inv: "net_inv w" "socks_inv w" and st: "settled q w" using ok by (auto simp: steady_ok_def net_inv_def)
  have "\<not> (dead q w \<and> \<not> once_pending q (calls w))" using ev(1,2) by (cases ev) (auto simp: dead_def)
  then obtain b p where b: "socks w q = Some b" "cbarg b = p" and own: "reader_owns p w"
      and cases: "(\<exists>u. unconsumed q p w u) \<or> dialled q p w"
    using st unfolding settled_def by blast
  have p: "p \<noteq> 0" using own by (simp add: reader_owns_def)
  have sk: "sock_ok (calls w) q b" by (rule socks_inv_sock [OF inv(2) b(1)])
  show ?thesis
  proof (cases "dialled q p w")
    case True
    then have con: "state b = BS_CONNECTING" "\<not> timer_active (Read_bytes_timer q) (calls w)"
      using b by (auto simp: dialled_def)
    then obtain env where env: "ev = Connect_done q env"
      using sk ev(1,2) by (cases ev) (auto simp: sock_ok_def)
    obtain r where r: "rdr w = Some r" "length (topic r) < 2 ^ 29" "length (channel r) < 2 ^ 29"
      using own inv by (auto simp: reader_owns_def net_inv_def rdr_ok_def)
    show ?thesis
    proof (cases "connect_ok env")
      case True
      then show ?thesis
        using connect_done_returns [OF own \<open>dialled q p w\<close> _ r, of env app lib net] app b p env
        by (auto simp: app_fits_def)
    next
      case False
      have "\<not> io_active (Read_io q) (calls w)" "\<not> io_active (Write_io q) (calls w)"
        using sk con by (auto simp: sock_ok_def)
      then show ?thesis
        using connect_failed_returns [OF own \<open>dialled q p w\<close> False acks, of lib net] b p env by blast
    qed
  next
    case False
    then obtain u where u: "unconsumed q p w u" using cases by blast
    then have "state b = BS_CONNECTED" using b by (auto dest!: unconsumed_live simp: live_def)
    then have once: "\<not> once_pending q (calls w)" using sk by (auto simp: sock_ok_def)
    then have "socket_event q ev" using ev(1-3) by (cases ev) auto
    moreover have "reader_frames app q p" by (simp add: reader_frames_def acks)
    ultimately show ?thesis
      using reader_frames.socket_step [OF _ own u _ ev(2,4), of app lib net] b p once by blast
  qed
qed

lemma on_socket_steady:
  assumes ok: "steady_ok w" and app: "app_fits app" and ev: "on_socket q ev" "enabled ev w" "possible ev w" "peer_ok ev w"
  shows "\<exists>w'. handle app lib net ev w = Inr w' \<and> steady_ok w' \<and> calm w w'"
proof -
  obtain w' b where run: "handle app lib net ev w = Inr w'" and b: "socks w q = Some b" "cbarg b \<noteq> 0"
      and res: "reader_owns (cbarg b) w' \<and> (\<exists>u. unconsumed q (cbarg b) w' u)
        \<or> dead q w' \<and> (once_pending q (calls w) \<longrightarrow> (\<exists>env. ev = Connect_done q env))"
    using on_socket_returns [OF assms] by blast
  have inv: "net_inv w" and d: "steady w" and st: "\<And>y. settled y w" using ok by (simp_all add: steady_ok_def)
  have fits: "app_ok app" "app_plain app" "app_stays app q (cbarg b)" using app by (simp_all add: app_fits_def)
  have inv': "net_inv w'"
    by (rule reader_app.handle_inv [OF _ inv ev(2,3) run]) (simp add: reader_app_def fits(1))
  have "stays q (cbarg b) (handle app lib net ev)" by (rule stays_on_socket [OF fits(3) b(2) ev(1)])
  then have bd: "bound q (cbarg b) w'" and e: "elsewhere q (cbarg b) w w'"
    using sock_bound [OF inv b(1)] run by (auto dest: staysD)
  have "plain (handle app lib net ev)" by (rule plain_handle [OF fits(2) ev(1)])
  then have calm: "calm w w'" by (intro plainD [where f = "handle app lib net ev", OF _ d run])
  then have once: "\<And>x. once_pending x (calls w') \<Longrightarrow> once_pending x (calls w)" by (simp add: calm_def)
  have "settled q w'"
  proof (cases "reader_owns (cbarg b) w' \<and> (\<exists>u. unconsumed q (cbarg b) w' u)")
    case True
    then obtain u d where "unconsumed q (cbarg b) w' u" "socks w' q = Some d"
      using unconsumed_live by (fastforce simp: live_def)
    then show ?thesis using True bd by (auto simp: settled_def bound_def)
  next
    case False
    then have dead: "dead q w'" and fired: "once_pending q (calls w) \<longrightarrow> (\<exists>env. ev = Connect_done q env)"
      using res by blast+
    have "\<not> once_pending q (calls w')"
    proof
      assume p: "once_pending q (calls w')"
      then obtain env where env: "ev = Connect_done q env" using once fired by blast
      let ?w = "w\<lparr>calls := Once_fired q # calls w\<rparr>"
      have "steady ?w" using plainD [OF plain_emit d, of "Once_fired q" ?w] by (simp add: emit_def calm_def)
      moreover have "buffered_socket_connect_cb (nsqd_call (reader_cc app)) env q ?w = Inr w'"
        using run by (simp add: env emit_def)
      ultimately have "once_pending q (calls ?w)"
        using plainD [OF plain_done_cb [OF fits(2)]] p unfolding calm_def by blast
      then show False by simp
    qed
    then show ?thesis using dead by (simp add: settled_def)
  qed
  moreover have "settled y w'" if "y \<noteq> q" for y
    using that sock_owner_unique [OF inv b(1)] by (intro settled_elsewhere [OF e _ st]) auto
  ultimately have "settled y w'" for y by (cases "y = q") simp_all
  then show ?thesis using run inv' calm by (auto simp: steady_ok_def calm_def)
qed

subsection \<open>Dialling\<close>

text \<open>
  \<^verbatim>\<open>socket\<close> returns -1 or a descriptor above 0: descriptor 0 is in use. The reader takes a connect
  that returns 0 for a failure.
\<close>

definition net_ok :: "(ptr \<Rightarrow> connect_env) \<Rightarrow> bool" where
  "net_ok net \<longleftrightarrow> (\<forall>p. socket_ret (net p) = -1 \<or> 0 < socket_ret (net p))"

lemma store_cells:
  "store p (set_conn_next n) h = Inr h' \<Longrightarrow> map_option unlinked (h' x) = map_option unlinked (h x)"
  by (auto simp: store_def deref_def bind_res_Inr_iff unlinked_def set_conn_next_def split: if_splits option.splits)

lemma LL_APPEND_cells:
  assumes "LL_APPEND conn_next set_conn_next head add h = Inr (h', hp)"
  shows "map_option unlinked (hp x) = map_option unlinked (h x)"
proof -
  obtain h1 where h1: "store add (set_conn_next 0) h = Inr h1"
      and "hp = h1 \<or> (\<exists>tmp. store tmp (set_conn_next add) h1 = Inr hp)"
    using assms by (auto simp: LL_APPEND_def bind_res_Inr_iff split: if_splits)
  then show ?thesis using store_cells [OF h1] store_cells by metis
qed

lemma connect_cells:
  assumes inv: "net_inv w" and run: "nsq_reader_connect_to_nsqd net a port w = Inr (rc, w')" and x: "x \<noteq> brk w"
  shows "map_option unlinked (conns w' x) = map_option unlinked (conns w x)"
proof -
  obtain p w1 w2 w3 where w1: "new_nsqd_connection a port w = Inr (p, w1)"
      and w2: "nsqd_connection_connect (net p) p w1 = Inr (rc, w2)"
      and w3: "(if 0 < rc then append_conn p w2 else Inr w2) = Inr w3"
      and w4: "on_rdr (\<lambda>r. if lookupd_head r = 0 then nsqd_connection_init_timer p else Inr) w3 = Inr w'"
    using run by (auto simp: nsq_reader_connect_to_nsqd_def bind_res_Inr_iff)
  have p: "p = brk w" "conns w1 x = conns w x"
    using w1 x by (auto simp: new_nsqd_connection_def on_rdr_def new_buffered_socket_def Let_def split: option.splits)
  obtain c b where 1: "net_inv w1" and c: "conns w1 p = Some c" "socks w1 (conn_bs c) = Some b" "state b = BS_INIT"
    using new_connection_net [OF inv w1] by blast
  have "conns w2 = conns w1" using connect_net [OF 1 c w2] by simp
  moreover have "map_option unlinked (conns w3 x) = map_option unlinked (conns w2 x)"
    using w3 LL_APPEND_cells by (auto simp: append_conn_def on_rdr_def bind_res_Inr_iff split: if_splits option.splits)
  moreover have "conns w' x = conns w3 x"
    using w4 x p(1) by (auto simp: on_rdr_def nsqd_connection_init_timer_def upd_conn_def on_conn_def
        split: if_splits option.splits)
  ultimately show ?thesis using p(2) by simp
qed

lemma connect_steady:
  assumes ok: "steady_ok w" and net: "net_ok net"
  shows "\<exists>rc w'. nsq_reader_connect_to_nsqd net a port w = Inr (rc, w') \<and> steady_ok w' \<and> aside w w'
    \<and> (\<forall>p. timer_active (Reconnect_timer p) (calls w') = timer_active (Reconnect_timer p) (calls w))"
proof -
  define p q where "p = brk w" and "q = p + 1"
  have inv: "net_inv w" and d: "steady w" and st: "\<And>y. settled y w" using ok by (simp_all add: steady_ok_def)
  obtain xs where xs: "socks_inv w" "links_ok w" "alloc_ok w" "conn_list w xs" using inv by (rule net_invE)
  obtain r where r: "rdr w = Some r" and t0: "lookupd_head r = 0 \<longrightarrow>
      (\<forall>x. timer_active (Reconnect_timer x) (calls w) \<longrightarrow> (\<exists>c. conns w x = Some c \<and> reconnect_timer c = Timer_allocated))"
    and t1: "lookupd_head r \<noteq> 0 \<longrightarrow> (\<forall>x. \<not> timer_active (Reconnect_timer x) (calls w))
      \<and> (\<forall>x c. conns w x = Some c \<longrightarrow> reconnect_timer c = Timer_null)"
    using d by (rule steadyE)
  obtain w' r' c h where run: "nsq_reader_connect_to_nsqd net a port w
        = Inr (if connect_outcome (net p) = Started then socket_ret (net p) else 0, w')"
      and c: "conns w' p = Some c" "reconnect_timer c = (if lookupd_head r = 0 then Timer_allocated else Timer_null)"
      and w': "socks w' = (socks w)(q \<mapsto> connect_sock (net p) (new_sock (cfg r) (junk w) a port p))"
        "rdr w' = Some r'" "r' = r\<lparr>conns_head := h\<rparr>" "calls w' = connect_calls (net p) q @ calls w"
        "reqs w' = reqs w" "resps w' = resps w" "endpoints w' = endpoints w" "http_socks w' = http_socks w" "brk w' = q + 1"
      and list: "conn_list w' (if connect_outcome (net p) = Started \<and> 0 < socket_ret (net p) then xs @ [p] else xs)"
    using connect_run [OF inv r(1) xs(4) p_def q_def, of net a port] by auto
  note later = connect_to_nsqd_net [OF inv run]
  have fresh: "conns w p = None" "socks w q = None" "\<not> timer_active (Reconnect_timer p) (calls w)"
      "\<not> timer_active (Read_bytes_timer q) (calls w)" "\<not> once_pending q (calls w)"
    using xs(1,3) by (simp_all add: alloc_ok_def socks_inv_def p_def q_def)
  have cells: "map_option unlinked (conns w' x) = map_option unlinked (conns w x)" if "x \<noteq> p" for x
    using connect_cells [OF inv run] that by (simp add: p_def)
  have "list_kept p w w'"
    unfolding list_kept_def
  proof (intro allI impI)
    fix r0 ys assume "rdr w = Some r0" and ys: "ll_rep conn_next (conns w) (conns_head r0) ys"
    then have "r0 = r" "ys = xs" using r xs(4) ll_list_unique by (auto simp: conn_list_def ll_rep_def)
    then show "\<exists>h zs. rdr w' = Some (r0\<lparr>conns_head := h\<rparr>) \<and> ll_rep conn_next (conns w') h zs \<and> set ys - {p} \<subseteq> set zs"
      using list w'(2,3)
      by (intro exI [of _ h] exI [of _ "if connect_outcome (net p) = Started \<and> 0 < socket_ret (net p) then xs @ [p] else xs"])
        (auto simp: conn_list_def)
  qed
  moreover have "list_all (concerns q p) (connect_calls (net p) q)"
    by (simp add: connect_calls_def concerns_def split: connect_outcome.split)
  ultimately have e: "elsewhere q p w w'"
    using w'(1,4) cells by (intro elsewhereI [where cs = "connect_calls (net p) q"]) simp_all
  have "settled q w'"
  proof (cases "connect_outcome (net p) = Started")
    case True
    then have "0 < socket_ret (net p)"
      using net by (auto simp: net_ok_def connect_outcome_def split: if_splits)
    then have "reader_owns p w'" "dialled q p w'"
      using connect_dials [OF inv r(1) p_def q_def True _ run] by simp_all
    then show ?thesis by (auto simp: settled_def dialled_def)
  next
    case False
    have "\<not> io_active (Read_io q) (calls w)" "\<not> io_active (Write_io q) (calls w)"
      using xs(1) fresh(2) by (auto simp: socks_inv_def slot_ok_def dest: spec [of _ q])
    then show ?thesis
      using False fresh(4,5) w'(4) by (cases "connect_outcome (net p)") (simp_all add: settled_def dead_def connect_calls_def)
  qed
  moreover have "cbarg b \<noteq> p" if "socks w y = Some b" for y b
    using links_sock [OF xs(2) that] fresh(1) by (auto simp: sock_linked_def)
  then have "settled y w'" if "y \<noteq> q" for y using that by (intro settled_elsewhere [OF e _ st]) auto
  ultimately have "settled y w'" for y by (cases "y = q") simp_all
  moreover have timers: "timer_active (Reconnect_timer x) (calls w') = timer_active (Reconnect_timer x) (calls w)" for x
    by (simp add: w'(4) connect_calls_def split: connect_outcome.split)
  moreover have "steady w'"
  proof -
    have old: "map_option reconnect_timer (conns w' x) = map_option reconnect_timer (conns w x)" if "x \<noteq> p" for x
      using cells [OF that] unlinked_simps(3) by (rule same_field)
    have "\<exists>c. conns w' x = Some c \<and> reconnect_timer c = Timer_allocated"
      if "lookupd_head r = 0" "timer_active (Reconnect_timer x) (calls w)" for x
    proof -
      have "x \<noteq> p" using that(2) fresh(3) by auto
      then show ?thesis using old [of x] t0 that by (metis map_option_eq_Some)
    qed
    moreover have "reconnect_timer d = Timer_null" if "lookupd_head r \<noteq> 0" "conns w' x = Some d" for x d
    proof (cases "x = p")
      case True
      then show ?thesis using that c by simp
    next
      case False
      then show ?thesis using old [of x] t1 that by (metis map_option_eq_Some)
    qed
    ultimately show ?thesis using t1 w'(2,3) by (auto simp: steady_def timers)
  qed
  moreover have "aside w w'"
    using w' r by (simp add: aside_def rdr_core_def same_web_def q_def p_def connect_calls_def split: connect_outcome.split)
  ultimately show ?thesis using run later by (auto simp: steady_ok_def)
qed

lemma test_app_fits: "app_fits test_app"
  using test_app_ok test_app_plain test_app_acks test_app_stays
  by (simp add: app_fits_def greets_def) (simp add: test_app_def)

end
