(* ===== verification/Direct_Run.thy ===== *)
theory Direct_Run
  imports Steady_Run
begin

section \<open>Readers without lookupd\<close>

text \<open>
  A reader that only dials nsqd directly never runs into a fault, whatever the network does, as
  long as its peers send well-formed frames: every connect, failure, loss and reconnect of any
  number of connections, in any order. Nothing of lookupd or HTTP is under way in it (\<open>direct\<close>).
\<close>

subsection \<open>Releasing and dialling again\<close>

definition direct :: "nsq_world \<Rightarrow> bool" where
  "direct w \<longleftrightarrow> (\<exists>r. rdr w = Some r \<and> lookupd_head r = 0)
     \<and> \<not> timer_active Lookupd_poll_timer (calls w) \<and> \<not> timer_active Http_timer (calls w)
     \<and> (\<forall>s. \<not> io_active (Http_io s) (calls w))"

definition direct_ok :: "nsq_world \<Rightarrow> bool" where
  "direct_ok w \<longleftrightarrow> steady_ok w \<and> direct w"

lemma direct_aside:
  assumes "direct w" and "aside w w'" shows "direct w'"
proof -
  obtain r where r: "rdr w = Some r" "lookupd_head r = 0" using assms(1) by (auto simp: direct_def)
  have "rdr_core w' = rdr_core w" using assms(2) by (simp add: aside_def)
  then obtain h where "rdr w' = Some (r\<lparr>conns_head := h\<rparr>)" using r(1) by (rule rdr_core_head)
  then show ?thesis using assms r(2) by (simp add: direct_def aside_def same_web_def io_active_on)
qed

lemma direct_timer:
  assumes "direct w" and "steady w" and "timer_active (Reconnect_timer x) (calls w)"
  shows "\<exists>c. conns w x = Some c \<and> reconnect_timer c = Timer_allocated"
  using assms by (auto simp: direct_def steady_def split: if_splits)

lemma connect_direct:
  assumes ok: "direct_ok w" and net: "net_ok net"
  shows "\<exists>rc w'. nsq_reader_connect_to_nsqd net a port w = Inr (rc, w') \<and> direct_ok w'
    \<and> (\<forall>p. timer_active (Reconnect_timer p) (calls w') = timer_active (Reconnect_timer p) (calls w))"
  using connect_steady [OF _ net, of w a port] ok direct_aside [of w] unfolding direct_ok_def by blast

lemma free_direct:
  assumes ok: "direct_ok w" and timer: "timer_active (Reconnect_timer p) (calls w)"
  shows "\<exists>w'. free_nsqd_connection p w = Inr w' \<and> steady w' \<and> direct w' \<and> (\<forall>q. settled q w')"
proof -
  have inv: "net_inv w" and sd: "steady w" and d: "direct w" and st: "\<And>y. settled y w"
    using ok by (simp_all add: direct_ok_def steady_ok_def)
  obtain c where c: "conns w p = Some c" "reconnect_timer c = Timer_allocated"
    using direct_timer [OF d sd timer] by blast
  obtain xs where xs: "links_ok w" "alloc_ok w" "conn_list w xs" "recon_ok w xs" using inv by (rule net_invE)
  obtain b where b: "socks w (conn_bs c) = Some b" "cbarg b = p" using links_conn [OF xs(1) c(1)] by blast
  have p: "p \<notin> set xs" "state b = BS_DISCONNECTED" using xs(4) timer c(1) b(1) by (auto simp: recon_ok_def)
  have "p \<noteq> 0" using xs(2) c(1) by (cases "p = 0") (auto simp: alloc_ok_def)
  let ?q = "conn_bs c"
  let ?w' = "w\<lparr>calls := Ev_timer_stop (Reconnect_timer p) # calls w, conns := (conns w)(p := None),
      socks := (socks w)(?q := None)\<rparr>"
  have run: "free_nsqd_connection p w = Inr ?w'"
    using c b \<open>p \<noteq> 0\<close> by (simp add: free_nsqd_connection_def nsqd_connection_stop_timer_def on_conn_def emit_def
        upd_conn_def free_buffered_socket_def)
  have "list_kept p w ?w'"
    unfolding list_kept_def
  proof (intro allI impI)
    fix r ys assume r: "rdr w = Some r" and ys: "ll_rep conn_next (conns w) (conns_head r) ys"
    then have "ys = xs" using xs(3) ll_list_unique by (fastforce simp: conn_list_def ll_rep_def)
    then show "\<exists>h zs. rdr ?w' = Some (r\<lparr>conns_head := h\<rparr>) \<and> ll_rep conn_next (conns ?w') h zs \<and> set ys - {p} \<subseteq> set zs"
      using r ys p(1) by (intro exI [of _ "conns_head r"] exI [of _ ys]) (simp add: ll_rep_def ll_list_upd)
  qed
  then have e: "elsewhere ?q p w ?w'"
    by (intro elsewhereI [where cs = "[Ev_timer_stop (Reconnect_timer p)]"]) simp_all
  have "\<not> unconsumed ?q p w u" "\<not> dialled ?q p w" for u
    using b p(2) by (auto simp: dialled_def live_def dest!: unconsumed_live)
  then have "dead ?q w \<and> \<not> once_pending ?q (calls w)" using st [of ?q] b by (auto simp: settled_def)
  then have q: "settled ?q ?w'" by (simp add: settled_def dead_def)
  have "settled y ?w'" if "y \<noteq> ?q" for y
    using sock_owner_unique [OF inv b(1) _ that] b(2) by (intro settled_elsewhere [OF e that st]) auto
  then have "settled y ?w'" for y using q by (cases "y = ?q") simp_all
  moreover have "direct ?w'" using d by (auto simp: direct_def)
  moreover have "steady ?w'" using sd d by (auto simp: steady_def direct_def)
  ultimately show ?thesis using run by blast
qed

lemma reconnect_direct:
  assumes ok: "direct_ok w" and net: "net_ok net" and timer: "timer_active (Reconnect_timer p) (calls w)"
    and app: "app_ok app"
  shows "\<exists>w'. handle app lib net (Reconnect_due p) w = Inr w' \<and> direct_ok w'"
proof -
  have inv: "net_inv w" and sd: "steady w" and d: "direct w" using ok by (simp_all add: direct_ok_def steady_ok_def)
  obtain r where r: "rdr w = Some r" "lookupd_head r = 0" using d by (auto simp: direct_def)
  obtain c where c: "conns w p = Some c" using direct_timer [OF d sd timer] by blast
  obtain rc w1 where w1: "nsq_reader_connect_to_nsqd net (conn_address c) (conn_port c) w = Inr (rc, w1)"
      "direct_ok w1" "timer_active (Reconnect_timer p) (calls w1)"
    using connect_direct [OF ok net] timer by blast
  obtain w2 where w2: "free_nsqd_connection p w1 = Inr w2" "steady w2" "direct w2" "\<forall>q. settled q w2"
    using free_direct [OF w1(2,3)] by blast
  have run: "handle app lib net (Reconnect_due p) w = Inr w2"
    using r c w1(1) w2(1) by (simp add: nsq_reader_reconnect_cb_def on_conn_def on_rdr_def)
  have "net_inv w2"
    by (rule reader_app.handle_inv [OF _ inv _ _ run]) (simp_all add: reader_app_def app timer)
  then show ?thesis using run w2 by (auto simp: direct_ok_def steady_ok_def)
qed

lemma handle_direct:
  assumes ok: "direct_ok w" and app: "app_fits app" and net: "net_ok net"
    and ev: "enabled ev w" "possible ev w" "peer_ok ev w"
  shows "\<exists>w'. handle app lib net ev w = Inr w' \<and> direct_ok w'"
proof (cases "\<exists>q. on_socket q ev")
  case True
  then show ?thesis
    using on_socket_steady [OF _ app _ ev] ok direct_aside [of w] unfolding direct_ok_def calm_def by blast
next
  case False
  have "direct w" "app_ok app" using ok app by (simp_all add: direct_ok_def app_fits_def)
  then obtain p where p: "ev = Reconnect_due p" using False ev(1) by (cases ev) (auto simp: direct_def)
  then show ?thesis using reconnect_direct [OF ok net _ \<open>app_ok app\<close>] ev(1) by simp
qed

subsection \<open>Whole runs\<close>

fun connects :: "startup \<Rightarrow> bool" where
  "connects (Connect_to a port) \<longleftrightarrow> True"
| "connects (Add_lookupd a port) \<longleftrightarrow> False"

text \<open>
  What the environment keeps to in a run: the kernel gives answers that it can give, and the
  frames that come in are well formed.
\<close>

fun env_ok :: "application \<Rightarrow> 'j json_lib \<Rightarrow> (ptr \<Rightarrow> connect_env) \<Rightarrow> event list \<Rightarrow> nsq_world \<Rightarrow> bool" where
  "env_ok app lib net [] w \<longleftrightarrow> True"
| "env_ok app lib net (ev # evs) w \<longleftrightarrow>
     (if enabled ev w then possible ev w \<and> peer_ok ev w
        \<and> (case handle app lib net ev w of Inl e \<Rightarrow> True | Inr w' \<Rightarrow> env_ok app lib net evs w')
      else env_ok app lib net evs w)"

lemma run_direct:
  assumes app: "app_fits app" and net: "net_ok net"
  shows "direct_ok w \<Longrightarrow> env_ok app lib net evs w \<Longrightarrow>
    \<exists>w'. event_run app lib net evs w = Inr w' \<and> direct_ok w'"
proof (induction evs arbitrary: w)
  case (Cons ev evs)
  show ?case
  proof (cases "enabled ev w")
    case True
    then obtain w1 where w1: "handle app lib net ev w = Inr w1" "direct_ok w1"
      using handle_direct [OF Cons.prems(1) app net True] Cons.prems(2) by auto
    then show ?thesis using True Cons.prems(2) Cons.IH [OF w1(2)] by simp
  next
    case False
    then show ?thesis using Cons by simp
  qed
qed simp

lemma startup_direct:
  assumes net: "net_ok net"
  shows "list_all connects ops \<Longrightarrow> direct_ok w \<Longrightarrow>
    \<exists>w'. block (map (startup_op net) ops) w = Inr w' \<and> direct_ok w'"
proof (induction ops arbitrary: w)
  case Nil
  then show ?case by (simp add: block_Nil)
next
  case (Cons op ops)
  then obtain a port where op: "op = Connect_to a port" by (cases op) auto
  obtain rc w1 where w1: "nsq_reader_connect_to_nsqd net a port w = Inr (rc, w1)" "direct_ok w1"
    using connect_direct [OF Cons.prems(2) net] by blast
  then show ?case using Cons.IH [OF _ w1(2)] Cons.prems(1) by (simp add: op)
qed

lemma new_reader_direct:
  assumes "cfg_small c" and "length t < 2 ^ 29" and "length ch < 2 ^ 29"
  shows "\<exists>w. new_nsq_reader t ch c (empty_world j) = Inr w \<and> direct_ok w"
proof -
  obtain w where w: "new_nsq_reader t ch c (empty_world j) = Inr w"
    by (simp add: new_nsq_reader_def new_http_client_calls)
  have "net_inv w" by (rule new_reader_net [OF assms w])
  moreover have "steady w" "direct w" "\<forall>q. settled q w"
    using w by (auto simp: new_nsq_reader_def new_http_client_calls steady_def direct_def settled_def dead_def
        empty_world_def)
  ultimately show ?thesis using w by (auto simp: direct_ok_def steady_ok_def)
qed

text \<open>
  Property C3: a reader that only dials nsqd directly never faults. It is created, dials any
  number of peers, and then takes any sequence of events, of all its connections, in any
  order: connects that succeed, fail or time out, input, output, errors and end of file,
  reconnects. No handler uses a null or dangling pointer, frees twice, reads or writes outside
  a block or runs for ever, as long as descriptors are above 0, the kernel answers as it
  can, the application answers as libnsq expects it (app_fits), and the frames received are
  well formed. In the state it ends in all
  invariants hold, and no lookupd or HTTP event is under way.
\<close>

theorem direct_reader_never_faults:
  assumes "app_fits app" and "net_ok net" and "list_all connects ops"
    and "cfg_small c" and "length t < 2 ^ 29" and "length ch < 2 ^ 29"
    and "\<And>w. main j net t ch c ops = Inr w \<Longrightarrow> env_ok app lib net evs w"
  shows "\<exists>w w'. main j net t ch c ops = Inr w \<and> event_run app lib net evs w = Inr w'
    \<and> net_inv w' \<and> direct w'"
proof -
  obtain w0 where w0: "new_nsq_reader t ch c (empty_world j) = Inr w0" "direct_ok w0"
    using new_reader_direct [OF assms(4-6)] by blast
  obtain w where w: "block (map (startup_op net) ops) w0 = Inr w" "direct_ok w"
    using startup_direct [OF assms(2,3) w0(2)] by blast
  have m: "main j net t ch c ops = Inr w" using w0(1) w(1) by (simp add: main_def)
  obtain w' where "event_run app lib net evs w = Inr w'" "direct_ok w'"
    using run_direct [OF assms(1,2) w(2) assms(7) [OF m]] by blast
  then show ?thesis using m by (auto simp: direct_ok_def steady_ok_def)
qed

text \<open>
  A connect that succeeds, output, end of file, a reconnect that times out, and one more.
\<close>

definition demo_life :: "event list" where
  "demo_life = [Socket_writable 2 (\<lambda>bs. Send_count (length bs)), Socket_readable 2 (demo_read []), Reconnect_due 1,
     Connect_done 4 demo_timeout, Reconnect_due 3]"

lemma env_always: "list_all (\<lambda>ev. \<forall>w. possible ev w \<and> peer_ok ev w) evs \<Longrightarrow> env_ok app lib net evs w"
  by (induction evs arbitrary: w) (auto split: sum.split)

lemma demo_life_ok: "env_ok app lib net demo_life w"
proof (rule env_always)
  have "sockopt_fits demo_timeout x" for x by (simp add: sockopt_fits_def demo_timeout_def split: option.split)
  moreover have "read_env_ok (demo_read [])" by (simp add: read_env_ok_def demo_read_def)
  ultimately show "list_all (\<lambda>ev. \<forall>w. possible ev w \<and> peer_ok ev w) demo_life"
    by (simp add: demo_life_def send_ok_def)
qed

theorem direct_reader_never_faults_witness:
  "\<exists>w w'. main (\<lambda>_. 0) demo_net [116] [99] None [Connect_to [49] 4150] = Inr w
    \<and> event_run test_app demo_lib demo_net (Connect_done 2 demo_connected # demo_life) w = Inr w' \<and> net_inv w'"
proof -
  have "env_ok test_app demo_lib demo_net (Connect_done 2 demo_connected # demo_life) w"
    if m: "main (\<lambda>_. 0) demo_net [116] [99] None [Connect_to [49] 4150] = Inr w" for w
  proof -
    obtain rc where "nsq_reader_connect_to_nsqd demo_net [49] 4150 demo_world = Inr (rc, w)"
      using m by (auto simp: main_def demo_created bind_res_Inr_iff)
    moreover have "conn_list demo_world []" by (rule demo_list)
    ultimately have "socks w 2 = Some (connect_sock (demo_net 1) (new_sock (cfg demo_reader) (junk demo_world) [49] 4150 1))"
      using connect_run [OF demo_inv demo_rdr(1) _ refl refl, of "[]" demo_net "[49]" 4150] demo_brk by auto
    then have fits: "sockopt_fits demo_connected (socks w 2)"
      using demo_started(1) by (simp add: sockopt_fits_def connect_sock_def demo_net_def)
    have rest: "env_ok test_app demo_lib demo_net demo_life w'" for w' by (rule demo_life_ok)
    show ?thesis by (simp add: fits rest del: handle.simps split: sum.split)
  qed
  then show ?thesis
    using direct_reader_never_faults [OF test_app_fits, of demo_net "[Connect_to [49] 4150]" None "[116]" "[99]" "\<lambda>_. 0"
        demo_lib "Connect_done 2 demo_connected # demo_life"]
    by (auto simp: net_ok_def demo_net_def cfg_small_def simp del: env_ok.simps event_run.simps)
qed

end
