(* ===== verification/Http_Watchers.thy ===== *)
theory Http_Watchers
  imports Lookupd
begin

section \<open>The watchers of the HTTP client\<close>

text \<open>
  libcurl asks \<^verbatim>\<open>sock_cb\<close> of \<^verbatim>\<open>src/http.c\<close> to watch its descriptors; the watcher is part of an
  \<^verbatim>\<open>HttpSocket\<close> that the callback allocates and frees. The invariant is that exactly the
  watchers of allocated sockets are active, so libev never calls \<^verbatim>\<open>event_cb\<close> for one that was
  freed. All other procedures of the program leave these sockets alone (\<open>hush\<close>).
\<close>

subsection \<open>Procedures that leave the HTTP sockets alone\<close>

fun http_entry :: "ext_call \<Rightarrow> bool" where
  "http_entry (Ev_io_start (Http_io s) f) \<longleftrightarrow> True"
| "http_entry (Ev_io_stop (Http_io s)) \<longleftrightarrow> True"
| "http_entry c \<longleftrightarrow> False"

definition hushed :: "nsq_world \<Rightarrow> nsq_world \<Rightarrow> bool" where
  "hushed w w' \<longleftrightarrow> http_socks w' = http_socks w \<and> brk w \<le> brk w'
     \<and> (\<forall>s. io_on (Http_io s) (calls w') = io_on (Http_io s) (calls w))"

definition hush :: "nsq_proc \<Rightarrow> bool" where
  "hush f \<longleftrightarrow> (\<forall>w w'. f w = Inr w' \<longrightarrow> hushed w w')"

definition hush_ret :: "(nsq_world \<Rightarrow> fault + 'r \<times> nsq_world) \<Rightarrow> bool" where
  "hush_ret f \<longleftrightarrow> (\<forall>w x w'. f w = Inr (x, w') \<longrightarrow> hushed w w')"

named_theorems hush_rules \<open>procedures that leave the sockets of the HTTP client alone\<close>

lemma hushed_refl: "hushed w w"
  by (simp add: hushed_def)

lemma hushed_trans: "hushed w w1 \<Longrightarrow> hushed w1 w2 \<Longrightarrow> hushed w w2"
  by (auto simp: hushed_def)

lemma hushI: "(\<And>w w'. f w = Inr w' \<Longrightarrow> hushed w w') \<Longrightarrow> hush f"
  by (simp add: hush_def)

lemma hushD: "hush f \<Longrightarrow> f w = Inr w' \<Longrightarrow> hushed w w'"
  by (simp add: hush_def)

lemma hush_Inr [hush_rules]: "hush Inr"
  by (simp add: hush_def hushed_refl)

lemma hush_fail [hush_rules]: "hush (\<lambda>_. Inl e)"
  by (simp add: hush_def)

lemma hush_seq: "hush f \<Longrightarrow> hush g \<Longrightarrow> hush (\<lambda>w. bind_res (f w) g)"
  by (rule hushI) (auto simp: bind_res_Inr_iff dest!: hushD intro: hushed_trans)

lemma hush_block: "list_all hush fs \<Longrightarrow> hush (block fs)"
proof (induction fs)
  case Nil
  then show ?case by (simp add: block_Nil hush_Inr)
next
  case (Cons f fs)
  then have "hush (\<lambda>w. bind_res (f w) (block fs))" by (intro hush_seq) simp_all
  then show ?case by (simp add: hush_def)
qed

lemma hush_if: "(c \<Longrightarrow> hush f) \<Longrightarrow> (\<not> c \<Longrightarrow> hush g) \<Longrightarrow> hush (if c then f else g)"
  by simp

lemma hush_if_app: "(c \<Longrightarrow> hush f) \<Longrightarrow> (\<not> c \<Longrightarrow> hush g) \<Longrightarrow> hush (\<lambda>w. if c then f w else g w)"
  by (cases c) simp_all

lemma hush_bind: "(\<And>x. hush (f x)) \<Longrightarrow> hush (\<lambda>w. bind_res (m w) (\<lambda>x. f x w))"
  by (auto simp: hush_def bind_res_Inr_iff)

lemma hush_on_sock: "(\<And>b. hush (f b)) \<Longrightarrow> hush (on_sock q f)"
  by (auto simp: hush_def on_sock_def split: option.splits)

lemma hush_on_conn: "(\<And>c. hush (f c)) \<Longrightarrow> hush (on_conn p f)"
  by (auto simp: hush_def on_conn_def split: option.splits)

lemma hush_on_rdr: "(\<And>r. hush (f r)) \<Longrightarrow> hush (on_rdr f)"
  by (auto simp: hush_def on_rdr_def split: option.splits)

lemma hush_on_req: "(\<And>x. hush (f x)) \<Longrightarrow> hush (on_req r f)"
  by (auto simp: hush_def on_req_def split: option.splits if_splits)

lemma hush_emit: "\<not> http_entry c \<Longrightarrow> hush (emit c)"
  by (cases c rule: http_entry.cases) (auto simp: hush_def hushed_def emit_def)

lemma hush_upd_sock [hush_rules]: "hush (upd_sock q f)"
  by (auto simp: hush_def hushed_def upd_sock_def on_sock_def split: option.splits)

lemma hush_upd_conn [hush_rules]: "hush (upd_conn p f)"
  by (auto simp: hush_def hushed_def upd_conn_def on_conn_def split: option.splits)

lemma hush_upd_req [hush_rules]: "hush (upd_req p f)"
  by (auto simp: hush_def hushed_def upd_req_def on_req_def split: option.splits if_splits)

lemma hush_set_errno [hush_rules]: "hush (set_errno e)"
  by (simp add: hush_def hushed_def set_errno_def)


lemma hush_retI: "(\<And>w x w'. f w = Inr (x, w') \<Longrightarrow> hushed w w') \<Longrightarrow> hush_ret f"
  by (simp add: hush_ret_def)

lemma hush_retD: "hush_ret f \<Longrightarrow> f w = Inr (x, w') \<Longrightarrow> hushed w w'"
  by (simp add: hush_ret_def)

lemma hush_ret_bind:
  assumes "hush_ret f" and "\<And>x. hush (g x)"
  shows "hush (\<lambda>w. bind_res (f w) (\<lambda>(x, w'). g x w'))"
proof (rule hushI)
  fix w w' assume "bind_res (f w) (\<lambda>(x, w'). g x w') = Inr w'"
  then obtain x w1 where "f w = Inr (x, w1)" "g x w1 = Inr w'"
    by (auto simp: bind_res_Inr_iff)
  then show "hushed w w'"
    using hush_retD [OF assms(1)] hushD [OF assms(2)] hushed_trans by blast
qed

lemma hush_ret_then:
  assumes "hush_ret f" and "\<And>x. hush_ret (g x)"
  shows "hush_ret (\<lambda>w. bind_res (f w) (\<lambda>(x, w'). g x w'))"
proof (rule hush_retI)
  fix w y w' assume "bind_res (f w) (\<lambda>(x, w'). g x w') = Inr (y, w')"
  then obtain x w1 where "f w = Inr (x, w1)" "g x w1 = Inr (y, w')"
    by (auto simp: bind_res_Inr_iff)
  then show "hushed w w'"
    using hush_retD [OF assms(1)] hush_retD [OF assms(2)] hushed_trans by blast
qed

lemma hush_then_ret:
  assumes "hush f" and "hush_ret g" shows "hush_ret (\<lambda>w. bind_res (f w) g)"
proof (rule hush_retI)
  fix w y w' assume "bind_res (f w) g = Inr (y, w')"
  then obtain w1 where "f w = Inr w1" "g w1 = Inr (y, w')" by (auto simp: bind_res_Inr_iff)
  then show "hushed w w'"
    using hushD [OF assms(1)] hush_retD [OF assms(2)] hushed_trans by blast
qed

lemma hush_ret_pure: "(\<And>x. hush_ret (f x)) \<Longrightarrow> hush_ret (\<lambda>w. bind_res (m w) (\<lambda>x. f x w))"
  by (auto simp: hush_ret_def bind_res_Inr_iff)

lemma hush_ret_if_app:
  "hush_ret f \<Longrightarrow> hush_ret g \<Longrightarrow> hush_ret (\<lambda>w. if c then f w else g w)"
  by (cases c) simp_all

lemma hush_ret_Inr [hush_rules]: "hush_ret (\<lambda>w. Inr (x, w))"
  by (simp add: hush_ret_def hushed_refl)

lemma hush_ret_on_rdr: "(\<And>r. hush_ret (f r)) \<Longrightarrow> hush_ret (on_rdr f)"
  by (auto simp: hush_ret_def on_rdr_def split: option.splits)

lemma hush_ret_on_sock: "(\<And>b. hush_ret (f b)) \<Longrightarrow> hush_ret (on_sock q f)"
  by (auto simp: hush_ret_def on_sock_def split: option.splits)

lemma hush_ret_on_conn: "(\<And>c. hush_ret (f c)) \<Longrightarrow> hush_ret (on_conn p f)"
  by (auto simp: hush_ret_def on_conn_def split: option.splits)

lemma hush_case_option: "hush f \<Longrightarrow> (\<And>x. hush (g x)) \<Longrightarrow> hush (case z of None \<Rightarrow> f | Some x \<Rightarrow> g x)"
  by (cases z) simp_all

lemma hush_case_option_app:
  "hush f \<Longrightarrow> (\<And>x. hush (g x)) \<Longrightarrow> hush (\<lambda>w. case z of None \<Rightarrow> f w | Some x \<Rightarrow> g x w)"
  by (cases z) simp_all

text \<open>The loops over lists.\<close>

lemma hush_foreach:
  assumes "\<And>x. hush (f x)"
  shows "hush (\<lambda>w. ends (LL_FOREACH nxt heap (\<lambda>p w. bind_res (f p w) (\<lambda>w'. Inr (False, w'))) p w))"
proof (rule hushI)
  fix w w' assume "ends (LL_FOREACH nxt heap (\<lambda>p w. bind_res (f p w) (\<lambda>w'. Inr (False, w'))) p w) = Inr w'"
  then have run: "LL_FOREACH nxt heap (\<lambda>p w. bind_res (f p w) (\<lambda>w'. Inr (False, w'))) p w = Some (Inr w')"
    by (simp add: ends_def split: option.splits)
  have "hushed w v \<Longrightarrow> bind_res (f x v) (\<lambda>w'. Inr (False, w')) = Inr (b, v') \<Longrightarrow> hushed w v'" for x v b v'
    using hushD [OF assms] hushed_trans by (auto simp: bind_res_Inr_iff)
  with LL_FOREACH_invariant [OF run, of "hushed w"] show "hushed w w'" using hushed_refl by blast
qed

subsection \<open>Buffered sockets and connections\<close>

lemma hush_ev_io [hush_rules]:
  "hush (ev_io_start_read q)" "hush (ev_io_start_write q)" "hush (ev_io_stop_read q)" "hush (ev_io_stop_write q)"
  by (simp_all add: ev_io_start_read_def ev_io_start_write_def ev_io_stop_read_def ev_io_stop_write_def
      hush_on_sock hush_case_option hush_fail hush_emit)

lemma hush_invoke: "(\<And>k q p. hush (call k q p)) \<Longrightarrow> hush (invoke call sel q)"
  unfolding invoke_def by (intro hush_on_sock hush_case_option hush_Inr)

lemmas hush_simps = hush_block hush_emit hush_on_sock hush_on_conn hush_on_rdr hush_invoke
  hush_case_option

lemma hush_close: "(\<And>k q p. hush (call k q p)) \<Longrightarrow> hush (buffered_socket_close call q)"
  unfolding buffered_socket_close_def
  by (intro hush_on_sock hush_if hush_Inr hush_block) (simp add: hush_rules hush_simps del: block.simps)

lemma hush_io_error: "(\<And>k q p. hush (call k q p)) \<Longrightarrow> hush (io_error call q)"
  unfolding io_error_def by (intro hush_block) (simp add: hush_invoke hush_close)

lemma hush_connect_cb:
  "(\<And>k q p. hush (call k q p)) \<Longrightarrow> hush (buffered_socket_connect_cb call env q)"
  unfolding buffered_socket_connect_cb_def
  by (intro hush_on_sock hush_if hush_close hush_block) (simp_all add: hush_rules hush_simps hush_close del: block.simps)

lemma hush_ret_sock_connect: "hush_ret (buffered_socket_connect env q)"
proof -
  have give: "hush_ret (\<lambda>w. bind_res (block fs w) (\<lambda>w'. Inr (n, w')))"
    if "list_all hush fs" for fs and n :: int
    using that by (intro hush_then_ret hush_block hush_ret_Inr)
  show ?thesis
    unfolding buffered_socket_connect_def Let_def
    by (intro hush_ret_on_sock hush_ret_if_app hush_ret_Inr give) (simp_all add: hush_rules hush_simps)
qed

lemma hush_ret_write: "hush_ret (buffered_socket_write src len q)"
  unfolding buffered_socket_write_def
  by (intro hush_ret_on_sock hush_ret_if_app hush_ret_pure hush_then_ret hush_block hush_ret_Inr)
    (simp add: hush_rules hush_simps)

lemma hush_read_bytes [hush_rules]: "hush (buffered_socket_read_bytes n k arg q)"
  unfolding buffered_socket_read_bytes_def
  by (intro hush_on_sock hush_block) (simp add: hush_rules hush_simps)

lemma hush_read_bytes_cb:
  "(\<And>k q p. hush (call k q p)) \<Longrightarrow> hush (buffered_socket_read_bytes_cb call q)"
  unfolding buffered_socket_read_bytes_cb_def
  by (intro hush_on_sock hush_block) (simp add: hush_rules hush_simps)

lemma hush_case_prod: "(\<And>a b. hush (f a b)) \<Longrightarrow> hush (\<lambda>w. case x of (a, b) \<Rightarrow> f a b w)"
  by (cases x) simp

lemma hush_read_cb: "(\<And>k q p. hush (call k q p)) \<Longrightarrow> hush (buffered_socket_read_cb call env q)"
  unfolding buffered_socket_read_cb_def
  by (intro hush_on_sock hush_bind hush_case_prod hush_block)
    (simp add: hush_rules hush_simps hush_io_error del: block.simps)

lemma hush_write_cb: "(\<And>k q p. hush (call k q p)) \<Longrightarrow> hush (buffered_socket_write_cb call send q)"
  unfolding buffered_socket_write_cb_def
  by (intro hush_on_sock hush_bind hush_case_prod hush_block)
    (simp add: hush_rules hush_simps hush_io_error del: block.simps)

lemma hush_sock_write [hush_rules]: "hush (sock_write src len q)"
  unfolding sock_write_def by (intro hush_ret_bind hush_ret_write hush_Inr)

lemma hush_reset [hush_rules]: "hush (reset_command_buf p)"
  unfolding reset_command_buf_def by (rule hush_upd_conn)

lemma hush_write_command [hush_rules]: "hush (write_command f p)"
  unfolding write_command_def by (intro hush_on_conn hush_bind hush_upd_conn)

lemma hush_flush [hush_rules]: "hush (flush_command_buf p)"
proof -
  have "hush_ret (\<lambda>w. bind_res (buffered_socket_write_buffer cb q w) (\<lambda>(n, cb, w'). Inr ((n, cb), w')))" for cb q
    unfolding buffered_socket_write_buffer_def Let_def
    by (rule hush_retI) (auto simp: bind_res_Inr_iff hushed_refl split: if_splits dest: hush_retD [OF hush_ret_write])
  then have "hush (\<lambda>w. bind_res (bind_res (buffered_socket_write_buffer cb q w) (\<lambda>(n, cb, w'). Inr ((n, cb), w')))
      (\<lambda>(x, w'). upd_conn p (command_buf_update (\<lambda>_. snd x)) w'))" for cb q
    by (intro hush_ret_bind hush_upd_conn)
  then show ?thesis
    unfolding flush_command_buf_def by (intro hush_on_conn) (simp add: bind_res_assoc split_def)
qed

lemma hush_read_size [hush_rules]: "hush (nsqd_connection_read_size q p)"
  unfolding nsqd_connection_read_size_def Let_def
  by (intro hush_on_sock hush_block) (simp add: hush_rules hush_simps hush_bind)

text \<open>The callbacks of the application do not touch the HTTP client.\<close>

definition app_hush :: "application \<Rightarrow> bool" where
  "app_hush app \<longleftrightarrow> (\<forall>f. app_connect app = Some f \<longrightarrow> (\<forall>p. hush (f p)))
     \<and> (\<forall>f. app_close app = Some f \<longrightarrow> (\<forall>p. hush (f p)))
     \<and> (\<forall>f. app_msg app = Some f \<longrightarrow> (\<forall>p m. hush (f p m)))"

lemma hush_msg_cb: "app_hush app \<Longrightarrow> hush (nsq_reader_msg_cb app p m)"
  by (cases "app_msg app")
    (simp_all add: nsq_reader_msg_cb_def app_hush_def hush_rules hush_on_rdr hush_simps del: block.simps)

lemma hush_handle_frame: "app_hush app \<Longrightarrow> hush (handle_frame (reader_cc app) q p)"
  unfolding handle_frame_def reader_cc_def
  by (intro hush_on_conn hush_on_sock hush_if_app hush_bind hush_Inr hush_block)
    (simp_all add: hush_rules hush_simps hush_msg_cb del: block.simps)

lemma hush_read_data: "app_hush app \<Longrightarrow> hush (nsqd_connection_read_data (reader_cc app) q p)"
  unfolding nsqd_connection_read_data_def
  by (intro hush_block) (simp add: hush_rules hush_simps hush_bind hush_handle_frame)

lemma hush_stop_timer [hush_rules]: "hush (nsqd_connection_stop_timer p)"
  unfolding nsqd_connection_stop_timer_def
  by (intro hush_if hush_Inr hush_on_conn) (auto simp: hush_rules hush_simps hush_fail simp del: block.simps split: timer_ptr.split)

lemma hush_init_timer [hush_rules]: "hush (nsqd_connection_init_timer p)"
  by (simp add: nsqd_connection_init_timer_def hush_rules hush_simps)

lemma hush_free_sock [hush_rules]: "hush (free_buffered_socket q)"
  by (auto simp: hush_def hushed_def free_buffered_socket_def split: option.splits)

lemma hush_free_conn [hush_rules]: "hush (free_nsqd_connection p)"
proof -
  have "hush (\<lambda>w. Inr (w\<lparr>conns := (conns w)(p := None)\<rparr>))" by (simp add: hush_def hushed_def)
  then show ?thesis
    unfolding free_nsqd_connection_def
    by (intro hush_if hush_Inr hush_block) (simp add: hush_rules hush_simps)
qed

lemma hush_lists [hush_rules]: "hush (append_conn p)" "hush (delete_conn p)" "hush (append_endpoint e)"
  unfolding append_conn_def delete_conn_def append_endpoint_def
  by (intro hush_on_rdr hush_bind hush_case_prod; simp add: hush_def hushed_def)+

lemma hush_timer_again [hush_rules]: "hush (ev_timer_again_reconnect p)"
  unfolding ev_timer_again_reconnect_def
  by (intro hush_on_conn) (simp add: hush_fail hush_emit split: timer_ptr.split)

lemma hush_user:
  "(\<And>f. x = Some f \<Longrightarrow> hush (f p)) \<Longrightarrow> \<not> http_entry e \<Longrightarrow>
    hush (case x of None \<Rightarrow> Inr | Some f \<Rightarrow> block [emit e, f p])"
  by (cases x) (simp_all add: hush_rules hush_block hush_emit del: block.simps)

lemma hush_reader_connect:
  assumes app: "app_hush app" shows "hush (nsq_reader_connect_cb app p)"
proof -
  have "hush (case app_connect app of None \<Rightarrow> Inr | Some f \<Rightarrow> block [emit (User_connect p), f p])"
    using app by (intro hush_user) (simp_all add: app_hush_def)
  then show ?thesis
    unfolding nsq_reader_connect_cb_def by (intro hush_block) (simp add: hush_rules hush_on_rdr)
qed

lemma hush_reader_close:
  assumes app: "app_hush app" shows "hush (nsq_reader_close_cb app p)"
proof -
  have "hush (case app_close app of None \<Rightarrow> Inr | Some f \<Rightarrow> block [emit (User_close p), f p])"
    using app by (intro hush_user) (simp_all add: app_hush_def)
  then show ?thesis
    unfolding nsq_reader_close_cb_def by (intro hush_block) (simp add: hush_rules hush_on_rdr)
qed

lemma hush_nsqd_call:
  assumes app: "app_hush app" shows "hush (nsqd_call (reader_cc app) k q p)"
proof (cases k)
  case Nsqd_connect_cb
  show ?thesis
    unfolding Nsqd_connect_cb nsqd_call.simps nsqd_connection_connect_cb_def
    by (intro hush_block)
      (simp add: hush_rules hush_on_conn reader_cc_def hush_reader_connect [OF app] del: block.simps)
next
  case Nsqd_close_cb
  show ?thesis
    by (simp add: Nsqd_close_cb nsqd_connection_close_cb_def reader_cc_def hush_on_conn hush_reader_close [OF app])
qed (simp_all add: nsqd_connection_error_cb_def hush_rules hush_read_data [OF app])

subsection \<open>The reader and the lookupd client\<close>

lemma hush_ret_new_conn: "hush_ret (new_nsqd_connection address port)"
  by (auto simp: hush_ret_def hushed_def new_nsqd_connection_def new_buffered_socket_def Let_def on_rdr_def
      split: option.splits)

lemma hush_ret_connect_to: "hush_ret (nsq_reader_connect_to_nsqd net address port)"
proof -
  have "hush_ret (nsqd_connection_connect env p)" for env p
    unfolding nsqd_connection_connect_def by (intro hush_ret_on_conn hush_ret_sock_connect)
  then show ?thesis
    unfolding nsq_reader_connect_to_nsqd_def
    by (intro hush_ret_then hush_ret_new_conn hush_then_ret hush_if_app hush_Inr hush_ret_Inr hush_on_rdr)
      (simp_all add: hush_rules)
qed

lemma hush_connect_to [hush_rules]:
  "hush (\<lambda>w. bind_res (nsq_reader_connect_to_nsqd net address port w) (\<lambda>(rc, w1). Inr w1))"
  by (intro hush_ret_bind hush_ret_connect_to hush_Inr)

lemma hush_reconnect [hush_rules]: "hush (nsq_reader_reconnect_cb net p)"
  unfolding nsq_reader_reconnect_cb_def
  by (intro hush_block) (simp add: hush_rules hush_on_conn hush_on_rdr hush_if_app)

lemma hush_foreach_conn: "(\<And>p. hush (f p)) \<Longrightarrow> hush (foreach_conn f)"
  unfolding foreach_conn_def by (intro hush_on_rdr hush_foreach)

lemma hush_ret_add_endpoint: "hush_ret (nsq_reader_add_nsqlookupd_endpoint address port)"
proof -
  have "hush (on_rdr (\<lambda>r. if lookupd_head r = 0 then
          block [foreach_conn nsqd_connection_stop_timer, emit (Ev_timer_again Lookupd_poll_timer)] else Inr))"
    by (intro hush_on_rdr hush_if hush_Inr hush_block) (simp add: hush_rules hush_foreach_conn hush_emit)
  moreover have "hush_ret (\<lambda>w1. let (e, w2) = new_nsqlookupd_endpoint address port w1 in
          bind_res (append_endpoint e w2) (\<lambda>w3. Inr (1 :: int, w3)))"
  proof (rule hush_retI)
    fix w x w' assume "(let (e, w2) = new_nsqlookupd_endpoint address port w in
          bind_res (append_endpoint e w2) (\<lambda>w3. Inr (1 :: int, w3))) = Inr (x, w')"
    then obtain e w2 where "(e, w2) = new_nsqlookupd_endpoint address port w" "append_endpoint e w2 = Inr w'"
      by (auto simp: bind_res_Inr_iff split: prod.splits)
    moreover have "hushed w w2" if "(e, w2) = new_nsqlookupd_endpoint address port w"
      using that by (auto simp: new_nsqlookupd_endpoint_def hushed_def Let_def)
    ultimately show "hushed w w'" using hushD [OF hush_lists(3)] hushed_trans by blast
  qed
  ultimately show ?thesis
    unfolding nsq_reader_add_nsqlookupd_endpoint_def by (intro hush_then_ret)
qed

lemma hush_free_http [hush_rules]: "hush (free_http_response p)" "hush (free_http_request r)"
proof -
  show "hush (free_http_response p)"
    by (auto simp: hush_def hushed_def free_http_response_def split: option.splits if_splits)
  have "hush (\<lambda>w. Inr (w\<lparr>reqs := (reqs w)(r := None)\<rparr>))" by (simp add: hush_def hushed_def)
  then show "hush (free_http_request r)"
    unfolding free_http_request_def
    by (intro hush_if hush_Inr hush_on_req hush_fail hush_block) (simp add: hush_emit)
qed

lemma hush_ret_request: "hush_ret (new_http_request easy url)"
  by (auto simp: hush_ret_def hushed_def new_http_request_def Let_def split: if_splits)

lemma hush_ret_response: "hush_ret (new_http_response code r)"
  by (auto simp: hush_ret_def hushed_def new_http_response_def Let_def)

lemma hush_producer [hush_rules]: "hush (lookupd_producer lib net producer)"
  unfolding lookupd_producer_def Let_def
  by (intro hush_bind hush_if_app hush_case_option_app hush_Inr hush_fail hush_connect_to)

lemma hush_request_cb: "hush (nsq_lookupd_request_cb lib net req resp)"
proof (rule hushI)
  fix w w' assume run: "nsq_lookupd_request_cb lib net req resp w = Inr w'"
  have all: "hush (block (map (\<lambda>i. lookupd_producer lib net (json_array_get lib producers i)) is
      @ [free_http_response resp, free_http_request req]))" for producers "is"
    by (intro hush_block) (simp add: list_all_iff hush_rules)
  have ok: "hush (on_req r (\<lambda>rq w.
      bind_res (mem_read (orig (req_data rq)) (data (req_data rq)) (BUFFER_HAS_DATA (req_data rq))) (\<lambda>text.
        (case json_loadb lib text of None \<Rightarrow> Inr w
         | Some jsobj \<Rightarrow> (case json_object_get lib (Some jsobj) (bytes_of ''producers'') of None \<Rightarrow> Inr w
           | Some producers \<Rightarrow> block (map (\<lambda>i. lookupd_producer lib net (json_array_get lib producers i))
                 [0..<json_array_length lib producers]
               @ [free_http_response resp, free_http_request req]) w)))))" for r
    by (intro hush_on_req hush_bind hush_case_option_app hush_Inr all)
  have free: "hush (block [free_http_response resp, free_http_request req])"
    by (intro hush_block) (simp add: hush_rules)
  obtain x where "resps w resp = Some x"
    using run by (auto simp: nsq_lookupd_request_cb_def split: option.splits)
  then show "hushed w w'"
    using run hushD [OF ok [of "resp_data x"]] hushD [OF free]
    by (simp add: nsq_lookupd_request_cb_def del: block.simps split: if_splits)
qed

subsection \<open>The invariant of the watchers\<close>

definition http_ok :: "nsq_world \<Rightarrow> bool" where
  "http_ok w \<longleftrightarrow> 0 < brk w \<and> http_socks w 0 = None \<and> (\<forall>s. brk w \<le> s \<longrightarrow> http_socks w s = None)
     \<and> (\<forall>s x. http_socks w s = Some x \<longrightarrow> evset x)
     \<and> (\<forall>s. io_on (Http_io s) (calls w) = map_option sockfd (http_socks w s))"

lemma http_ok_active: "http_ok w \<Longrightarrow> io_active (Http_io s) (calls w) \<longleftrightarrow> http_socks w s \<noteq> None"
  by (simp add: http_ok_def io_active_on)

definition ends_ok :: "nsq_world \<Rightarrow> fault + nsq_world \<Rightarrow> bool" where
  "ends_ok w r \<longleftrightarrow> (http_ok w \<longrightarrow> (\<forall>w'. r = Inr w' \<longrightarrow> http_ok w'))"

lemma hushed_ok: "hushed w w' \<Longrightarrow> http_ok w \<Longrightarrow> http_ok w'"
  by (simp add: hushed_def http_ok_def)

lemma ends_ok_hush: "hush f \<Longrightarrow> ends_ok w (f w)"
  unfolding ends_ok_def using hushD hushed_ok by blast

lemma ends_ok_emit: "\<not> http_entry c \<Longrightarrow> ends_ok w (emit c w)"
  by (rule ends_ok_hush [OF hush_emit])

lemma ends_ok_bind:
  assumes "ends_ok w m" and "\<And>w1. ends_ok w1 (f w1)" shows "ends_ok w (bind_res m f)"
  using assms unfolding ends_ok_def by (cases m) auto

lemma start_socket_ok:
  assumes run: "start_http_socket s what sock w = Inr w'" and x: "http_socks w sock = Some x"
    and ok: "0 < brk w" "sock \<noteq> 0" "sock < brk w" "http_socks w 0 = None"
      "\<forall>s. brk w \<le> s \<longrightarrow> http_socks w s = None" "\<forall>s x. s \<noteq> sock \<longrightarrow> http_socks w s = Some x \<longrightarrow> evset x"
      "\<forall>s. s \<noteq> sock \<longrightarrow> io_on (Http_io s) (calls w) = map_option sockfd (http_socks w s)"
  shows "http_ok w'"
proof -
  let ?y = "\<lparr>sockfd = s, action = what, ev_kind = poll_kind what, evset = True\<rparr>"
  define w1 where "w1 = (if evset x then w\<lparr>calls := Ev_io_stop (Http_io sock) # calls w\<rparr> else w)"
  have w': "w' = w1\<lparr>http_socks := (http_socks w1)(sock \<mapsto> ?y), calls := Ev_io_start (Http_io sock) s # calls w1\<rparr>"
    using run x by (auto simp: start_http_socket_def emit_def w1_def split: if_splits)
  have act: "io_on (Http_io t) (calls w1) = io_on (Http_io t) (calls w)" if "t \<noteq> sock" for t
    using that by (simp add: w1_def)
  show ?thesis
    using ok act by (auto simp: http_ok_def w' w1_def)
qed

lemma sock_cb_ok: "ends_ok w (sock_cb s what sock w)"
  unfolding ends_ok_def
proof (intro impI allI)
  fix w' assume ok: "http_ok w" and run: "sock_cb s what sock w = Inr w'"
  consider (remove) "what = 4" | (new) "what \<noteq> 4" "sock = 0" | (old) "what \<noteq> 4" "sock \<noteq> 0" by blast
  then show "http_ok w'"
  proof cases
    case remove
    then show ?thesis
      using run ok
      by (auto simp: sock_cb_def http_ok_def emit_def split: if_splits option.splits)
  next
    case new
    let ?w1 = "w\<lparr>brk := brk w + 1, http_socks := (http_socks w)(brk w \<mapsto>
        \<lparr>sockfd = 0, action = 0, ev_kind = 0, evset = False\<rparr>)\<rparr>"
    obtain w2 where w2: "start_http_socket s what (brk w) ?w1 = Inr w2"
        "w' = w2\<lparr>calls := Curl_multi_assign s (brk w) # calls w2\<rparr>"
      using run new by (auto simp: sock_cb_def Let_def bind_res_Inr_iff emit_def)
    have "http_ok w2"
      using ok by (intro start_socket_ok [OF w2(1)]) (auto simp: http_ok_def)
    then show ?thesis by (simp add: w2(2) http_ok_def)
  next
    case old
    then have r: "start_http_socket s what sock w = Inr w'" using run by (simp add: sock_cb_def)
    then obtain x where "http_socks w sock = Some x"
      by (auto simp: start_http_socket_def split: option.splits)
    moreover from this have "sock < brk w" using ok by (auto simp: http_ok_def not_less [symmetric])
    ultimately show ?thesis using ok old by (intro start_socket_ok [OF r]) (auto simp: http_ok_def)
  qed
qed

lemma hush_write_cb_http: "hush (write_cb r src sz nmemb)"
  unfolding write_cb_def Let_def by (intro hush_on_req hush_bind hush_upd_req)

lemma hush_check_multi_info:
  assumes "\<And>r p. hush (hcall r p)" shows "hush (check_multi_info hcall ms)"
proof (induction ms)
  case Nil
  show ?case by (simp add: hush_def hushed_refl)
next
  case (Cons m ms)
  show ?case
  proof (cases m)
    case (Curl_done r code)
    have "hush (\<lambda>w. bind_res
        (on_req r (\<lambda>x w. bind_res (new_http_response code r w) (\<lambda>(p, w1). hcall r p w1)) w)
        (check_multi_info hcall ms))"
      using assms Cons by (intro hush_seq hush_on_req hush_ret_bind hush_ret_response)
    then show ?thesis by (simp add: hush_def Curl_done)
  next
    case Curl_other_msg
    then show ?thesis using Cons by (simp add: hush_def)
  qed
qed

lemma curl_ok:
  "(\<forall>r p. hush (hcall r p)) \<longrightarrow> ends_ok w (curl_callback hcall c w)"
  "(\<forall>r p. hush (hcall r p)) \<longrightarrow> ends_ok w (curl_callbacks hcall cs w)"
  "(\<forall>r p. hush (hcall r p)) \<longrightarrow> ends_ok w (multi_timer_cb hcall ms run w)"
  "(\<forall>r p. hush (hcall r p)) \<longrightarrow> ends_ok w (timer_cb hcall run w)"
proof (induction hcall c w and hcall cs w and hcall ms run w and hcall run w
    rule: curl_callback_curl_callbacks_multi_timer_cb_timer_cb.induct)
  case (1 hcall r src sz nmemb w)
  show ?case using ends_ok_hush [OF hush_write_cb_http] by simp
next
  case (2 hcall s what sock w)
  show ?case using sock_cb_ok by simp
next
  case (3 hcall timeout_ms run w)
  then show ?case by simp
next
  case (4 hcall timeout_ms run w)
  have "hush (block [emit (Ev_timer_set Http_timer (timeout_ms div 1000)),
      emit (Ev_timer_start Http_timer)])"
    by (intro hush_block) (simp add: hush_emit)
  from ends_ok_hush [OF this] 4 show ?case
    by (cases "0 < timeout_ms") (auto intro!: ends_ok_bind ends_ok_emit simp del: block.simps)
next
  case (5 hcall w)
  show ?case using ends_ok_hush [OF hush_Inr] by simp
next
  case (6 hcall c cs w)
  then show ?case by (auto intro!: ends_ok_bind)
next
  case (7 hcall cs ms w)
  then show ?case
    by (auto intro!: ends_ok_bind ends_ok_emit ends_ok_hush [OF hush_check_multi_info])
qed

lemma event_cb_ok:
  assumes "\<And>r p. hush (hcall r p)" shows "ends_ok w (event_cb hcall f revents run w)"
proof (cases run)
  case (Curl_run cs ms)
  have "ends_ok v (curl_callbacks hcall cs v)" for v using curl_ok(2) assms by blast
  then show ?thesis
    using assms by (auto simp: Curl_run intro!: ends_ok_bind ends_ok_emit ends_ok_hush [OF hush_check_multi_info])
qed

lemma send_lookup_ok: "ends_ok w (send_lookup lib net env el w)"
proof -
  have cs: "ends_ok v (curl_callbacks (nsq_lookupd_request_cb lib net) cs v)" for cs v
    using curl_ok(2) hush_request_cb by blast
  have get: "ends_ok v (bind_res (http_client_get (nsq_lookupd_request_cb lib net) ok cs r v) (\<lambda>(rc, w'). Inr w'))"
    for ok cs r v
  proof (cases ok)
    case True
    then have "bind_res (http_client_get (nsq_lookupd_request_cb lib net) ok cs r v) (\<lambda>(rc, w'). Inr w')
        = bind_res (upd_req r (req_has_httpc_update (\<lambda>_. True)) v) (\<lambda>w1.
            bind_res (emit (Curl_add_handle r) w1) (curl_callbacks (nsq_lookupd_request_cb lib net) cs))"
      by (simp add: http_client_get_def bind_res_assoc)
    then show ?thesis by (simp add: ends_ok_bind ends_ok_hush [OF hush_upd_req] ends_ok_emit cs)
  next
    case False
    then show ?thesis
      by (simp add: http_client_get_def bind_res_assoc ends_ok_bind ends_ok_hush [OF hush_upd_req]
          ends_ok_hush [OF hush_Inr])
  qed
  show ?thesis
    unfolding ends_ok_def
  proof (intro impI allI)
    fix w' assume ok: "http_ok w" and run: "send_lookup lib net env el w = Inr w'"
    then obtain req v url where v: "new_http_request (easy_init_ok env) url w = Inr (req, v)"
      "bind_res (http_client_get (nsq_lookupd_request_cb lib net) (add_handle_ok env) (add_handle_calls env) req v)
        (\<lambda>(rc, w'). Inr w') = Inr w'"
      by (auto simp: send_lookup_def on_rdr_def Let_def bind_res_Inr_iff split: option.splits if_splits)
    have "http_ok v" using hush_retD [OF hush_ret_request v(1)] ok by (rule hushed_ok)
    then show "http_ok w'" using get v(2) unfolding ends_ok_def by blast
  qed
qed

lemma poll_cb_ok: "ends_ok w (nsq_reader_lookupd_poll_cb lib net env w)"
proof -
  let ?body = "\<lambda>count el (i, w). if i = rand_ret env mod count
      then bind_res (send_lookup lib net env el w) (\<lambda>w'. Inr (True, (i + 1, w')))
      else Inr (False, (i + 1, w))"
  have sl: "http_ok v \<Longrightarrow> send_lookup lib net env el v = Inr v' \<Longrightarrow> http_ok v'" for el v v'
    using send_lookup_ok [of v lib net env el] by (simp add: ends_ok_def)
  have loop: "http_ok w'"
    if run: "ends (LL_FOREACH ep_next (\<lambda>(i, w). endpoints w) (?body count) p (0, w)) = Inr (i, w')" and ok: "http_ok w"
    for count p i w'
  proof -
    from run have run': "LL_FOREACH ep_next (\<lambda>(i, w). endpoints w) (?body count) p (0, w) = Some (Inr (i, w'))"
      by (simp add: ends_def split: option.splits)
    have "http_ok (snd v) \<Longrightarrow> ?body count el v = Inr (b, v') \<Longrightarrow> http_ok (snd v')" for el v b v'
      by (auto dest: sl simp: bind_res_Inr_iff split: if_splits prod.splits)
    with LL_FOREACH_invariant [OF run', of "\<lambda>v. http_ok (snd v)"] show ?thesis
      using ok by fastforce
  qed
  show ?thesis
    unfolding ends_ok_def
  proof (intro impI allI)
    fix w' assume ok: "http_ok w" and "nsq_reader_lookupd_poll_cb lib net env w = Inr w'"
    then obtain w1 where "w' = w1\<lparr>calls := Ev_timer_again Lookupd_poll_timer # calls w1\<rparr>" "http_ok w1"
      using loop
      by (auto simp: nsq_reader_lookupd_poll_cb_def on_rdr_def emit_def bind_res_Inr_iff split: option.splits if_splits)
    then show "http_ok w'" by (simp add: http_ok_def)
  qed
qed

subsection \<open>Every event keeps it\<close>

lemma handle_http_ok:
  assumes app: "app_hush app" shows "ends_ok w (handle app lib net ev w)"
proof (cases ev)
  case (Read_bytes_due q)
  have "hush (block [emit (Timer_expired (Read_bytes_timer q)),
      buffered_socket_read_bytes_cb (nsqd_call (reader_cc app)) q])"
    by (intro hush_block) (simp add: hush_emit hush_read_bytes_cb hush_nsqd_call [OF app])
  from ends_ok_hush [OF this] show ?thesis unfolding Read_bytes_due handle.simps .
next
  case (Connect_done q env)
  have "hush (block [emit (Once_fired q), buffered_socket_connect_cb (nsqd_call (reader_cc app)) env q])"
    by (intro hush_block) (simp add: hush_emit hush_connect_cb hush_nsqd_call [OF app])
  from ends_ok_hush [OF this] show ?thesis unfolding Connect_done handle.simps .
next
  case (Lookupd_poll_due env)
  then show ?thesis using poll_cb_ok by simp
next
  case (Http_timer_due run)
  have "\<forall>r p. hush (nsq_lookupd_request_cb lib net r p)" using hush_request_cb by blast
  then have "ends_ok v (timer_cb (nsq_lookupd_request_cb lib net) run v)" for v using curl_ok(4) by blast
  then have "ends_ok w (bind_res (emit (Timer_expired Http_timer) w) (timer_cb (nsq_lookupd_request_cb lib net) run))"
    by (intro ends_ok_bind ends_ok_emit) simp
  then show ?thesis by (simp add: Http_timer_due)
next
  case (Http_ready s revents run)
  show ?thesis
  proof (cases "http_socks w s")
    case None
    then show ?thesis by (simp add: Http_ready ends_ok_def)
  next
    case (Some x)
    then show ?thesis using event_cb_ok [OF hush_request_cb] by (simp add: Http_ready)
  qed
qed (simp_all add: ends_ok_hush hush_rules hush_read_cb hush_write_cb hush_nsqd_call [OF app]
)

lemma reachable_http_ok:
  assumes "app_hush app" and "reachable app lib net w" shows "http_ok w"
  using assms(2)
proof (induction rule: reachable.induct)
  case (enter c t ch j ops w)
  have op: "hush (startup_op net op)" for op
  proof (cases op)
    case (Add_lookupd a port)
    have "hush (\<lambda>w. bind_res (nsq_reader_add_nsqlookupd_endpoint a port w) (\<lambda>(rc, w'). Inr w'))"
      by (intro hush_ret_bind hush_ret_add_endpoint hush_Inr)
    then show ?thesis by (simp add: Add_lookupd hush_def)
  next
    case (Connect_to a port)
    show ?thesis using hush_connect_to [of net a port] by (simp add: Connect_to hush_def)
  qed
  obtain w0 where w0: "new_nsq_reader t ch c (empty_world j) = Inr w0"
      and ops: "block (map (startup_op net) ops) w0 = Inr w"
    using enter(4) by (auto simp: main_def bind_res_Inr_iff)
  have "http_ok w0" using w0
    by (auto simp: new_nsq_reader_def new_http_client_calls http_ok_def empty_world_def)
  moreover have blk: "hush (block (map (startup_op net) ops))"
    by (intro hush_block) (simp add: list_all_iff op)
  ultimately show ?case
    using hushD [where f = "block (map (startup_op net) ops)", OF blk ops] hushed_ok by blast
next
  case (loop w ev w')
  then show ?case using handle_http_ok [OF assms(1)] unfolding ends_ok_def by (simp add: step_simps) blast
qed

lemma app_hush_test: "app_hush test_app"
  unfolding test_app_def app_hush_def message_handler_def
  by (auto intro!: hush_block simp: hush_rules hush_on_rdr simp del: block.simps)

subsection \<open>Properties\<close>

text \<open>
  What libcurl may ask of \<^verbatim>\<open>sock_cb\<close>: a descriptor, what to wait for (\<^verbatim>\<open>CURL_POLL_NONE\<close> is 0,
  \<^verbatim>\<open>IN\<close> 1, \<^verbatim>\<open>OUT\<close> 2, \<^verbatim>\<open>INOUT\<close> 3, \<^verbatim>\<open>REMOVE\<close> 4), and the pointer that was assigned to the descriptor,
  null if there is none. The specification keeps, for each pointer that is assigned, the
  descriptor and the events to wait for, the next pointer, and the assignments that were reported.
\<close>

type_synonym ask = "int \<times> int \<times> ptr"

type_synonym watch_state = "ptr \<times> (ptr \<Rightarrow> (int \<times> nat) option) \<times> (int \<times> ptr) list"

fun watch_for :: "ask \<Rightarrow> watch_state \<Rightarrow> watch_state" where
  "watch_for (f, what, p) (next, m, as) =
     (if what = 4 then (next, m(p := None), as)
      else if p = 0 then (next + 1, m(next \<mapsto> (f, nat what)), (f, next) # as)
      else (next, m(p \<mapsto> (f, nat what)), as))"

fun asks_ok :: "ask list \<Rightarrow> watch_state \<Rightarrow> bool" where
  "asks_ok [] st \<longleftrightarrow> True"
| "asks_ok ((f, what, p) # asks) st \<longleftrightarrow> what \<in> {0, 1, 2, 3, 4} \<and> (p = 0 \<or> fst (snd st) p \<noteq> None)
     \<and> asks_ok asks (watch_for (f, what, p) st)"

fun socket_call :: "ask \<Rightarrow> curl_call" where
  "socket_call (f, what, p) = Curl_socket f what p"

fun assigned :: "ext_call list \<Rightarrow> (int \<times> ptr) list" where
  "assigned [] = []"
| "assigned (c # cs) = (case c of Curl_multi_assign f p \<Rightarrow> (f, p) # assigned cs | _ \<Rightarrow> assigned cs)"

definition watched :: "nsq_world \<Rightarrow> watch_state" where
  "watched w = (brk w, \<lambda>p. map_option (\<lambda>x. (sockfd x, ev_kind x)) (http_socks w p), assigned (calls w))"

lemma poll_kind_nat: "what \<in> {0, 1, 2, 3} \<Longrightarrow> poll_kind what = nat what"
  by (auto simp: poll_kind_def)

lemma start_socket_run:
  assumes "http_socks w p = Some x"
  shows "\<exists>cs. start_http_socket f what p w = Inr (w\<lparr>calls := cs @ calls w,
      http_socks := (http_socks w)(p \<mapsto> \<lparr>sockfd = f, action = what, ev_kind = poll_kind what, evset = True\<rparr>)\<rparr>)
    \<and> assigned (cs @ calls w) = assigned (calls w)"
  using assms
  by (intro exI [of _ "Ev_io_start (Http_io p) f # (if evset x then [Ev_io_stop (Http_io p)] else [])"])
    (simp add: start_http_socket_def emit_def)

lemma sock_cb_watches:
  assumes h: "http_ok w" and ask: "asks_ok [(f, what, p)] (watched w)"
  shows "\<exists>w'. sock_cb f what p w = Inr w' \<and> http_ok w' \<and> watched w' = watch_for (f, what, p) (watched w)"
proof -
  have p: "p = 0 \<or> (\<exists>x. http_socks w p = Some x)" using ask by (auto simp: watched_def)
  have "\<exists>w'. sock_cb f what p w = Inr w' \<and> watched w' = watch_for (f, what, p) (watched w)"
  proof (cases "what = 4")
    case True
    have "http_socks w 0 = None" using h by (simp add: http_ok_def)
    then show ?thesis using True p by (auto simp: sock_cb_def watched_def emit_def fun_eq_iff)
  next
    case False
    then have k: "poll_kind what = nat what" using ask by (intro poll_kind_nat) auto
    show ?thesis
    proof (cases "p = 0")
      case True
      let ?w = "w\<lparr>brk := brk w + 1, http_socks := (http_socks w)(brk w \<mapsto>
          \<lparr>sockfd = 0, action = 0, ev_kind = 0, evset = False\<rparr>)\<rparr>"
      show ?thesis
        using start_socket_run [of ?w "brk w" _ f what] False True k
        by (auto simp: sock_cb_def Let_def emit_def watched_def fun_eq_iff)
    next
      case nonnull: False
      then obtain x where "http_socks w p = Some x" using p by blast
      from start_socket_run [OF this, of f what] show ?thesis
        using False nonnull k by (auto simp: sock_cb_def watched_def fun_eq_iff)
    qed
  qed
  then show ?thesis using sock_cb_ok [of w f what p] h by (auto simp: ends_ok_def)
qed

lemma asks_watched:
  "http_ok w \<Longrightarrow> asks_ok asks (watched w) \<Longrightarrow>
    \<exists>w'. curl_callbacks hcall (map socket_call asks) w = Inr w' \<and> http_ok w' \<and> watched w' = fold watch_for asks (watched w)"
proof (induction asks arbitrary: w)
  case (Cons a asks)
  obtain f what p where a: "a = (f, what, p)" by (cases a)
  obtain w1 where w1: "sock_cb f what p w = Inr w1" "http_ok w1" "watched w1 = watch_for a (watched w)"
    using sock_cb_watches [OF Cons.prems(1), of f what p] Cons.prems(2) a by auto
  then show ?case using Cons.IH [OF w1(2)] Cons.prems(2) a by auto
qed simp

lemma ask_run:
  assumes h: "http_ok w" and ev: "ev = Http_timer_due run \<or> ev = Http_ready s revents run" "enabled ev w"
    and run: "run = Curl_run (map socket_call asks) []" "asks_ok asks (watched w)"
  shows "\<exists>w'. handle app lib net ev w = Inr w' \<and> http_ok w' \<and> watched w' = fold watch_for asks (watched w)"
proof -
  have go: "\<exists>w'. curl_callbacks (nsq_lookupd_request_cb lib net) (map socket_call asks) (w\<lparr>calls := cs @ calls w\<rparr>) = Inr w'
      \<and> http_ok w' \<and> watched w' = fold watch_for asks (watched w)"
    if cs: "\<And>s. io_on (Http_io s) (cs @ calls w) = io_on (Http_io s) (calls w)" "assigned (cs @ calls w) = assigned (calls w)" for cs
  proof -
    have "http_ok (w\<lparr>calls := cs @ calls w\<rparr>)" using h cs(1) by (simp add: http_ok_def)
    moreover have "watched (w\<lparr>calls := cs @ calls w\<rparr>) = watched w" using cs(2) by (simp add: watched_def)
    ultimately show ?thesis using asks_watched [of "w\<lparr>calls := cs @ calls w\<rparr>" asks] run(2) by simp
  qed
  show ?thesis
  proof (cases "ev = Http_timer_due run")
    case True
    then show ?thesis
      using go [of "[Curl_socket_action (-1) 0, Timer_expired Http_timer]"] by (auto simp: run(1) emit_def)
  next
    case False
    then have ready: "ev = Http_ready s revents run" using ev(1) by blast
    then obtain x where x: "http_socks w s = Some x" using ev(2) http_ok_active [OF h, of s] by auto
    show ?thesis
      using go [of "[Curl_socket_action (sockfd x) (int (poll_kind (int revents)))]"] x
      by (auto simp: ready run(1) emit_def)
  qed
qed

text \<open>
  Property C13: libev watches what libcurl asks for. In every reachable state the watchers of the
  HTTP client that libev knows are those of the allocated sockets, each on its descriptor, so its handler
  never runs for one that was freed. And whatever sequence of
  requests libcurl makes of \<^verbatim>\<open>sock_cb\<close> in an event, the sockets are
  afterwards those that it asked for, with the descriptors and the events asked for, the new ones
  were assigned, and libev watches exactly them.
\<close>

theorem http_events_on_live_sockets:
  assumes "app_hush app" and "reachable app lib net w"
  shows "(enabled (Http_ready s revents run) w \<longleftrightarrow> (\<exists>x. http_socks w s = Some x \<and> evset x))
    \<and> io_on (Http_io s) (calls w) = map_option fst (fst (snd (watched w)) s)
    \<and> (asks_ok asks (watched w) \<longrightarrow> enabled ev w
        \<longrightarrow> (\<exists>k. ev \<in> {Http_timer_due (Curl_run (map socket_call asks) []), Http_ready k revents (Curl_run (map socket_call asks) [])})
        \<longrightarrow> (\<exists>w'. handle app lib net ev w = Inr w' \<and> watched w' = fold watch_for asks (watched w)
              \<and> (\<forall>p. io_on (Http_io p) (calls w') = map_option fst (fst (snd (watched w')) p))))"
proof -
  have h: "http_ok w" using reachable_http_ok [OF assms] .
  have on: "io_on (Http_io p) (calls v) = map_option fst (fst (snd (watched v)) p)" if "http_ok v" for v p
    using that by (auto simp: http_ok_def watched_def option.map_comp comp_def)
  have "enabled (Http_ready s revents run) w \<longleftrightarrow> (\<exists>x. http_socks w s = Some x \<and> evset x)"
    using h http_ok_active [OF h, of s] by (auto simp: http_ok_def)
  moreover have "\<exists>w'. handle app lib net ev w = Inr w' \<and> http_ok w' \<and> watched w' = fold watch_for asks (watched w)"
    if "asks_ok asks (watched w)" "enabled ev w"
      "ev \<in> {Http_timer_due (Curl_run (map socket_call asks) []), Http_ready k revents (Curl_run (map socket_call asks) [])}" for k
    using ask_run [OF h _ that(2) refl that(1)] that(3) by blast
  ultimately show ?thesis using on h by blast
qed

text \<open>
  A poll: libcurl wants its timer at once, and when that is served it opens descriptor 9.
\<close>

definition demo_dial :: poll_env where
  "demo_dial = \<lparr>rand_ret = 0, easy_init_ok = True, add_handle_ok = True,
     add_handle_calls = [Curl_timer 0 (Curl_run [Curl_socket 9 1 0] [])]\<rparr>"

lemma demo_lookupd_reachable: "reachable test_app demo_json demo_net demo_lookupd"
proof (rule reachable.enter)
  show "main (\<lambda>_. 0) demo_net [116] [99] None [Add_lookupd [97] 4161] = Inr demo_lookupd"
    by (simp add: main_def demo_created demo_lookupd_added)
qed (simp_all add: cfg_small_def)

lemma demo_polled:
  obtains w where "reachable test_app demo_json demo_net w"
    and "calls w = Ev_timer_again Lookupd_poll_timer # Curl_multi_assign 9 3 # Ev_io_start (Http_io 3) 9
        # Curl_socket_action (- 1) 0 # Ev_timer_stop Http_timer # Curl_add_handle 2 # calls demo_lookupd"
    and "map_option req_has_httpc (reqs w 2) = Some True"
    and "map_option req_data (reqs w 2) = Some (new_buffer (\<lambda>_. 0) 4096 0)"
    and "rdr w = rdr demo_lookupd" and "conns w = conns demo_lookupd"
    and "nsq_reader_lookupd_poll_cb demo_json demo_net demo_dial demo_lookupd = Inr w" and "brk w = 4"
proof -
  obtain w where w: "nsq_reader_lookupd_poll_cb demo_json demo_net demo_dial demo_lookupd = Inr w"
    "calls w = Ev_timer_again Lookupd_poll_timer # Curl_multi_assign 9 3 # Ev_io_start (Http_io 3) 9
        # Curl_socket_action (- 1) 0 # Ev_timer_stop Http_timer # Curl_add_handle 2 # calls demo_lookupd"
    "map_option req_has_httpc (reqs w 2) = Some True"
    "map_option req_data (reqs w 2) = Some (new_buffer (\<lambda>_. 0) 4096 0)"
    "rdr w = rdr demo_lookupd" "conns w = conns demo_lookupd" "brk w = 4"
    by (simp add: nsq_reader_lookupd_poll_cb_def on_rdr_def demo_lookupd_def LL_FOREACH.simps ends_def
        demo_dial_def send_lookup_def Let_def lookup_url_def demo_reader_def bytes_of_def sprintf_d_def
        dec_digits.simps new_http_request_def http_client_get_def upd_req_def on_req_def emit_def
        sock_cb_def start_http_socket_def demo_world_def empty_world_def)
  have "step test_app demo_json demo_net demo_lookupd (Lookupd_poll_due demo_dial) w"
    using w(1) by (intro step.intros) (simp_all add: demo_lookupd_def)
  then have "reachable test_app demo_json demo_net w" by (rule reachable.loop [OF demo_lookupd_reachable])
  then show ?thesis using w that by blast
qed

text \<open>libcurl then waits for output on descriptor 9, and opens descriptor 10.\<close>

theorem http_events_on_live_sockets_witness:
  "\<exists>w w' run. reachable test_app demo_json demo_net w \<and> handle test_app demo_json demo_net (Http_ready 3 1 run) w = Inr w'
    \<and> io_on (Http_io 3) (calls w') = Some 9 \<and> io_on (Http_io 4) (calls w') = Some 10"
proof -
  let ?asks = "[(9, 2, 3), (10, 1, 0)] :: ask list" and ?n = "4 :: ptr"
  obtain w where w: "reachable test_app demo_json demo_net w"
    "calls w = Ev_timer_again Lookupd_poll_timer # Curl_multi_assign 9 3 # Ev_io_start (Http_io 3) 9
        # Curl_socket_action (- 1) 0 # Ev_timer_stop Http_timer # Curl_add_handle 2 # calls demo_lookupd"
    "brk w = 4"
    by (rule demo_polled)
  note http = http_events_on_live_sockets [OF app_hush_test w(1)]
  have "io_on (Http_io 3) (calls w) = Some 9" by (simp add: w(2))
  then have "map_option fst (fst (snd (watched w)) 3) = Some 9" using http [of 3] by metis
  then have "fst (snd (watched w)) 3 \<noteq> None" by auto
  then have ok: "asks_ok ?asks (watched w)" by (auto simp: watched_def)
  have "enabled (Http_ready 3 1 (Curl_run (map socket_call ?asks) [])) w" by (simp add: w(2))
  then obtain w' where "handle test_app demo_json demo_net (Http_ready 3 1 (Curl_run (map socket_call ?asks) [])) w = Inr w'"
      "watched w' = fold watch_for ?asks (watched w)"
      "\<forall>p. io_on (Http_io p) (calls w') = map_option fst (fst (snd (watched w')) p)"
    using http [of 3 1 "Curl_run [] []" ?asks "Http_ready 3 1 (Curl_run (map socket_call ?asks) [])"] ok by blast
  then show ?thesis using w(1,3) by (intro exI [of _ w] exI [of _ w']) (auto simp: watched_def)
qed

end
