(* ===== verification/Discovery.thy ===== *)
theory Discovery
  imports Http_Watchers
begin

section \<open>Discovery, from the bytes of the answer to the connections\<close>

text \<open>
  \<^verbatim>\<open>http.c\<close> and \<^verbatim>\<open>nsqlookupd.c\<close> together: libcurl hands over the body of an answer in
  pieces of any size, \<^verbatim>\<open>write_cb\<close> collects them in the buffer of the request, and when the
  transfer is done the callback of the request parses what was collected.
\<close>

subsection \<open>Collecting a body\<close>

text \<open>
  The buffer of a request has no limit: its block doubles. It starts at 4096 bytes and only
  ever gets additions.
\<close>

definition collected :: "byte list \<Rightarrow> buffer \<Rightarrow> bool" where
  "collected bs b \<longleftrightarrow> wf_buffer b \<and> contents b = bs \<and> data b = 0 \<and> capacity b = 0
     \<and> blength b \<le> 4096 + 2 * length bs"

definition pieces :: "ptr \<Rightarrow> byte list list \<Rightarrow> curl_call list" where
  "pieces req css = map (\<lambda>bs. Curl_write req bs 1 (length bs)) css"

lemma buffer_add_data:
  "buffer_add j src len b = Inr (b', rc) \<Longrightarrow> data b = 0 \<Longrightarrow> data b' = 0"
  by (auto simp: buffer_add_def buffer_expand_def Let_def bind_res_Inr_iff split: if_splits option.splits)

lemma collected_new: "collected [] (new_buffer j 4096 0)"
  by (simp add: collected_def wf_new_buffer) (simp add: new_buffer_def)

lemma collect_piece:
  assumes b: "collected bs b" and small: "length bs + length s < 2 ^ 28"
  shows "\<exists>b'. buffer_add_void j s (length s) b = Inr b' \<and> collected (bs @ s) b'"
proof -
  have wf: "wf_buffer b" and off: "offset b = length bs"
    using b length_contents [of b] by (auto simp: collected_def)
  have len: "length s < 2 ^ 31" using small by simp
  have gr: "growable (length s) b" using b small by (simp add: collected_def growable_def)
  obtain b' where b': "buffer_add j s (length s) b = Inr (b', 1)" "wf_buffer b'"
      "contents b' = contents b @ s" "capacity b' = capacity b"
      "blength b' \<le> 4096 + 2 * length (bs @ s)"
  proof (cases "length s \<le> room b")
    case True
    then show ?thesis
      using buffer_add_fits [OF wf len order_refl True, of j] b that by (auto simp: collected_def)
  next
    case False
    then have full: "room b < length s" by simp
    obtain b1 where b1: "make_room j (length s) b = Inr (b1, 1)" "wf_buffer b1" "contents b1 = contents b"
        "data b1 + offset b1 + length s \<le> blength b1" "blength b1 = grown (add_need (length s) b) b"
        "capacity b1 = capacity b"
      using make_room_grows [OF wf len full _ gr, of j] b by (auto simp: collected_def)
    have "grown (add_need (length s) b) b \<le> 2 * blength b + 2 * add_need (length s) b"
      using wf len add_need_le [OF wf, of "length s"] by (intro grown_props(4)) simp_all
    then have "blength b1 \<le> 2 * (length bs + length s)"
      using b1(5) off b full by (simp add: add_need_def collected_def room_def)
    then show ?thesis
      using buffer_add_after_make_room [OF wf len order_refl b1(1,2,4)] b1(3,6) that by fastforce
  qed
  then have "data b' = 0" using buffer_add_data b by (auto simp: collected_def)
  then show ?thesis using b' b by (auto simp: buffer_add_void_def collected_def)
qed

lemma collect_pieces:
  assumes "reqs w req = Some y" and "req \<noteq> 0" and "collected bs (req_data y)"
    and "length bs + length (concat css) < 2 ^ 28"
  shows "\<exists>b. curl_callbacks hcall (pieces req css) w
      = Inr (w\<lparr>reqs := (reqs w)(req \<mapsto> y\<lparr>req_data := b\<rparr>)\<rparr>) \<and> collected (bs @ concat css) b"
  using assms
proof (induction css arbitrary: w y bs)
  case Nil
  have "y\<lparr>req_data := req_data y\<rparr> = y" "(reqs w)(req \<mapsto> y) = reqs w"
    using Nil.prems(1) by (simp_all add: fun_upd_idem)
  then show ?case
    using Nil.prems(3) by (intro exI [of _ "req_data y"]) (simp add: pieces_def del: fun_upd_apply)
next
  case (Cons s css)
  obtain b where b: "buffer_add_void (junk w) s (length s) (req_data y) = Inr b" "collected (bs @ s) b"
    using collect_piece [OF Cons.prems(3), of s "junk w"] Cons.prems(4) by auto
  let ?w = "w\<lparr>reqs := (reqs w)(req \<mapsto> y\<lparr>req_data := b\<rparr>)\<rparr>"
  have "length s mod 2 ^ 64 = length s" using Cons.prems(4) by (intro mod_less) simp
  then have one: "curl_callback hcall (Curl_write req s 1 (length s)) w = Inr ?w"
    using b(1) Cons.prems(1,2) by (simp add: write_cb_def on_req_def upd_req_def Let_def)
  have pre: "reqs ?w req = Some (y\<lparr>req_data := b\<rparr>)" "collected (bs @ s) (req_data (y\<lparr>req_data := b\<rparr>))"
    "length (bs @ s) + length (concat css) < 2 ^ 28"
    using b(2) Cons.prems(4) by simp_all
  obtain b2 where "curl_callbacks hcall (pieces req css) ?w
      = Inr (?w\<lparr>reqs := (reqs ?w)(req \<mapsto> y\<lparr>req_data := b\<rparr>\<lparr>req_data := b2\<rparr>)\<rparr>)" "collected ((bs @ s) @ concat css) b2"
    using Cons.IH [OF pre(1) Cons.prems(2) pre(2,3)] by blast
  then show ?case using one by (intro exI [of _ b2]) (simp add: pieces_def del: fun_upd_apply)
qed

subsection \<open>The whole way\<close>

text \<open>An answer that is still coming in only adds to what was collected.\<close>

lemma pieces_collected:
  assumes "reqs w req = Some y" and "req \<noteq> 0" and "collected bs (req_data y)"
    and "length bs + length (concat css) < 2 ^ 28"
    and "http_socks w s = Some h"
  shows "\<exists>b. handle app lib net (Http_ready s revents (Curl_run (pieces req css) [])) w
      = Inr (w\<lparr>calls := Curl_socket_action (sockfd h) (int (poll_kind (int revents))) # calls w,
               reqs := (reqs w)(req \<mapsto> y\<lparr>req_data := b\<rparr>)\<rparr>)
    \<and> collected (bs @ concat css) b"
  using collect_pieces [of "w\<lparr>calls := Curl_socket_action (sockfd h) (int (poll_kind (int revents))) # calls w\<rparr>"
      req y bs css "nsq_lookupd_request_cb lib net"] assms
  by (auto simp: emit_def)

text \<open>
  Property C17: when libcurl hands over the rest of an answer, in pieces of any size, and says
  that the transfer is done with status 200, what is parsed is exactly the bytes of the answer
  in order; if it lists producers, each with an address, the reader dials exactly those peers
  it has no connection to, each once, in the order of the answer. The connections it has stay,
  and the request and the response are released.
\<close>

theorem discovery_dials_new_peers:
  assumes inv: "net_inv w" and r: "rdr w = Some r" and xs: "conn_list w xs" and net: "all_start net"
    and h: "http_socks w s = Some h" and y: "reqs w req = Some y" "req \<noteq> 0" "req_has_httpc y" and b: "collected bs (req_data y)"
    and small: "length bs + length (concat css) < 2 ^ 28"
    and js: "json_loadb lib (bs @ concat css) = Some js"
      "json_object_get lib (Some js) (bytes_of ''producers'') = Some ps"
      "\<forall>i < json_array_length lib ps. producer_peer lib (json_array_get lib ps i) \<noteq> None"
  shows "\<exists>w' ys. handle app lib net (Http_ready s revents (Curl_run (pieces req css) [Curl_done req 200])) w = Inr w'
    \<and> net_inv w' \<and> conn_list w' ys
    \<and> peers w' ys = fold add_new
        (map (\<lambda>i. producer_peer lib (json_array_get lib ps i)) [0..<json_array_length lib ps]) (peers w xs)
    \<and> reqs w' = (reqs w)(req := None) \<and> resps w' = (resps w)(brk w := None) \<and> \<not> handle_added req (calls w')"
proof -
  let ?c = "Curl_socket_action (sockfd h) (int (poll_kind (int revents)))"
  let ?w0 = "w\<lparr>calls := ?c # calls w\<rparr>"
  obtain b' where b': "curl_callbacks (nsq_lookupd_request_cb lib net) (pieces req css) ?w0
      = Inr (?w0\<lparr>reqs := (reqs w)(req \<mapsto> y\<lparr>req_data := b'\<rparr>)\<rparr>)" "collected (bs @ concat css) b'"
    using collect_pieces [of ?w0 req y bs css "nsq_lookupd_request_cb lib net"] y(1,2) b small by auto
  let ?w1 = "?w0\<lparr>reqs := (reqs w)(req \<mapsto> y\<lparr>req_data := b'\<rparr>)\<rparr>"
  let ?p = "brk w"
  let ?x = "\<lparr>status_code = 200, resp_data = req\<rparr>"
  let ?w2 = "?w1\<lparr>brk := ?p + 1, resps := (resps w)(?p \<mapsto> ?x)\<rparr>"
  have "net_inv ?w0"
    using keepsD [OF keeps_emit [of ?c "\<lambda>_. True"] inv, of ?w0] by (simp add: emit_def)
  then have inv2: "net_inv ?w2" using same_net_inv [of ?w0 ?w2] by (simp add: same_net_def)
  have p: "?p \<noteq> 0" using inv by (simp add: net_inv_def alloc_ok_def)
  have xs2: "conn_list ?w2 xs" using xs by (simp add: conn_list_def cong: option.case_cong)
  have peers2: "peers ?w2 xs = peers w xs" by (simp add: peers_def peer_of_def cong: option.case_cong)
  have wf: "wf_buffer b'" "contents b' = bs @ concat css" using b'(2) by (simp_all add: collected_def)
  obtain w' ys where run: "nsq_lookupd_request_cb lib net req ?p ?w2 = Inr w'" and ys: "conn_list w' ys"
      "peers w' ys = fold add_new
        (map (\<lambda>i. producer_peer lib (json_array_get lib ps i)) [0..<json_array_length lib ps]) (peers w xs)"
      "resps w' = (resps ?w2)(?p := None)" "reqs w' = (reqs ?w2)(req := None)" "\<not> handle_added req (calls w')"
    using reply_dials_new_peers [OF inv2 _ xs2 net, of r ?p ?x req "y\<lparr>req_data := b'\<rparr>" lib js ps] r p y js wf
    unfolding peers2 by auto
  have "handle app lib net (Http_ready s revents (Curl_run (pieces req css) [Curl_done req 200])) w = Inr w'"
    using run b'(1) y(2) h
    by (simp add: emit_def on_req_def new_http_response_def Let_def)
  moreover have "net_inv w'"
    using keepsD [OF keeps_lookupd_request_cb inv2 _ run] by simp
  moreover have "reqs w' = (reqs w)(req := None)" "resps w' = (resps w)(brk w := None)" using ys(3,4) by simp_all
  ultimately show ?thesis using ys(1,2,5) by blast
qed

text \<open>
  From the start of the program: an endpoint is added, the poll timer fires, libcurl opens a
  socket, and an answer comes in two pieces.
\<close>

theorem discovery_dials_new_peers_witness:
  "\<exists>w w' ys. reachable test_app demo_json demo_net w
    \<and> handle test_app demo_json demo_net
        (Http_ready 3 1 (Curl_run (pieces 2 [[123], [125, 10]]) [Curl_done 2 200])) w = Inr w'
    \<and> conn_list w' ys \<and> peers w' ys = [Some ([49, 50], 4150)]"
proof -
  obtain w where w: "reachable test_app demo_json demo_net w"
    "map_option req_has_httpc (reqs w 2) = Some True"
    "map_option req_data (reqs w 2) = Some (new_buffer (\<lambda>_. 0) 4096 0)"
    "rdr w = rdr demo_lookupd" "conns w = conns demo_lookupd"
    "calls w = Ev_timer_again Lookupd_poll_timer # Curl_multi_assign 9 3 # Ev_io_start (Http_io 3) 9
        # Curl_socket_action (- 1) 0 # Ev_timer_stop Http_timer # Curl_add_handle 2 # calls demo_lookupd"
    by (rule demo_polled)
  then obtain y where y: "reqs w 2 = Some y" "req_has_httpc y" "req_data y = new_buffer (\<lambda>_. 0) 4096 0" by auto
  have r: "rdr w = Some (demo_reader\<lparr>lookupd_head := 1\<rparr>)" using w(4) by (simp add: demo_lookupd_def)
  have xs: "conn_list w []" using w(5) r by (simp add: conn_list_def demo_reader_def ll_rep_def)
  have net: "all_start demo_net" using demo_started(1,2) by (simp add: all_start_def)
  have js: "json_loadb demo_json ([] @ concat [[123], [125, 10]]) = Some 0"
    "json_object_get demo_json (Some 0) (bytes_of ''producers'') = Some 1"
    "json_array_length demo_json 1 = 2" "\<And>i. json_array_get demo_json 1 i = Some (2 + i)"
    by (simp_all add: demo_json_def)
  have "collected [] (req_data y)" using y(3) collected_new by simp
  moreover obtain h where "http_socks w 3 = Some h"
    using http_ok_active [OF reachable_http_ok [OF app_hush_test w(1)], of 3] w(6) by auto
  ultimately have "\<exists>w' ys. handle test_app demo_json demo_net
        (Http_ready 3 1 (Curl_run (pieces 2 [[123], [125, 10]]) [Curl_done 2 200])) w = Inr w'
    \<and> net_inv w' \<and> conn_list w' ys
    \<and> peers w' ys = fold add_new
        (map (\<lambda>i. producer_peer demo_json (json_array_get demo_json 1 i)) [0..<json_array_length demo_json 1]) (peers w [])
    \<and> reqs w' = (reqs w)(2 := None) \<and> resps w' = (resps w)(brk w := None) \<and> \<not> handle_added 2 (calls w')"
    using js(3,4) demo_peer y(1,2)
    by (intro discovery_dials_new_peers [OF reachable_net_inv [OF test_app_ok w(1)] r xs net _ _ _ _ _ _ js(1,2)]) simp_all
  then
  show ?thesis
    using w(1) js(3,4) demo_peer by (fastforce simp: peers_def add_new_def upt_rec simp del: handle.simps)
qed

end
