(* ===== verification/Web_Client.thy ===== *)
theory Web_Client
  imports Steady_Run Discovery Endpoints
begin

section \<open>The client of lookupd, beside the connections\<close>

text \<open>
  A reader that only knows lookupds: what its HTTP client does leaves the connections alone
  (\<open>web_only\<close>), and never runs into a fault as long as libcurl keeps to what it documents
  (\<open>call_fits\<close> and its companions).
\<close>

subsection \<open>Steps of the HTTP client\<close>

definition web_entry :: "ext_call \<Rightarrow> bool" where
  "web_entry c \<longleftrightarrow> neutral c \<and> (\<forall>x l. delivered x (c # l) = delivered x l)"

lemma web_entry_simps [simp]:
  "web_entry (Ev_io_start (Http_io s) f)" "web_entry (Ev_io_stop (Http_io s))"
  "web_entry (Ev_timer_stop Http_timer)" "web_entry (Ev_timer_start Http_timer)" "web_entry (Ev_timer_set t n)"
  "web_entry (Timer_expired Http_timer)"
  "web_entry (Ev_timer_again Lookupd_poll_timer)" "web_entry (Curl_add_handle r)"
  "web_entry (Curl_remove_handle r)" "web_entry (Curl_easy_cleanup r)" "web_entry (Curl_multi_assign f r)"
  "web_entry (Curl_socket_action f n)"
  by (simp_all add: web_entry_def)

definition web_only :: "nsq_world \<Rightarrow> nsq_world \<Rightarrow> bool" where
  "web_only w w' \<longleftrightarrow> socks w' = socks w \<and> conns w' = conns w \<and> rdr w' = rdr w \<and> endpoints w' = endpoints w
     \<and> brk w \<le> brk w' \<and> (\<exists>cs. calls w' = cs @ calls w \<and> list_all web_entry cs)"

lemma web_onlyI:
  "socks w' = socks w \<Longrightarrow> conns w' = conns w \<Longrightarrow> rdr w' = rdr w \<Longrightarrow> endpoints w' = endpoints w \<Longrightarrow>
    brk w \<le> brk w' \<Longrightarrow> calls w' = cs @ calls w \<Longrightarrow> list_all web_entry cs \<Longrightarrow> web_only w w'"
  by (auto simp: web_only_def)

lemma web_net_inv:
  assumes "net_inv w" and "web_only w w'" shows "net_inv w'"
proof -
  obtain cs where cs: "calls w' = cs @ calls w" "list_all web_entry cs" using assms(2) by (auto simp: web_only_def)
  have "net_inv (w\<lparr>calls := cs @ calls w\<rparr>)"
    using cs(2)
  proof (induction cs)
    case Nil
    then show ?case using assms(1) by simp
  next
    case (Cons c cs)
    then have "net_inv (w\<lparr>calls := cs @ calls w\<rparr>)" "neutral c" by (simp_all add: web_entry_def)
    then show ?case
      using keepsD [OF keeps_emit [of c "\<lambda>_. True"], of "w\<lparr>calls := cs @ calls w\<rparr>"] by (simp add: emit_def)
  qed
  moreover have "same_net (w\<lparr>calls := cs @ calls w\<rparr>) w'"
    using assms(2) cs(1) by (simp add: same_net_def web_only_def)
  ultimately show ?thesis using same_net_inv by blast
qed

lemma web_elsewhere:
  assumes "web_only w w'" shows "elsewhere q p w w'"
proof -
  obtain cs where cs: "calls w' = cs @ calls w" "list_all web_entry cs" using assms by (auto simp: web_only_def)
  have "list_kept p w w'"
    using assms unfolding list_kept_def web_only_def by (metis Diff_subset NSQReader.surjective NSQReader.update_convs(4))
  moreover have "list_all (concerns q p) cs"
    using cs(2) by (auto simp: list_all_iff web_entry_def neutral_def concerns_def)
  ultimately show ?thesis using assms cs(1) by (intro elsewhereI [where cs = cs]) (simp_all add: web_only_def)
qed

lemma web_timers:
  assumes "web_only w w'" and "timer_active (Reconnect_timer x) (calls w')"
  shows "timer_active (Reconnect_timer x) (calls w)"
proof -
  obtain cs where cs: "calls w' = cs @ calls w" "list_all web_entry cs" using assms(1) by (auto simp: web_only_def)
  have "timer_active (Reconnect_timer x) (cs @ calls w) \<Longrightarrow> timer_active (Reconnect_timer x) (calls w)"
    using cs(2)
  proof (induction cs)
    case (Cons c cs)
    have "neutral c" using Cons.prems(2) by (simp add: web_entry_def)
    then have "timer_active (Reconnect_timer x) (cs @ calls w)"
      using Cons.prems(1) unfolding neutral_def append_Cons by blast
    then show ?case using Cons by simp
  qed simp
  then show ?thesis using assms(2) cs(1) by simp
qed

lemma web_steady:
  assumes ok: "steady_ok w" and web: "web_only w w'"
  shows "steady_ok w'"
proof -
  have "settled y w'" for y
  proof -
    define p where "p = (case socks w y of None \<Rightarrow> 0 | Some d \<Rightarrow> Suc (cbarg d))"
    have p: "cbarg d \<noteq> p" if "socks w y = Some d" for d using that by (simp add: p_def)
    show ?thesis
    proof (rule settled_elsewhere)
      show "elsewhere (Suc y) p w w'" by (rule web_elsewhere [OF web])
      show "settled y w" using ok by (simp add: steady_ok_def)
      show "y \<noteq> Suc y" by simp
    qed (rule p)
  qed
  moreover have "steady w'"
  proof (rule steady_later)
    show "steady w" using ok by (simp add: steady_ok_def)
    show "rdr_core w' = rdr_core w" "map_option reconnect_timer (conns w' x) = map_option reconnect_timer (conns w x)" for x
      using web by (simp_all add: web_only_def rdr_core_def)
  qed (rule web_timers [OF web])
  ultimately show ?thesis using web_net_inv [OF _ web] ok by (simp add: steady_ok_def)
qed

subsection \<open>What libcurl documents\<close>

text \<open>
  libcurl writes to the request of a handle that was added and not removed, one byte at a time as the
  size; names a socket only by the pointer that it was given for it, until it has it removed; and reports
  handles only that are still added. Of the lookupds is asked that a body stays below
  \<open>2 ^ 28\<close> bytes, and that every producer has an address if the body is JSON with producers.
\<close>

definition body_fits :: "ptr \<Rightarrow> byte list \<Rightarrow> nsq_world \<Rightarrow> bool" where
  "body_fits r src w =
     (case reqs w r of None \<Rightarrow> True | Some x \<Rightarrow> length (contents (req_data x)) + length src < 2 ^ 28)"

definition reply_fits :: "'j json_lib \<Rightarrow> byte list \<Rightarrow> bool" where
  "reply_fits lib text =
     (case json_loadb lib text of
        None \<Rightarrow> True
      | Some js \<Rightarrow>
          (case json_object_get lib (Some js) (bytes_of ''producers'') of
             None \<Rightarrow> True
           | Some ps \<Rightarrow> list_all (\<lambda>i. producer_address lib (json_array_get lib ps i) \<noteq> None)
               [0..<json_array_length lib ps]))"

fun msgs_fit :: "'j json_lib \<Rightarrow> (ptr \<Rightarrow> connect_env) \<Rightarrow> curl_msg list \<Rightarrow> nsq_world \<Rightarrow> bool" where
  "msgs_fit lib net [] w \<longleftrightarrow> True"
| "msgs_fit lib net (Curl_other_msg # ms) w \<longleftrightarrow> msgs_fit lib net ms w"
| "msgs_fit lib net (Curl_done r code # ms) w \<longleftrightarrow> handle_added r (calls w)
     \<and> (case reqs w r of None \<Rightarrow> True | Some x \<Rightarrow> reply_fits lib (contents (req_data x)))
     \<and> (case check_multi_info (nsq_lookupd_request_cb lib net) [Curl_done r code] w of
          Inl e \<Rightarrow> True | Inr w' \<Rightarrow> msgs_fit lib net ms w')"

fun call_fits :: "'j json_lib \<Rightarrow> (ptr \<Rightarrow> connect_env) \<Rightarrow> curl_call \<Rightarrow> nsq_world \<Rightarrow> bool"
  and calls_fit :: "'j json_lib \<Rightarrow> (ptr \<Rightarrow> connect_env) \<Rightarrow> curl_call list \<Rightarrow> nsq_world \<Rightarrow> bool"
  and run_fits :: "'j json_lib \<Rightarrow> (ptr \<Rightarrow> connect_env) \<Rightarrow> curl_run \<Rightarrow> nsq_world \<Rightarrow> bool" where
  "call_fits lib net (Curl_write r src sz nmemb) w \<longleftrightarrow>
     handle_added r (calls w) \<and> sz = 1 \<and> nmemb = length src \<and> body_fits r src w"
| "call_fits lib net (Curl_socket s what sock) w \<longleftrightarrow> sock = 0 \<or> io_active (Http_io sock) (calls w)"
| "call_fits lib net (Curl_timer timeout_ms run) w \<longleftrightarrow>
     0 < timeout_ms \<or> run_fits lib net run (w\<lparr>calls := Curl_socket_action (-1) 0 # Ev_timer_stop Http_timer # calls w\<rparr>)"
| "calls_fit lib net [] w \<longleftrightarrow> True"
| "calls_fit lib net (c # cs) w \<longleftrightarrow> call_fits lib net c w
     \<and> (case curl_callback (nsq_lookupd_request_cb lib net) c w of Inl e \<Rightarrow> True | Inr w' \<Rightarrow> calls_fit lib net cs w')"
| "run_fits lib net (Curl_run cs ms) w \<longleftrightarrow> calls_fit lib net cs w
     \<and> (case curl_callbacks (nsq_lookupd_request_cb lib net) cs w of Inl e \<Rightarrow> True | Inr w' \<Rightarrow> msgs_fit lib net ms w')"

text \<open>The state of the client: what is added to libcurl is a request that is allocated.\<close>

definition added_ok :: "nsq_world \<Rightarrow> bool" where
  "added_ok w \<longleftrightarrow> (\<forall>r. handle_added r (calls w) \<longrightarrow> r \<noteq> 0 \<and> r < brk w
     \<and> (\<exists>x. reqs w r = Some x \<and> req_has_httpc x \<and> collected (contents (req_data x)) (req_data x)))"

definition urls_ok :: "nsq_world \<Rightarrow> bool" where
  "urls_ok w \<longleftrightarrow> (\<exists>r. rdr w = Some r \<and> lookupd_head r \<noteq> 0
     \<and> (\<forall>e x. endpoints w e = Some x \<longrightarrow> length (lookup_url x (topic r)) < 256))"

definition lookup_ok :: "nsq_world \<Rightarrow> bool" where
  "lookup_ok w \<longleftrightarrow> steady_ok w \<and> http_ok w \<and> added_ok w \<and> urls_ok w"

lemma urls_aside:
  assumes "urls_ok w" and "aside w w'" shows "urls_ok w'"
proof -
  obtain r where r: "rdr w = Some r" "lookupd_head r \<noteq> 0"
      "\<forall>e x. endpoints w e = Some x \<longrightarrow> length (lookup_url x (topic r)) < 256"
    using assms(1) unfolding urls_ok_def by blast
  have same: "rdr_core w' = rdr_core w" "endpoints w' = endpoints w" using assms(2) by (simp_all add: aside_def)
  obtain h where "rdr w' = Some (r\<lparr>conns_head := h\<rparr>)" using same(1) r(1) by (rule rdr_core_head)
  then show ?thesis using r(2,3) same(2) by (simp add: urls_ok_def)
qed

lemma added_aside: "added_ok w \<Longrightarrow> aside w w' \<Longrightarrow> added_ok w'"
  by (fastforce simp: added_ok_def aside_def same_web_def)

lemma http_aside: "http_ok w \<Longrightarrow> aside w w' \<Longrightarrow> http_ok w'"
  by (auto simp: http_ok_def aside_def same_web_def)

lemma lookup_aside: "lookup_ok w \<Longrightarrow> steady_ok w' \<Longrightarrow> aside w w' \<Longrightarrow> lookup_ok w'"
  using urls_aside added_aside http_aside by (auto simp: lookup_ok_def)

lemma lookup_web:
  "lookup_ok w \<Longrightarrow> web_only w w' \<Longrightarrow> http_ok w' \<Longrightarrow> added_ok w' \<Longrightarrow> lookup_ok w'"
  using web_steady [of w w'] by (auto simp: lookup_ok_def urls_ok_def web_only_def)

subsection \<open>Its steps return\<close>

lemma addedE:
  assumes "added_ok w" and "handle_added r (calls w)"
  obtains x where "r \<noteq> 0" "r < brk w" "reqs w r = Some x" "req_has_httpc x"
    "collected (contents (req_data x)) (req_data x)"
  using assms unfolding added_ok_def by blast

lemma emit_lookup:
  assumes "lookup_ok w" and "web_entry c" and "\<not> http_entry c" and "\<And>r l. handle_added r (c # l) = handle_added r l"
  shows "lookup_ok (w\<lparr>calls := c # calls w\<rparr>)"
proof (rule lookup_web)
  show "lookup_ok w" by (rule assms)
  show "web_only w (w\<lparr>calls := c # calls w\<rparr>)" using assms(2) by (intro web_onlyI [where cs = "[c]"]) simp_all
  show "http_ok (w\<lparr>calls := c # calls w\<rparr>)"
    using assms(1) ends_ok_emit [OF assms(3), of w] by (simp add: lookup_ok_def ends_ok_def emit_def)
  show "added_ok (w\<lparr>calls := c # calls w\<rparr>)"
    using assms(1,4) unfolding lookup_ok_def added_ok_def by simp
qed

lemma write_returns:
  assumes ok: "lookup_ok w" and added: "handle_added r (calls w)" and fits: "body_fits r src w"
  shows "\<exists>w'. write_cb r src 1 (length src) w = Inr w' \<and> lookup_ok w'"
proof -
  have a: "added_ok w" using ok by (simp add: lookup_ok_def)
  obtain x where x: "r \<noteq> 0" "r < brk w" "reqs w r = Some x" "req_has_httpc x"
      "collected (contents (req_data x)) (req_data x)" using a added by (rule addedE)
  have small: "length (contents (req_data x)) + length src < 2 ^ 28" using fits x(3) by (simp add: body_fits_def)
  then obtain b where b: "buffer_add_void (junk w) src (length src) (req_data x) = Inr b"
      "collected (contents (req_data x) @ src) b"
    using collect_piece [OF x(5)] by blast
  let ?w = "w\<lparr>reqs := (reqs w)(r \<mapsto> x\<lparr>req_data := b\<rparr>)\<rparr>"
  have "length src mod 2 ^ 64 = length src" using small by (intro mod_less) simp
  then have run: "write_cb r src 1 (length src) w = Inr ?w"
    using b(1) x(1,3) by (simp add: write_cb_def on_req_def upd_req_def Let_def)
  have "lookup_ok ?w"
  proof (rule lookup_web [OF ok])
    show "web_only w ?w" by (rule web_onlyI [where cs = "[]"]) simp_all
    show "http_ok ?w" using ok by (simp add: lookup_ok_def http_ok_def)
    have "contents b = contents (req_data x) @ src" using b(2) by (simp add: collected_def)
    then show "added_ok ?w" using a b(2) x(1,2,4) by (auto simp: added_ok_def)
  qed
  then show ?thesis using run by blast
qed

lemma sock_cb_returns:
  assumes ok: "lookup_ok w" and fits: "sock = 0 \<or> io_active (Http_io sock) (calls w)"
  shows "\<exists>w'. sock_cb s what sock w = Inr w' \<and> lookup_ok w'"
proof -
  have h: "http_ok w" and a: "added_ok w" using ok by (simp_all add: lookup_ok_def)
  have known: "\<exists>x. http_socks w sock = Some x" if "sock \<noteq> 0" using fits that http_ok_active [OF h] by auto
  have start: "\<exists>v' cs. start_http_socket s what k v = Inr v' \<and> calls v' = cs @ calls v \<and> list_all web_entry cs
      \<and> (\<forall>r. handle_added r (calls v') = handle_added r (calls v)) \<and> reqs v' = reqs v
      \<and> socks v' = socks v \<and> conns v' = conns v \<and> rdr v' = rdr v \<and> endpoints v' = endpoints v \<and> brk v' = brk v"
    if "http_socks v k = Some x" for k x and v :: nsq_world
    using that by (cases "evset x") (auto simp: start_http_socket_def emit_def)
  have "\<exists>w'. sock_cb s what sock w = Inr w' \<and> web_only w w' \<and> added_ok w'"
  proof (cases "what = 4")
    case True
    show ?thesis
    proof (cases "sock = 0")
      case True
      then show ?thesis using a \<open>what = 4\<close> by (auto simp: sock_cb_def intro!: web_onlyI [where cs = "[]"])
    next
      case False
      then obtain x where x: "http_socks w sock = Some x" using known by blast
      let ?cs = "if evset x then [Ev_io_stop (Http_io sock)] else []"
      let ?w = "w\<lparr>calls := ?cs @ calls w, http_socks := (http_socks w)(sock := None)\<rparr>"
      have "sock_cb s what sock w = Inr ?w" using False True x by (simp add: sock_cb_def emit_def)
      moreover have "web_only w ?w" by (rule web_onlyI [where cs = ?cs]) simp_all
      moreover have "added_ok ?w" using a by (simp add: added_ok_def)
      ultimately show ?thesis by blast
    qed
  next
    case False
    show ?thesis
    proof (cases "sock = 0")
      case True
      let ?w1 = "w\<lparr>brk := brk w + 1, http_socks := (http_socks w)(brk w \<mapsto>
          \<lparr>sockfd = 0, action = 0, ev_kind = 0, evset = False\<rparr>)\<rparr>"
      obtain v cs where v: "start_http_socket s what (brk w) ?w1 = Inr v" "calls v = cs @ calls w" "list_all web_entry cs"
          "\<forall>r. handle_added r (calls v) = handle_added r (calls w)" "reqs v = reqs w"
          "socks v = socks w" "conns v = conns w" "rdr v = rdr w" "endpoints v = endpoints w" "brk v = brk w + 1"
        using start [of ?w1 "brk w"] by auto
      let ?w = "v\<lparr>calls := Curl_multi_assign s (brk w) # calls v\<rparr>"
      have "sock_cb s what sock w = Inr ?w" using False True v(1) by (simp add: sock_cb_def Let_def emit_def)
      moreover have "web_only w ?w"
        using v by (intro web_onlyI [where cs = "Curl_multi_assign s (brk w) # cs"]) simp_all
      moreover have "added_ok ?w" using a v(4,5,10) by (fastforce simp: added_ok_def)
      ultimately show ?thesis by blast
    next
      case nonnull: False
      then obtain x where "http_socks w sock = Some x" using known by blast
      then obtain v cs where v: "start_http_socket s what sock w = Inr v" "calls v = cs @ calls w" "list_all web_entry cs"
          "\<forall>r. handle_added r (calls v) = handle_added r (calls w)" "reqs v = reqs w"
          "socks v = socks w" "conns v = conns w" "rdr v = rdr w" "endpoints v = endpoints w" "brk v = brk w"
        using start by blast
      have "web_only w v" using v by (intro web_onlyI [where cs = cs]) simp_all
      moreover have "added_ok v" using a v(4,5,10) by (simp add: added_ok_def)
      ultimately show ?thesis using False nonnull v(1) by (auto simp: sock_cb_def)
    qed
  qed
  then obtain w' where w': "sock_cb s what sock w = Inr w'" "web_only w w'" "added_ok w'"
    by (elim exE conjE)
  have "http_ok w'" using sock_cb_ok [of w s what sock] h w'(1) by (simp add: ends_ok_def)
  with w' have "lookup_ok w'" by (intro lookup_web [OF ok])
  then show ?thesis using w'(1) by blast
qed

subsection \<open>The answer of a lookupd\<close>

lemma producer_returns:
  assumes ok: "lookup_ok w" and net: "net_ok net" and item: "producer_address lib item \<noteq> None"
  shows "\<exists>w'. lookupd_producer lib net item w = Inr w' \<and> lookup_ok w' \<and> aside w w'"
proof -
  obtain a where a: "producer_address lib item = Some a" using item by auto
  have st: "steady_ok w" and inv: "net_inv w" using ok by (simp_all add: lookup_ok_def steady_ok_def)
  obtain xs where xs: "links_ok w" "conn_list w xs" using inv by (rule net_invE)
  obtain r where r: "rdr w = Some r" using st by (auto simp: steady_ok_def steady_def)
  have run: "lookupd_producer lib net item w =
      (if Some (c_str a, producer_port lib item) \<in> set (peers w xs) then Inr w
       else bind_res (nsq_reader_connect_to_nsqd net a (producer_port lib item) w) (\<lambda>(rc, w1). Inr w1))"
    using find_conn_known [OF xs r, of a] a
    by (simp add: lookupd_producer_def producer_address_def producer_port_def Let_def)
  obtain rc w' where w': "nsq_reader_connect_to_nsqd net a (producer_port lib item) w = Inr (rc, w')"
      "steady_ok w'" "aside w w'"
    using connect_steady [OF st net] by blast
  then show ?thesis using run ok aside_refl lookup_aside [OF ok w'(2,3)] by auto
qed

lemma producers_return:
  assumes net: "net_ok net"
  shows "lookup_ok w \<Longrightarrow> list_all (\<lambda>i. producer_address lib (item i) \<noteq> None) is \<Longrightarrow>
    \<exists>w'. block (map (\<lambda>i. lookupd_producer lib net (item i)) is) w = Inr w' \<and> lookup_ok w' \<and> aside w w'"
proof (induction "is" arbitrary: w)
  case Nil
  then show ?case by (simp add: aside_refl)
next
  case (Cons i "is")
  then obtain w1 where w1: "lookupd_producer lib net (item i) w = Inr w1" "lookup_ok w1" "aside w w1"
    using producer_returns [OF Cons.prems(1) net] by fastforce
  obtain w2 where "block (map (\<lambda>i. lookupd_producer lib net (item i)) is) w1 = Inr w2" "lookup_ok w2" "aside w1 w2"
    using Cons.IH [OF w1(2)] Cons.prems(2) by auto
  then show ?case using w1 aside_trans by fastforce
qed

lemma release_lookup:
  assumes ok: "lookup_ok w" and p: "resps w p = Some x" "p \<noteq> 0" and added: "handle_added r (calls w)"
  shows "\<exists>w'. block [free_http_response p, free_http_request r] w = Inr w' \<and> lookup_ok w'"
proof -
  have a: "added_ok w" and h: "http_ok w" using ok by (simp_all add: lookup_ok_def)
  obtain y where y: "r \<noteq> 0" "reqs w r = Some y" "req_has_httpc y" using a added by (rule addedE)
  let ?w = "w\<lparr>resps := (resps w)(p := None), reqs := (reqs w)(r := None),
      calls := Curl_easy_cleanup r # Curl_remove_handle r # calls w\<rparr>"
  have "block [free_http_response p, free_http_request r] w = Inr ?w"
    by (rule release_reply [OF p(1,2) y])
  moreover have "lookup_ok ?w"
  proof (rule lookup_web [OF ok])
    show "web_only w ?w" by (rule web_onlyI [where cs = "[Curl_easy_cleanup r, Curl_remove_handle r]"]) simp_all
    show "http_ok ?w" using h by (simp add: http_ok_def)
    show "added_ok ?w" using a by (auto simp: added_ok_def)
  qed
  ultimately show ?thesis by blast
qed

lemma request_cb_returns:
  assumes ok: "lookup_ok w" and net: "net_ok net" and p: "resps w p = Some \<lparr>status_code = code, resp_data = r\<rparr>" "p \<noteq> 0"
    and added: "handle_added r (calls w)" and y: "reqs w r = Some y" and reply: "reply_fits lib (contents (req_data y))"
  shows "\<exists>w'. nsq_lookupd_request_cb lib net r p w = Inr w' \<and> lookup_ok w'"
proof (cases "code = 200")
  case False
  then show ?thesis using release_lookup [OF ok p added] p by (simp add: nsq_lookupd_request_cb_def del: block.simps)
next
  case True
  have a: "added_ok w" using ok by (simp add: lookup_ok_def)
  have r: "r \<noteq> 0" "wf_buffer (req_data y)" using a added y by (auto simp: added_ok_def collected_def)
  have run: "nsq_lookupd_request_cb lib net r p w =
      (case json_loadb lib (contents (req_data y)) of
         None \<Rightarrow> Inr w
       | Some js \<Rightarrow>
           (case json_object_get lib (Some js) (bytes_of ''producers'') of
              None \<Rightarrow> Inr w
            | Some ps \<Rightarrow>
                block (map (\<lambda>i. lookupd_producer lib net (json_array_get lib ps i)) [0..<json_array_length lib ps]
                  @ [free_http_response p, free_http_request r]) w))"
    using p y r True mem_read_contents [OF r(2)]
    by (simp add: nsq_lookupd_request_cb_def on_req_def BUFFER_HAS_DATA_def del: block.simps)
  show ?thesis
  proof (cases "\<exists>js ps. json_loadb lib (contents (req_data y)) = Some js
      \<and> json_object_get lib (Some js) (bytes_of ''producers'') = Some ps")
    case False
    then have "nsq_lookupd_request_cb lib net r p w = Inr w" using run by (auto split: option.splits)
    then show ?thesis using ok by blast
  next
    case True
    then obtain js ps where js: "json_loadb lib (contents (req_data y)) = Some js"
        "json_object_get lib (Some js) (bytes_of ''producers'') = Some ps" by blast
    have "list_all (\<lambda>i. producer_address lib (json_array_get lib ps i) \<noteq> None) [0..<json_array_length lib ps]"
      using reply js by (simp add: reply_fits_def)
    then obtain w1 where w1: "block (map (\<lambda>i. lookupd_producer lib net (json_array_get lib ps i))
          [0..<json_array_length lib ps]) w = Inr w1" "lookup_ok w1" "aside w w1"
      using producers_return [OF net ok, of lib "json_array_get lib ps"] by blast
    have "resps w1 p = Some \<lparr>status_code = code, resp_data = r\<rparr>" "handle_added r (calls w1)"
      using w1(3) p added by (simp_all add: aside_def same_web_def)
    then obtain w2 where w2: "block [free_http_response p, free_http_request r] w1 = Inr w2" "lookup_ok w2"
      using release_lookup [OF w1(2) _ p(2)] by blast
    have "nsq_lookupd_request_cb lib net r p w = Inr w2"
      by (simp only: run js option.case block_append w1(1) bind_res.simps w2(1))
    then show ?thesis using w2(2) by blast
  qed
qed

end
