(* ===== verification/Lookup_Run.thy ===== *)
theory Lookup_Run
  imports Web_Client
begin

section \<open>Readers that learn of their peers from lookupd\<close>

text \<open>
  A reader that only knows lookupds never runs into a fault: what libcurl calls back and reports,
  the poll timer, the events of all connections, whole runs.
\<close>

subsection \<open>What libcurl calls and reports\<close>

lemma msgs_return:
  assumes net: "net_ok net"
  shows "lookup_ok w \<Longrightarrow> msgs_fit lib net ms w \<Longrightarrow>
    \<exists>w'. check_multi_info (nsq_lookupd_request_cb lib net) ms w = Inr w' \<and> lookup_ok w'"
proof (induction ms arbitrary: w)
  case Nil
  then show ?case by simp
next
  case (Cons m ms)
  show ?case
  proof (cases m)
    case (Curl_done r code)
    have added: "handle_added r (calls w)" using Cons.prems(2) Curl_done by simp
    have a: "added_ok w" and h: "http_ok w" using Cons.prems(1) by (simp_all add: lookup_ok_def)
    obtain x where x: "r \<noteq> 0" "r < brk w" "reqs w r = Some x" using a added by (rule addedE)
    let ?p = "brk w"
    let ?w = "w\<lparr>brk := ?p + 1, resps := (resps w)(?p \<mapsto> \<lparr>status_code = code, resp_data = r\<rparr>)\<rparr>"
    have ok: "lookup_ok ?w"
    proof (rule lookup_web [OF Cons.prems(1)])
      show "web_only w ?w" by (rule web_onlyI [where cs = "[]"]) simp_all
      show "http_ok ?w" using h by (simp add: http_ok_def)
      show "added_ok ?w" using a by (auto simp: added_ok_def)
    qed
    have p: "?p \<noteq> 0" using h by (simp add: http_ok_def)
    have reply: "reply_fits lib (contents (req_data x))" using Cons.prems(2) Curl_done x(3) by simp
    obtain w1 where w1: "nsq_lookupd_request_cb lib net r ?p ?w = Inr w1" "lookup_ok w1"
      using request_cb_returns [OF ok net _ p _ _ reply] added x(3) by fastforce
    have one: "check_multi_info (nsq_lookupd_request_cb lib net) [Curl_done r code] w = Inr w1"
      using w1(1) x(1,3) by (simp add: on_req_def new_http_response_def Let_def)
    then have "msgs_fit lib net ms w1" using Cons.prems(2) Curl_done by simp
    from Cons.IH [OF w1(2) this] show ?thesis
      using one by (auto simp: Curl_done bind_res_Inr_iff)
  next
    case Curl_other_msg
    then show ?thesis using Cons by simp
  qed
qed

text \<open>One run of libcurl: its calls, then what it reports.\<close>

fun serve :: "(ptr \<Rightarrow> ptr \<Rightarrow> nsq_proc) \<Rightarrow> curl_run \<Rightarrow> nsq_proc" where
  "serve hcall (Curl_run cs ms) w = bind_res (curl_callbacks hcall cs w) (check_multi_info hcall ms)"

lemma timer_cb_serve:
  "timer_cb hcall run w = serve hcall run (w\<lparr>calls := Curl_socket_action (-1) 0 # calls w\<rparr>)"
  by (cases run) (simp add: emit_def)

lemma event_cb_serve:
  "event_cb hcall f revents run w
    = serve hcall run (w\<lparr>calls := Curl_socket_action f (int (poll_kind (int revents))) # calls w\<rparr>)"
  by (cases run) (simp add: emit_def)

lemma emit_web:
  "lookup_ok w \<Longrightarrow> lookup_ok (w\<lparr>calls := Curl_socket_action f k # calls w\<rparr>)"
  "lookup_ok w \<Longrightarrow> lookup_ok (w\<lparr>calls := Ev_timer_stop Http_timer # calls w\<rparr>)"
  "lookup_ok w \<Longrightarrow> lookup_ok (w\<lparr>calls := Ev_timer_start Http_timer # calls w\<rparr>)"
  "lookup_ok w \<Longrightarrow> lookup_ok (w\<lparr>calls := Ev_timer_set t n # calls w\<rparr>)"
  "lookup_ok w \<Longrightarrow> lookup_ok (w\<lparr>calls := Ev_timer_again Lookupd_poll_timer # calls w\<rparr>)"
  "lookup_ok w \<Longrightarrow> lookup_ok (w\<lparr>calls := Timer_expired Http_timer # calls w\<rparr>)"
  by (simp_all add: emit_lookup)

definition returns_ok :: "fault + nsq_world \<Rightarrow> bool" where
  "returns_ok r \<longleftrightarrow> (\<exists>w'. r = Inr w' \<and> lookup_ok w')"

lemma calls_return:
  "net_ok net \<Longrightarrow> lookup_ok w \<Longrightarrow> call_fits lib net c w \<Longrightarrow> returns_ok (curl_callback (nsq_lookupd_request_cb lib net) c w)"
  "net_ok net \<Longrightarrow> lookup_ok w \<Longrightarrow> calls_fit lib net cs w \<Longrightarrow> returns_ok (curl_callbacks (nsq_lookupd_request_cb lib net) cs w)"
  "net_ok net \<Longrightarrow> lookup_ok w \<Longrightarrow> run_fits lib net run w \<Longrightarrow> returns_ok (serve (nsq_lookupd_request_cb lib net) run w)"
proof (induction lib net c w and lib net cs w and lib net run w rule: call_fits_calls_fit_run_fits.induct)
  case (1 lib net r src sz nmemb w)
  then show ?case using write_returns [of w r src] by (simp add: returns_ok_def)
next
  case (2 lib net s what sock w)
  then show ?case using sock_cb_returns [of w sock s what] by (simp add: returns_ok_def)
next
  case (3 lib net timeout_ms run w)
  show ?case
  proof (cases "0 < timeout_ms")
    case True
    then show ?thesis
      using emit_web(3) [OF emit_web(4) [OF emit_web(2) [OF "3.prems"(2)]], of Http_timer "timeout_ms div 1000"]
      by (simp add: returns_ok_def emit_def)
  next
    case False
    let ?w = "w\<lparr>calls := Curl_socket_action (-1) 0 # Ev_timer_stop Http_timer # calls w\<rparr>"
    have "lookup_ok ?w"
      using emit_web(1) [OF emit_web(2) [OF "3.prems"(2)], of "-1" 0] by simp
    moreover have "run_fits lib net run ?w" using "3.prems"(3) False by simp
    ultimately have "returns_ok (serve (nsq_lookupd_request_cb lib net) run ?w)"
      using "3.IH" False "3.prems"(1) by blast
    then show ?thesis using False by (simp add: emit_def timer_cb_serve)
  qed
next
  case (4 lib net w)
  then show ?case by (simp add: returns_ok_def)
next
  case (5 lib net c cs w)
  then obtain w1 where "curl_callback (nsq_lookupd_request_cb lib net) c w = Inr w1" "lookup_ok w1"
    by (auto simp: returns_ok_def)
  then show ?case using 5 by simp
next
  case (6 lib net cs ms w)
  then obtain w1 where "curl_callbacks (nsq_lookupd_request_cb lib net) cs w = Inr w1" "lookup_ok w1"
    by (auto simp: returns_ok_def)
  then show ?case using 6 msgs_return [of net w1 lib ms] by (simp add: returns_ok_def)
qed

subsection \<open>The poll timer\<close>

text \<open>The state in which libcurl is called when a poll hands it the request.\<close>

definition poll_state :: "poll_env \<Rightarrow> nsq_world \<Rightarrow> nsq_world" where
  "poll_state env w =
     (case rdr w of
        None \<Rightarrow> w
      | Some r \<Rightarrow>
          (case ends (LL_FOREACH ep_next (\<lambda>_. endpoints w) (\<lambda>e es. Inr (False, es @ [e])) (lookupd_head r) []) of
             Inl _ \<Rightarrow> w
           | Inr es \<Rightarrow>
               (case endpoints w (es ! (rand_ret env mod length es)) of
                  None \<Rightarrow> w
                | Some x \<Rightarrow> request_sent (c_str (lookup_url x (topic r))) (add_handle_ok env) w)))"

lemma LL_FOREACH_list:
  "ll_list nxt h p xs \<Longrightarrow> LL_FOREACH nxt (\<lambda>_. h) (\<lambda>x l. Inr (False, l @ [x])) p l = Some (Inr (l @ xs))"
proof (induction xs arbitrary: p l)
  case Nil
  then show ?case by (simp add: LL_FOREACH.simps)
next
  case (Cons x xs)
  then obtain c where c: "p = x" "x \<noteq> 0" "h x = Some c" "ll_list nxt h (nxt c) xs" by auto
  show ?case using c Cons.IH [OF c(4), of "l @ [x]"] by (subst LL_FOREACH.simps) simp
qed

definition poll_fits :: "'j json_lib \<Rightarrow> (ptr \<Rightarrow> connect_env) \<Rightarrow> poll_env \<Rightarrow> nsq_world \<Rightarrow> bool" where
  "poll_fits lib net env w \<longleftrightarrow> easy_init_ok env
     \<and> (add_handle_ok env \<longrightarrow> calls_fit lib net (add_handle_calls env) (poll_state env w))"

lemma sent_lookup:
  assumes ok: "lookup_ok w" shows "lookup_ok (request_sent url added w)"
proof (rule lookup_web [OF ok])
  have h: "http_ok w" and a: "added_ok w" using ok by (simp_all add: lookup_ok_def)
  let ?w = "request_sent url added w"
  show "web_only w ?w"
    by (rule web_onlyI [where cs = "if added then [Curl_add_handle (brk w)] else []"]) (simp_all add: request_sent_def)
  show "http_ok ?w" using h by (simp add: http_ok_def request_sent_def)
  have "contents (new_buffer (junk w) 4096 0) = []" using collected_new [of "junk w"] by (simp add: collected_def)
  moreover have "\<not> handle_added (brk w) (calls w)" using a by (auto simp: added_ok_def)
  ultimately show "added_ok ?w"
    using a h collected_new by (auto simp: added_ok_def request_sent_def http_ok_def dest: less_SucI)
qed

lemma poll_returns:
  assumes ok: "lookup_ok w" and net: "net_ok net" and fits: "poll_fits lib net env w"
  shows "\<exists>w'. nsq_reader_lookupd_poll_cb lib net env w = Inr w' \<and> lookup_ok w'"
proof -
  have "net_inv w" using ok by (simp add: lookup_ok_def steady_ok_def)
  obtain r where r: "rdr w = Some r" "lookupd_head r \<noteq> 0"
      and urls: "\<forall>e x. endpoints w e = Some x \<longrightarrow> length (lookup_url x (topic r)) < 256"
    using ok unfolding lookup_ok_def urls_ok_def by blast
  obtain es where es: "ll_rep ep_next (endpoints w) (lookupd_head r) es"
    using \<open>net_inv w\<close> r(1) by (auto simp: net_inv_def rdr_ok_def)
  have ne: "es \<noteq> []" using es r(2) by (auto simp: ll_rep_def)
  let ?e = "es ! (rand_ret env mod length es)"
  obtain x where x: "endpoints w ?e = Some x" using ll_rep_mem [OF es, of ?e] ne by auto
  let ?w = "request_sent (c_str (lookup_url x (topic r))) (add_handle_ok env) w"
  let ?cs = "if add_handle_ok env then add_handle_calls env else []"
  have "ll_list ep_next (endpoints w) (lookupd_head r) es" using es by (simp add: ll_rep_def)
  from LL_FOREACH_list [OF this, of "[]"] have "poll_state env w = ?w"
    using r(1) x by (simp add: poll_state_def ends_def)
  then have cs: "calls_fit lib net ?cs ?w" using fits by (simp add: poll_fits_def)
  obtain w1 where w1: "curl_callbacks (nsq_lookupd_request_cb lib net) ?cs ?w = Inr w1" "lookup_ok w1"
    using calls_return(2) [OF net sent_lookup [OF ok] cs] by (auto simp: returns_ok_def)
  have "brk w \<noteq> 0" using ok by (simp add: lookup_ok_def http_ok_def)
  then have "nsq_reader_lookupd_poll_cb lib net env w
      = Inr (w1\<lparr>calls := Ev_timer_again Lookupd_poll_timer # calls w1\<rparr>)"
    using poll_run [OF r(1) es ne x, of lib net] urls x fits w1(1)
    by (simp add: poll_fits_def emit_def)
  then show ?thesis using emit_web(5) [OF w1(2)] by blast
qed

subsection \<open>Every event\<close>

text \<open>What the environment keeps to: the kernel, the peers, and libcurl.\<close>

fun web_fits :: "'j json_lib \<Rightarrow> (ptr \<Rightarrow> connect_env) \<Rightarrow> event \<Rightarrow> nsq_world \<Rightarrow> bool" where
  "web_fits lib net (Lookupd_poll_due env) w \<longleftrightarrow> poll_fits lib net env w"
| "web_fits lib net (Http_ready s revents run) w \<longleftrightarrow>
     (case http_socks w s of
        None \<Rightarrow> True
      | Some x \<Rightarrow>
          run_fits lib net run (w\<lparr>calls := Curl_socket_action (sockfd x) (int (poll_kind (int revents))) # calls w\<rparr>))"
| "web_fits lib net (Http_timer_due run) w \<longleftrightarrow>
     run_fits lib net run (w\<lparr>calls := Curl_socket_action (-1) 0 # Timer_expired Http_timer # calls w\<rparr>)"
| "web_fits lib net ev w \<longleftrightarrow> possible ev w \<and> peer_ok ev w"

lemma handle_lookup:
  assumes ok: "lookup_ok w" and app: "app_fits app" and net: "net_ok net"
    and ev: "enabled ev w" "web_fits lib net ev w"
  shows "\<exists>w'. handle app lib net ev w = Inr w' \<and> lookup_ok w'"
proof (cases "\<exists>q. on_socket q ev")
  case True
  then obtain q where q: "on_socket q ev" by blast
  then have "possible ev w" "peer_ok ev w" using ev(2) by (cases ev; simp)+
  then obtain w' where "handle app lib net ev w = Inr w'" "steady_ok w'" "aside w w'"
    using on_socket_steady [OF _ app q ev(1), of lib net] ok unfolding lookup_ok_def calm_def by blast
  then show ?thesis using lookup_aside [OF ok] by blast
next
  case False
  show ?thesis
  proof (cases ev)
    case (Reconnect_due p)
    have "steady w" "urls_ok w" using ok by (simp_all add: lookup_ok_def steady_ok_def)
    then have "\<not> timer_active (Reconnect_timer p) (calls w)" by (auto simp: steady_def urls_ok_def)
    then show ?thesis using ev(1) Reconnect_due by simp
  next
    case (Lookupd_poll_due env)
    then show ?thesis using poll_returns [OF ok net] ev(2) by simp
  next
    case (Http_ready s revents run)
    then obtain x where "http_socks w s = Some x"
      using ev(1) ok http_ok_active [of w s] by (auto simp: lookup_ok_def)
    then have "returns_ok (handle app lib net ev w)"
      using calls_return(3) [OF net emit_web(1) [OF ok]] ev(2) Http_ready by (simp add: event_cb_serve)
    then show ?thesis by (simp add: returns_ok_def)
  next
    case (Http_timer_due run)
    then have "returns_ok (handle app lib net ev w)"
      using calls_return(3) [OF net emit_web(1) [OF emit_web(6) [OF ok]], of lib run "-1" 0] ev(2)
      by (simp add: timer_cb_serve emit_def)
    then show ?thesis by (simp add: returns_ok_def)
  qed (use False in simp_all)
qed

fun web_env_ok :: "application \<Rightarrow> 'j json_lib \<Rightarrow> (ptr \<Rightarrow> connect_env) \<Rightarrow> event list \<Rightarrow> nsq_world \<Rightarrow> bool" where
  "web_env_ok app lib net [] w \<longleftrightarrow> True"
| "web_env_ok app lib net (ev # evs) w \<longleftrightarrow>
     (if enabled ev w then web_fits lib net ev w
        \<and> (case handle app lib net ev w of Inl e \<Rightarrow> True | Inr w' \<Rightarrow> web_env_ok app lib net evs w')
      else web_env_ok app lib net evs w)"

lemma run_lookup:
  assumes app: "app_fits app" and net: "net_ok net"
  shows "lookup_ok w \<Longrightarrow> web_env_ok app lib net evs w \<Longrightarrow>
    \<exists>w'. event_run app lib net evs w = Inr w' \<and> lookup_ok w'"
proof (induction evs arbitrary: w)
  case (Cons ev evs)
  show ?case
  proof (cases "enabled ev w")
    case True
    then obtain w1 where w1: "handle app lib net ev w = Inr w1" "lookup_ok w1"
      using handle_lookup [OF Cons.prems(1) app net True] Cons.prems(2) by auto
    then show ?thesis using True Cons.prems(2) Cons.IH [OF w1(2)] by simp
  next
    case False
    then show ?thesis using Cons by simp
  qed
qed simp

subsection \<open>The start of the program\<close>

text \<open>The URL of every request for the topic fits its array of 256 bytes.\<close>

fun lookupd_fits :: "byte list \<Rightarrow> startup \<Rightarrow> bool" where
  "lookupd_fits t (Add_lookupd a port) \<longleftrightarrow>
     length (lookup_url \<lparr>ep_address = c_str a, ep_port = port, ep_next = 0\<rparr> (c_str t)) < 256"
| "lookupd_fits t (Connect_to a port) \<longleftrightarrow> False"

fun start_entry :: "ext_call \<Rightarrow> bool" where
  "start_entry (Ev_timer_again Lookupd_poll_timer) \<longleftrightarrow> True"
| "start_entry Curl_multi_init \<longleftrightarrow> True"
| "start_entry (Curl_multi_setopt f) \<longleftrightarrow> True"
| "start_entry c \<longleftrightarrow> False"

lemma start_entries:
  assumes "list_all start_entry l"
  shows "\<not> io_active v l" "\<not> timer_active (Read_bytes_timer q) l" "\<not> timer_active (Reconnect_timer q) l"
    "\<not> once_pending q l" "\<not> handle_added q l"
proof -
  have "\<not> io_active v l \<and> \<not> timer_active (Read_bytes_timer q) l \<and> \<not> timer_active (Reconnect_timer q) l
      \<and> \<not> once_pending q l \<and> \<not> handle_added q l"
    using assms
  proof (induction l)
    case (Cons c l)
    then show ?case by (cases c rule: start_entry.cases) auto
  qed simp
  then show "\<not> io_active v l" "\<not> timer_active (Read_bytes_timer q) l" "\<not> timer_active (Reconnect_timer q) l"
    "\<not> once_pending q l" "\<not> handle_added q l" by simp_all
qed

definition starting :: "byte list \<Rightarrow> nsq_world \<Rightarrow> bool" where
  "starting t w \<longleftrightarrow> net_inv w \<and> conns w = Map.empty \<and> socks w = Map.empty \<and> http_socks w = Map.empty
     \<and> list_all start_entry (calls w)
     \<and> (\<exists>r. rdr w = Some r \<and> topic r = c_str t \<and> conns_head r = 0)
     \<and> (\<forall>e x. endpoints w e = Some x \<longrightarrow> length (lookup_url x (c_str t)) < 256)"

lemma starting_lookup:
  assumes st: "starting t w" and r: "rdr w = Some r" "lookupd_head r \<noteq> 0"
  shows "lookup_ok w"
proof -
  have w: "net_inv w" "conns w = Map.empty" "http_socks w = Map.empty" "list_all start_entry (calls w)"
      "topic r = c_str t" "\<forall>e x. endpoints w e = Some x \<longrightarrow> length (lookup_url x (c_str t)) < 256"
    using st r(1) by (simp_all add: starting_def)
  note idle = start_entries [OF w(4)]
  have "settled q w" for q using idle by (simp add: settled_def dead_def)
  moreover have "steady w" using r w(2) idle by (simp add: steady_def)
  moreover have "http_ok w" using w(1,3) idle(1) by (simp add: http_ok_def net_inv_def alloc_ok_def io_active_on)
  moreover have "added_ok w" using idle by (simp add: added_ok_def)
  moreover have "urls_ok w" using r w(5,6) by (auto simp: urls_ok_def)
  ultimately show ?thesis using w(1) by (simp add: lookup_ok_def steady_ok_def)
qed

lemma store_ep_cells:
  assumes "store p (set_ep_next n) h = Inr h'"
  shows "map_option (\<lambda>x. lookup_url x t) (h' e) = map_option (\<lambda>x. lookup_url x t) (h e)"
  using assms by (auto simp: store_def deref_def bind_res_Inr_iff set_ep_next_def lookup_url_def split: if_splits option.splits)

lemma append_ep_cells:
  assumes "LL_APPEND ep_next set_ep_next head add h = Inr (h', hp)"
  shows "map_option (\<lambda>x. lookup_url x t) (hp e) = map_option (\<lambda>x. lookup_url x t) (h e)"
proof -
  obtain h1 where h1: "store add (set_ep_next 0) h = Inr h1"
      and "hp = h1 \<or> (\<exists>tmp. store tmp (set_ep_next add) h1 = Inr hp)"
    using assms by (auto simp: LL_APPEND_def bind_res_Inr_iff split: if_splits)
  then show ?thesis using store_ep_cells [OF h1] store_ep_cells by metis
qed

lemma startup_lookup:
  assumes st: "starting t w" and fits: "lookupd_fits t op"
  shows "\<exists>w' r. startup_op net op w = Inr w' \<and> starting t w' \<and> rdr w' = Some r \<and> lookupd_head r \<noteq> 0"
proof -
  obtain a port where op: "op = Add_lookupd a port" using fits by (cases op) simp_all
  have inv: "net_inv w" using st by (simp add: starting_def)
  obtain r where r: "rdr w = Some r" "topic r = c_str t" "conns_head r = 0" using st by (auto simp: starting_def)
  obtain es where es: "ll_rep ep_next (endpoints w) (lookupd_head r) es"
    using inv r(1) by (auto simp: net_inv_def rdr_ok_def)
  let ?e = "brk w" and ?x = "\<lparr>ep_address = c_str a, ep_port = port, ep_next = 0\<rparr>"
  have al: "endpoints w ?e = None" "?e \<noteq> 0" using inv by (simp_all add: net_inv_def alloc_ok_def)
  have notin: "?e \<notin> set es" using ll_rep_mem [OF es, of ?e] al by auto
  have "ll_rep ep_next ((endpoints w)(?e \<mapsto> ?x)) (lookupd_head r) es"
    using es notin by (simp add: ll_rep_def ll_list_upd)
  from ep_list.append_appends [OF this _ al(2) notin]
  obtain h hp where hp: "LL_APPEND ep_next set_ep_next (lookupd_head r) ?e ((endpoints w)(?e \<mapsto> ?x)) = Inr (h, hp)"
      "ll_rep ep_next hp h (es @ [?e])" by auto
  let ?cs = "if lookupd_head r = 0 then [Ev_timer_again Lookupd_poll_timer] else []"
  let ?w = "w\<lparr>brk := ?e + 1, endpoints := hp, rdr := Some (r\<lparr>lookupd_head := h\<rparr>), calls := ?cs @ calls w\<rparr>"
  have run: "startup_op net op w = Inr ?w"
    using r(1,3) hp(1)
    by (cases "lookupd_head r = 0") (simp_all add: op nsq_reader_add_nsqlookupd_endpoint_def new_nsqlookupd_endpoint_def append_endpoint_def
        on_rdr_def Let_def foreach_conn_def LL_FOREACH.simps ends_def emit_def)
  have head: "h \<noteq> 0" using hp(2) by (cases es) (auto simp: ll_rep_def)
  have "length (lookup_url x (c_str t)) < 256" if "hp e = Some x" for e x
  proof -
    have "\<exists>y. ((endpoints w)(?e \<mapsto> ?x)) e = Some y \<and> lookup_url x (c_str t) = lookup_url y (c_str t)"
      using append_ep_cells [OF hp(1), of "c_str t" e] that
      by (cases "((endpoints w)(?e \<mapsto> ?x)) e") (simp_all del: fun_upd_apply)
    then show ?thesis using st fits by (auto simp: starting_def op split: if_splits)
  qed
  moreover have "net_inv ?w" using keepsD [OF keeps_startup_op [of net op] inv _ run] by blast
  ultimately have "starting t ?w" using st r by (simp add: starting_def)
  then show ?thesis using run head by (intro exI [of _ ?w] exI [of _ "r\<lparr>lookupd_head := h\<rparr>"]) simp
qed

lemma startups_lookup:
  "starting t w \<Longrightarrow> list_all (lookupd_fits t) ops \<Longrightarrow> ops \<noteq> [] \<Longrightarrow>
    \<exists>w'. block (map (startup_op net) ops) w = Inr w' \<and> lookup_ok w'"
proof (induction ops arbitrary: w)
  case (Cons op ops)
  obtain w1 r where w1: "startup_op net op w = Inr w1" "starting t w1" "rdr w1 = Some r" "lookupd_head r \<noteq> 0"
    using startup_lookup [OF Cons.prems(1), of op net] Cons.prems(2) by auto
  show ?case
  proof (cases "ops = []")
    case True
    then show ?thesis using w1 starting_lookup by (simp add: block_Nil)
  next
    case False
    then show ?thesis using Cons.IH [OF w1(2)] Cons.prems(2) w1(1) by simp
  qed
qed simp

lemma new_reader_starting:
  assumes "cfg_small c" and "length t < 2 ^ 29" and "length ch < 2 ^ 29"
  shows "\<exists>w. new_nsq_reader t ch c (empty_world j) = Inr w \<and> starting t w"
proof -
  obtain w where w: "new_nsq_reader t ch c (empty_world j) = Inr w"
    by (simp add: new_nsq_reader_def new_http_client_calls)
  have "net_inv w" by (rule new_reader_net [OF assms w])
  then show ?thesis
    using w by (auto simp: new_nsq_reader_def new_http_client_calls empty_world_def starting_def)
qed

text \<open>
  Property C4: a reader that only knows lookupds never faults. It is created, is given any number of
  endpoints, and then takes any sequence of events in any order: polls, sockets and timers of
  libcurl, answers of any status and contents, connects to the producers found, their success,
  failure or loss, input and output of all connections. No handler uses a null or dangling
  pointer, frees twice, leaves an array or block, or runs for ever, as long as the URLs fit their array,
  \<^verbatim>\<open>curl_easy_init\<close> succeeds, the kernel and libcurl answer as documented, the application as libnsq
  expects it (\<open>app_fits\<close>), and what nsqd and lookupd send is well formed. In the state it ends in
  all invariants hold, and exactly the allocated sockets of the HTTP client are watched.
\<close>

theorem lookupd_reader_never_faults:
  assumes "app_fits app" and "net_ok net" and "list_all (lookupd_fits t) ops" and "ops \<noteq> []"
    and "cfg_small c" and "length t < 2 ^ 29" and "length ch < 2 ^ 29"
    and "\<And>w. main j net t ch c ops = Inr w \<Longrightarrow> web_env_ok app lib net evs w"
  shows "\<exists>w w'. main j net t ch c ops = Inr w \<and> event_run app lib net evs w = Inr w'
    \<and> net_inv w' \<and> http_ok w'"
proof -
  obtain w0 where w0: "new_nsq_reader t ch c (empty_world j) = Inr w0" "starting t w0"
    using new_reader_starting [OF assms(5-7)] by blast
  obtain w where w: "block (map (startup_op net) ops) w0 = Inr w" "lookup_ok w"
    using startups_lookup [OF w0(2) assms(3,4)] by blast
  have m: "main j net t ch c ops = Inr w" using w0(1) w(1) by (simp add: main_def)
  obtain w' where "event_run app lib net evs w = Inr w'" "lookup_ok w'"
    using run_lookup [OF assms(1,2) w(2) assms(8) [OF m]] by blast
  then show ?thesis using m by (auto simp: lookup_ok_def steady_ok_def)
qed

subsection \<open>From a poll to a connection\<close>

lemma pieces_fit:
  assumes "reqs w r = Some y" and "r \<noteq> 0" and "handle_added r (calls w)" and "collected bs (req_data y)"
    and "length bs + length (concat css) < 2 ^ 28"
  shows "calls_fit lib net (pieces r css) w"
  using assms
proof (induction css arbitrary: w y bs)
  case Nil
  then show ?case by (simp add: pieces_def)
next
  case (Cons s css)
  have len: "length bs + length s < 2 ^ 28" and "contents (req_data y) = bs"
    using Cons.prems(4,5) by (simp_all add: collected_def)
  then have body: "body_fits r s w" using Cons.prems(1) by (simp add: body_fits_def)
  obtain b where b: "curl_callbacks (nsq_lookupd_request_cb lib net) (pieces r [s]) w
      = Inr (w\<lparr>reqs := (reqs w)(r \<mapsto> y\<lparr>req_data := b\<rparr>)\<rparr>)" "collected (bs @ s) b"
    using collect_pieces [OF Cons.prems(1,2,4), of "[s]" "nsq_lookupd_request_cb lib net"] len by auto
  let ?w = "w\<lparr>reqs := (reqs w)(r \<mapsto> y\<lparr>req_data := b\<rparr>)\<rparr>"
  have "calls_fit lib net (pieces r css) ?w"
    using Cons.prems b(2) by (intro Cons.IH [of ?w "y\<lparr>req_data := b\<rparr>" "bs @ s"]) simp_all
  moreover have "curl_callback (nsq_lookupd_request_cb lib net) (Curl_write r s 1 (length s)) w = Inr ?w"
    using b(1) by (auto simp: pieces_def bind_res_Inr_iff)
  ultimately show ?case using Cons.prems(3) body by (simp add: pieces_def)
qed

lemma demo_replies: "reply_fits demo_json text"
proof -
  have "producer_address demo_json (Some (2 + i)) \<noteq> None" for i
    using demo_peer [of i] by (auto simp: producer_peer_def)
  moreover have json: "json_array_get demo_json ps i = Some (2 + i)" for ps i by (simp add: demo_json_def)
  ultimately have "list_all (\<lambda>i. producer_address demo_json (json_array_get demo_json ps i) \<noteq> None) is" for ps "is"
    by (simp only: json list_all_iff) blast
  then show ?thesis by (simp add: reply_fits_def split: option.split)
qed

lemma web_env_step:
  "enabled ev w \<Longrightarrow> web_fits lib net ev w \<Longrightarrow> handle app lib net ev w = Inr w' \<Longrightarrow> web_env_ok app lib net evs w' \<Longrightarrow>
    web_env_ok app lib net (ev # evs) w"
  "web_fits lib net ev w \<Longrightarrow> (\<And>v. web_env_ok app lib net evs v) \<Longrightarrow> web_env_ok app lib net (ev # evs) w"
  by (simp_all del: handle.simps split: sum.split)

definition demo_find :: "event list" where
  "demo_find = [Lookupd_poll_due demo_dial, Http_ready 3 1 (Curl_run (pieces 2 [[123], [125, 10]]) [Curl_done 2 200]),
     Connect_done 6 demo_timeout]"

theorem lookupd_reader_never_faults_witness:
  "\<exists>w w'. main (\<lambda>_. 0) demo_net [116] [99] None [Add_lookupd [97] 4161] = Inr w
    \<and> event_run test_app demo_json demo_net demo_find w = Inr w' \<and> net_inv w' \<and> http_ok w'"
proof -
  have m: "main (\<lambda>_. 0) demo_net [116] [99] None [Add_lookupd [97] 4161] = Inr demo_lookupd"
    by (simp add: main_def demo_created demo_lookupd_added)
  obtain w where w: "nsq_reader_lookupd_poll_cb demo_json demo_net demo_dial demo_lookupd = Inr w"
    "calls w = Ev_timer_again Lookupd_poll_timer # Curl_multi_assign 9 3 # Ev_io_start (Http_io 3) 9
        # Curl_socket_action (- 1) 0 # Ev_timer_stop Http_timer # Curl_add_handle 2 # calls demo_lookupd"
    "map_option req_data (reqs w 2) = Some (new_buffer (\<lambda>_. 0) 4096 0)"
    by (rule demo_polled)
  obtain y where y: "reqs w 2 = Some y" "req_data y = new_buffer (\<lambda>_. 0) 4096 0" using w(3) by auto
  have poll: "poll_fits demo_json demo_net demo_dial demo_lookupd"
    by (simp add: poll_fits_def demo_dial_def split: sum.split)
  have last: "web_env_ok test_app demo_json demo_net [Connect_done 6 demo_timeout] v" for v
    by (rule web_env_step(2)) (simp_all add: sockopt_fits_def demo_timeout_def split: option.split)
  let ?run = "Curl_run (pieces 2 [[123], [125, 10]]) [Curl_done 2 200]"
  have run: "run_fits demo_json demo_net ?run (w\<lparr>calls := Curl_socket_action f k # calls w\<rparr>)" for f k
  proof -
    let ?v = "w\<lparr>calls := Curl_socket_action f k # calls w\<rparr>"
    have b: "collected [] (req_data y)" using y(2) collected_new by simp
    have added: "handle_added 2 (calls ?v)" by (simp add: w(2))
    obtain b' where "curl_callbacks (nsq_lookupd_request_cb demo_json demo_net) (pieces 2 [[123], [125, 10]]) ?v
        = Inr (?v\<lparr>reqs := (reqs ?v)(2 \<mapsto> y\<lparr>req_data := b'\<rparr>)\<rparr>)"
      using collect_pieces [of ?v 2 y "[]" "[[123], [125, 10]]" "nsq_lookupd_request_cb demo_json demo_net"] y(1) b
      by auto
    then show ?thesis
      using pieces_fit [of ?v 2 y "[]" "[[123], [125, 10]]" demo_json demo_net] added b y(1)
      by (simp add: demo_replies w(2) split: sum.split)
  qed
  have "web_env_ok test_app demo_json demo_net [Http_ready 3 1 ?run, Connect_done 6 demo_timeout] w"
    by (rule web_env_step(2)) (simp add: run del: run_fits.simps split: option.split, rule last)
  moreover have "enabled (Lookupd_poll_due demo_dial) demo_lookupd" by (simp add: demo_lookupd_def)
  moreover have "web_fits demo_json demo_net (Lookupd_poll_due demo_dial) demo_lookupd" using poll by simp
  moreover have "handle test_app demo_json demo_net (Lookupd_poll_due demo_dial) demo_lookupd = Inr w" using w(1) by simp
  ultimately have "web_env_ok test_app demo_json demo_net demo_find demo_lookupd"
    unfolding demo_find_def by (rule web_env_step(1) [rotated 3])
  moreover have "lookupd_fits [116] (Add_lookupd [97] 4161)"
    by (simp add: lookup_url_def bytes_of_def sprintf_d_def dec_digits.simps c_str_def)
  moreover have "net_ok demo_net" "cfg_small None" by (simp_all add: net_ok_def demo_net_def cfg_small_def)
  ultimately show ?thesis
    using lookupd_reader_never_faults [OF test_app_fits, of demo_net "[116]" "[Add_lookupd [97] 4161]" None "[99]" "\<lambda>_. 0"
        demo_json demo_find] m
    by auto
qed

end
