(* ===== verification/Test_Program.thy ===== *)
theory Test_Program
  imports Direct_Run Lookup_Run
begin

section \<open>The test program\<close>

text \<open>
  \<^verbatim>\<open>main\<close> of test.c, over the events that libev delivers in \<^verbatim>\<open>nsq_run\<close>. \<open>standalone\<close> says
  whether it is compiled with \<^verbatim>\<open>NSQD_STANDALONE\<close>; \<open>argv\<close> holds the program's name and its
  arguments. The value is the exit status with the final state.
\<close>

definition test_main :: "bool \<Rightarrow> 'j json_lib \<Rightarrow> (nat \<Rightarrow> byte) \<Rightarrow> (ptr \<Rightarrow> connect_env) \<Rightarrow>
    event list \<Rightarrow> byte list list \<Rightarrow> fault + int \<times> nsq_world" where
  "test_main standalone lib j net evs argv =
     (if length argv < 4 then Inr (1, empty_world j)
      else
        bind_res (new_nsq_reader (argv ! 2) (argv ! 3) None (empty_world j)) (\<lambda>w1.
        bind_res
          (startup_op net (if standalone then Connect_to (argv ! 1) 4150 else Add_lookupd (argv ! 1) 4161) w1) (\<lambda>w2.
        bind_res (event_run test_app lib net evs w2) (\<lambda>w3.
        Inr (0, w3)))))"

lemma test_main_usage: "length argv < 4 \<Longrightarrow> test_main st lib j net evs argv = Inr (1, empty_world j)"
  by (simp add: test_main_def)

text \<open>The standalone program ends with status 0 and no fault, whatever its peer does in frames that are well formed.\<close>

lemma test_main_standalone:
  assumes "net_ok net" and "4 \<le> length argv" and "\<forall>s\<in>set argv. length s < 2 ^ 29"
    and "\<And>w. main j net (argv ! 2) (argv ! 3) None [Connect_to (argv ! 1) 4150] = Inr w \<Longrightarrow>
      env_ok test_app lib net evs w"
  shows "\<exists>w. test_main True lib j net evs argv = Inr (0, w) \<and> direct_ok w"
proof -
  have short: "length (argv ! 2) < 2 ^ 29" "length (argv ! 3) < 2 ^ 29"
    using assms(2,3) by simp_all
  obtain w1 where w1: "new_nsq_reader (argv ! 2) (argv ! 3) None (empty_world j) = Inr w1" "direct_ok w1"
    using new_reader_direct [OF _ short] by (force simp: cfg_small_def)
  obtain rc w2 where w2: "nsq_reader_connect_to_nsqd net (argv ! 1) 4150 w1 = Inr (rc, w2)" "direct_ok w2"
    using connect_direct [OF w1(2) assms(1)] by blast
  have "main j net (argv ! 2) (argv ! 3) None [Connect_to (argv ! 1) 4150] = Inr w2"
    using w1 w2 by (simp add: main_def block_Nil)
  from run_direct [OF test_app_fits assms(1) w2(2) assms(4) [OF this]]
  show ?thesis using assms(2) w1 w2 by (auto simp: test_main_def)
qed

text \<open>The program built for lookupd ends with status 0 and no fault, if the URL fits its array.\<close>

lemma test_main_lookupd:
  assumes "net_ok net" and "4 \<le> length argv" and "\<forall>s\<in>set argv. length s < 2 ^ 29"
    and "lookupd_fits (argv ! 2) (Add_lookupd (argv ! 1) 4161)"
    and "\<And>w. main j net (argv ! 2) (argv ! 3) None [Add_lookupd (argv ! 1) 4161] = Inr w \<Longrightarrow>
      web_env_ok test_app lib net evs w"
  shows "\<exists>w. test_main False lib j net evs argv = Inr (0, w) \<and> lookup_ok w"
proof -
  have short: "length (argv ! 2) < 2 ^ 29" "length (argv ! 3) < 2 ^ 29"
    using assms(2,3) by simp_all
  obtain w1 where w1: "new_nsq_reader (argv ! 2) (argv ! 3) None (empty_world j) = Inr w1" "starting (argv ! 2) w1"
    using new_reader_starting [OF _ short] by (force simp: cfg_small_def)
  obtain w2 r where w2: "startup_op net (Add_lookupd (argv ! 1) 4161) w1 = Inr w2" "starting (argv ! 2) w2"
      "rdr w2 = Some r" "lookupd_head r \<noteq> 0"
    using startup_lookup [OF w1(2) assms(4)] by blast
  have "main j net (argv ! 2) (argv ! 3) None [Add_lookupd (argv ! 1) 4161] = Inr w2"
    using w1(1) w2(1) by (simp add: main_def block_Nil)
  from run_lookup [OF test_app_fits assms(1) starting_lookup [OF w2(2-4)] assms(5) [OF this]]
  show ?thesis using assms(2) w1(1) w2(1) by (auto simp: test_main_def)
qed

end
