(* ===== verification/Utlist_Sort.thy ===== *)
theory Utlist_Sort
  imports Utlist "HOL-Library.Multiset"
begin

section \<open>Sorting linked lists (utlist.h)\<close>

text \<open>
  The three sort macros of \<^verbatim>\<open>src/utlist.h\<close>: a merge sort without recursion. Each pass merges
  neighbouring runs of \<^verbatim>\<open>_ls_insize\<close> cells in place and doubles the size of a run. First the
  merging of runs on lists of addresses, then the macros, then that the macros do it on the heap.
\<close>


subsection \<open>Merging runs\<close>

fun mrg :: "('a \<Rightarrow> 'a \<Rightarrow> bool) \<Rightarrow> 'a list \<Rightarrow> 'a list \<Rightarrow> 'a list" where
  "mrg le [] ys = ys"
| "mrg le xs [] = xs"
| "mrg le (x # xs) (y # ys) = (if le x y then x # mrg le xs (y # ys) else y # mrg le (x # xs) ys)"

lemma mrg_Nil2 [simp]: "mrg le xs [] = xs"
  by (cases xs) simp_all

lemma mset_mrg [simp]: "mset (mrg le xs ys) = mset xs + mset ys"
  by (induction le xs ys rule: mrg.induct) simp_all

lemma set_mrg [simp]: "set (mrg le xs ys) = set xs \<union> set ys"
  by (induction le xs ys rule: mrg.induct) auto

lemma length_mrg [simp]: "length (mrg le xs ys) = length xs + length ys"
  by (induction le xs ys rule: mrg.induct) simp_all

lemma distinct_mrg: "distinct (mrg le xs ys) \<longleftrightarrow> distinct (xs @ ys)"
  by (simp flip: mset_append add: distinct_count_atmost_1 del: mset_append)

text \<open>A comparison that may tie, but compares any two and is transitive.\<close>

definition total_preorder :: "('a \<Rightarrow> 'a \<Rightarrow> bool) \<Rightarrow> bool" where
  "total_preorder le \<longleftrightarrow> (\<forall>x y. le x y \<or> le y x) \<and> (\<forall>x y z. le x y \<longrightarrow> le y z \<longrightarrow> le x z)"

definition ties :: "('a \<Rightarrow> 'a \<Rightarrow> bool) \<Rightarrow> 'a \<Rightarrow> 'a \<Rightarrow> bool" where
  "ties le k x \<longleftrightarrow> le k x \<and> le x k"

lemma total_preorderD:
  assumes "total_preorder le"
  shows "\<not> le x y \<Longrightarrow> le y x" and "le x y \<Longrightarrow> le y z \<Longrightarrow> le x z"
  using assms unfolding total_preorder_def by blast+

lemma sorted_mrg:
  assumes le: "total_preorder le"
  shows "sorted_wrt le xs \<Longrightarrow> sorted_wrt le ys \<Longrightarrow> sorted_wrt le (mrg le xs ys)"
proof (induction xs arbitrary: ys)
  case (Cons x xs)
  note outer = Cons.IH
  from Cons.prems(2,1) show ?case
  proof (induction ys)
    case (Cons y ys)
    show ?case
    proof (cases "le x y")
      case True
      then have "\<forall>z \<in> set (mrg le xs (y # ys)). le x z"
        using Cons.prems total_preorderD(2) [OF le, of x y] by auto
      then show ?thesis using True outer [of "y # ys"] Cons.prems by simp
    next
      case False
      then have "le y x" by (rule total_preorderD(1) [OF le])
      then have "\<forall>z \<in> set (mrg le (x # xs) ys). le y z"
        using Cons.prems total_preorderD(2) [OF le, of y x] by auto
      then show ?thesis using False Cons.IH Cons.prems by simp
    qed
  qed simp
qed simp

text \<open>A merge takes equal elements of the first list before those of the second.\<close>

lemma filter_mrg:
  assumes le: "total_preorder le"
  shows "sorted_wrt le xs \<Longrightarrow> sorted_wrt le ys \<Longrightarrow>
    filter (ties le k) (mrg le xs ys) = filter (ties le k) xs @ filter (ties le k) ys"
proof (induction xs arbitrary: ys)
  case (Cons x xs)
  note outer = Cons.IH
  from Cons.prems(2,1) show ?case
  proof (induction ys)
    case (Cons y ys)
    show ?case
    proof (cases "le x y")
      case True
      then show ?thesis using outer [of "y # ys"] Cons.prems by simp
    next
      case False
      have no: "\<not> ties le k z" if y: "ties le k y" and z: "z \<in> set (x # xs)" for z
      proof
        assume "ties le k z"
        then have "le z y" using y total_preorderD(2) [OF le] unfolding ties_def by blast
        moreover have "z = x \<or> le x z" using z Cons.prems(2) by auto
        ultimately show False using False total_preorderD(2) [OF le] by blast
      qed
      show ?thesis
      proof (cases "ties le k y")
        case True
        then have "filter (ties le k) (x # xs) = []" using no by (auto simp: filter_empty_conv)
        then show ?thesis using False Cons.IH Cons.prems True by simp
      next
        case no_tie: False
        then show ?thesis using False Cons.IH Cons.prems by simp
      qed
    qed
  qed simp
qed simp

subsection \<open>A pass over all runs\<close>

function merge_pass :: "('a \<Rightarrow> 'a \<Rightarrow> bool) \<Rightarrow> nat \<Rightarrow> 'a list \<Rightarrow> 'a list" where
  "merge_pass le k xs =
     (if k = 0 \<or> xs = [] then []
      else mrg le (take k xs) (take k (drop k xs)) @ merge_pass le k (drop (2 * k) xs))"
  by pat_completeness auto
termination by (relation "measure (\<lambda>(le, k, xs). length xs)") auto

declare merge_pass.simps [simp del]

lemma merge_pass_Nil [simp]: "merge_pass le k [] = []"
  by (simp add: merge_pass.simps)

definition sorted_runs :: "('a \<Rightarrow> 'a \<Rightarrow> bool) \<Rightarrow> nat \<Rightarrow> 'a list \<Rightarrow> bool" where
  "sorted_runs le k xs \<longleftrightarrow> (\<forall>i. sorted_wrt le (take k (drop (i * k) xs)))"

lemma sorted_runs_1: "sorted_runs le 1 xs"
proof -
  have "sorted_wrt le (take 1 ys)" for ys by (cases ys) simp_all
  then show ?thesis by (simp add: sorted_runs_def)
qed

lemma sorted_runs_drop: "sorted_runs le k xs \<Longrightarrow> sorted_runs le k (drop (j * k) xs)"
  unfolding sorted_runs_def
proof
  fix i assume "\<forall>i. sorted_wrt le (take k (drop (i * k) xs))"
  then have "sorted_wrt le (take k (drop ((i + j) * k) xs))" by blast
  then show "sorted_wrt le (take k (drop (i * k) (drop (j * k) xs)))" by (simp add: algebra_simps)
qed

lemma sorted_runs_first:
  "sorted_runs le k xs \<Longrightarrow> sorted_wrt le (take k xs)"
  "sorted_runs le k xs \<Longrightarrow> sorted_wrt le (take k (drop k xs))"
  unfolding sorted_runs_def by (metis mult_0 drop_0) (metis mult_1)

lemma sorted_runs_all: "sorted_runs le k xs \<Longrightarrow> length xs \<le> k \<Longrightarrow> sorted_wrt le xs"
  using sorted_runs_first(1) by fastforce

lemma split_two_runs: "take k xs @ take k (drop k xs) @ drop (2 * k) xs = xs"
  by (simp add: mult_2 flip: drop_drop)

lemma merge_pass_induct [consumes 1, case_names Nil step]:
  assumes "0 < k" and "P []"
    and "\<And>xs. xs \<noteq> [] \<Longrightarrow> P (drop (2 * k) xs) \<Longrightarrow> P xs"
  shows "P xs"
proof (induction "length xs" arbitrary: xs rule: less_induct)
  case less
  then show ?case
    using assms by (cases "xs = []") (simp_all add: less)
qed

lemma mset_merge_pass [simp]:
  assumes "0 < k" shows "mset (merge_pass le k xs) = mset xs"
  using assms
proof (induction xs rule: merge_pass_induct)
  case (step xs)
  have "mset (take k xs) + mset (take k (drop k xs)) + mset (drop (2 * k) xs) = mset xs"
    by (metis split_two_runs mset_append add.assoc)
  with step assms show ?case by (simp add: merge_pass.simps [of le k xs])
qed simp

lemma filter_merge_pass:
  assumes "total_preorder le" and k: "0 < k"
  shows "sorted_runs le k xs \<Longrightarrow> filter (ties le x) (merge_pass le k xs) = filter (ties le x) xs"
  using k
proof (induction xs rule: merge_pass_induct)
  case (step xs)
  have "sorted_runs le k (drop (2 * k) xs)" using step.prems by (rule sorted_runs_drop)
  with step.IH have "filter (ties le x) (merge_pass le k xs)
      = filter (ties le x) (take k xs @ take k (drop k xs) @ drop (2 * k) xs)"
    using step.hyps k filter_mrg [OF assms(1) sorted_runs_first [OF step.prems]]
    by (simp add: merge_pass.simps [of le k xs])
  then show ?case by (simp only: split_two_runs)
qed simp

lemma drop_merge_pass:
  assumes "0 < k" shows "drop (2 * k) (merge_pass le k xs) = merge_pass le k (drop (2 * k) xs)"
proof (cases "length xs < 2 * k")
  case True
  then have "length (merge_pass le k xs) \<le> 2 * k"
    using assms by (simp flip: size_mset)
  then show ?thesis using True by simp
next
  case False
  then show ?thesis
    using assms by (subst merge_pass.simps) (auto simp: min_def)
qed

lemma sorted_merge_pass:
  assumes le: "total_preorder le" and k: "0 < k" and runs: "sorted_runs le k xs"
  shows "sorted_runs le (2 * k) (merge_pass le k xs)"
  unfolding sorted_runs_def
proof
  fix i show "sorted_wrt le (take (2 * k) (drop (i * (2 * k)) (merge_pass le k xs)))"
    using runs
  proof (induction i arbitrary: xs)
    case 0
    have "sorted_wrt le (mrg le (take k xs) (take k (drop k xs)))"
      using sorted_mrg [OF le] sorted_runs_first [OF 0] by blast
    moreover have "take (2 * k) (merge_pass le k xs) = mrg le (take k xs) (take k (drop k xs))"
    proof (cases "length xs < 2 * k")
      case True
      then show ?thesis using k by (subst merge_pass.simps) auto
    next
      case False
      then show ?thesis using k by (subst merge_pass.simps) (auto simp: min_def)
    qed
    ultimately show ?case by simp
  next
    case (Suc i)
    have "drop (Suc i * (2 * k)) (merge_pass le k xs)
        = drop (i * (2 * k)) (merge_pass le k (drop (2 * k) xs))"
      by (simp add: add.commute flip: drop_merge_pass [OF k])
    then show ?case using Suc.IH [OF sorted_runs_drop [OF Suc.prems, of 2]] by simp
  qed
qed

subsection \<open>The sort macros\<close>

text \<open>
  \<^verbatim>\<open>LL_SORT\<close>, \<^verbatim>\<open>DL_SORT\<close> and \<^verbatim>\<open>CDL_SORT\<close> are the same text up to three places, which are
  arguments here: how the next cell is read (\<open>rd\<close>: the circular macro takes the old head for
  the end), what is written to \<^verbatim>\<open>prev\<close> (\<open>set_prv\<close>: nothing for singly linked lists), and how a
  pass ends (\<open>fin\<close>). The counters are C \<^verbatim>\<open>int\<close>s, which must not overflow.
\<close>

definition int_of_nat :: "nat \<Rightarrow> fault + nat" where
  "int_of_nat n = (if n < 2 ^ 31 then Inr n else Inl Int_overflow)"

text \<open>\<^verbatim>\<open>for (_ls_i = 0; _ls_i < _ls_insize; _ls_i++) { _ls_psize++; _ls_q = _ls_q->next; if (!_ls_q) break; }\<close>\<close>

fun ls_walk :: "('c \<Rightarrow> ptr) \<Rightarrow> 'c heap \<Rightarrow> nat \<Rightarrow> nat \<Rightarrow> ptr \<Rightarrow> fault + nat \<times> ptr" where
  "ls_walk rd h 0 psize q = Inr (psize, q)"
| "ls_walk rd h (Suc i) psize q =
     bind_res (deref h q) (\<lambda>c.
       if rd c = 0 then Inr (psize + 1, 0) else ls_walk rd h i (psize + 1) (rd c))"

text \<open>Whether the next cell comes from \<^verbatim>\<open>_ls_q\<close>.\<close>

definition ls_from_q ::
  "('c \<Rightarrow> 'c \<Rightarrow> int) \<Rightarrow> 'c heap \<Rightarrow> nat \<Rightarrow> nat \<Rightarrow> ptr \<Rightarrow> ptr \<Rightarrow> fault + bool" where
  "ls_from_q cmp h psize qsize p q =
     (if psize = 0 then Inr True
      else if qsize = 0 \<or> q = 0 then Inr False
      else bind_res (deref h p) (\<lambda>a. bind_res (deref h q) (\<lambda>b. Inr (\<not> cmp a b \<le> 0))))"

text \<open>\<^verbatim>\<open>if (_ls_tail) { _ls_tail->next = _ls_e } else { list = _ls_e } _ls_e->prev = _ls_tail\<close>\<close>

definition ls_append ::
  "(ptr \<Rightarrow> 'c \<Rightarrow> 'c) \<Rightarrow> (ptr \<Rightarrow> 'c \<Rightarrow> 'c) \<Rightarrow> ptr \<Rightarrow> ptr \<Rightarrow> ptr \<Rightarrow> 'c heap \<Rightarrow> fault + ptr \<times> 'c heap" where
  "ls_append set_nxt set_prv e tail list h =
     bind_res (if tail \<noteq> 0 then bind_res (store tail (set_nxt e) h) (\<lambda>h1. Inr (list, h1))
               else Inr (e, h)) (\<lambda>(list1, h1).
     bind_res (store e (set_prv tail) h1) (\<lambda>h2. Inr (list1, h2)))"

declare bind_res_cong [fundef_cong]

text \<open>\<^verbatim>\<open>while (_ls_psize > 0 || (_ls_qsize > 0 && _ls_q))\<close>\<close>

function ls_merge ::
  "('c \<Rightarrow> ptr) \<Rightarrow> (ptr \<Rightarrow> 'c \<Rightarrow> 'c) \<Rightarrow> (ptr \<Rightarrow> 'c \<Rightarrow> 'c) \<Rightarrow> ('c \<Rightarrow> 'c \<Rightarrow> int) \<Rightarrow> nat \<Rightarrow> nat \<Rightarrow> ptr \<Rightarrow> ptr \<Rightarrow>
    ptr \<Rightarrow> ptr \<Rightarrow> 'c heap \<Rightarrow> fault + ptr \<times> ptr \<times> ptr \<times> 'c heap" where
  "ls_merge rd set_nxt set_prv cmp psize qsize p q tail list h =
     (if 0 < psize \<or> (0 < qsize \<and> q \<noteq> 0) then
        bind_res (ls_from_q cmp h psize qsize p q) (\<lambda>from_q.
          if from_q then
            bind_res (deref h q) (\<lambda>c.
            bind_res (ls_append set_nxt set_prv q tail list h) (\<lambda>(list1, h1).
              ls_merge rd set_nxt set_prv cmp psize (qsize - 1) p (rd c) q list1 h1))
          else
            bind_res (deref h p) (\<lambda>c.
            bind_res (ls_append set_nxt set_prv p tail list h) (\<lambda>(list1, h1).
              ls_merge rd set_nxt set_prv cmp (psize - 1) qsize (rd c) q p list1 h1)))
      else Inr (q, tail, list, h))"
  by pat_completeness auto
termination
proof (relation "measure (\<lambda>(rd, set_nxt, set_prv, cmp, psize, qsize, p, q, tail, list, h). psize + qsize)")
qed (auto simp: ls_from_q_def split: if_splits)

declare ls_merge.simps [simp del]

text \<open>\<^verbatim>\<open>while (_ls_p) { _ls_nmerges++; ... }\<close>\<close>

partial_function (option) ls_pass ::
  "('c \<Rightarrow> ptr) \<Rightarrow> (ptr \<Rightarrow> 'c \<Rightarrow> 'c) \<Rightarrow> (ptr \<Rightarrow> 'c \<Rightarrow> 'c) \<Rightarrow> ('c \<Rightarrow> 'c \<Rightarrow> int) \<Rightarrow> nat \<Rightarrow> nat \<Rightarrow> ptr \<Rightarrow>
    ptr \<Rightarrow> ptr \<Rightarrow> 'c heap \<Rightarrow> (fault + nat \<times> ptr \<times> ptr \<times> 'c heap) option" where
  "ls_pass rd set_nxt set_prv cmp insize nmerges p tail list h =
     (if p = 0 then Some (Inr (nmerges, tail, list, h))
      else
        (case bind_res (int_of_nat (nmerges + 1)) (\<lambda>n.
                bind_res (ls_walk rd h insize 0 p) (\<lambda>(psize, q).
                bind_res (ls_merge rd set_nxt set_prv cmp psize insize p q tail list h) (\<lambda>r.
                  Inr (n, r)))) of
           Inl e \<Rightarrow> Some (Inl e)
         | Inr (n, q, tail1, list1, h1) \<Rightarrow> ls_pass rd set_nxt set_prv cmp insize n q tail1 list1 h1))"

text \<open>\<^verbatim>\<open>while (_ls_looping)\<close>\<close>

partial_function (option) ls_loop ::
  "(ptr \<Rightarrow> 'c \<Rightarrow> ptr) \<Rightarrow> (ptr \<Rightarrow> 'c \<Rightarrow> 'c) \<Rightarrow> (ptr \<Rightarrow> 'c \<Rightarrow> 'c) \<Rightarrow> ('c \<Rightarrow> 'c \<Rightarrow> int) \<Rightarrow>
    (ptr \<Rightarrow> ptr \<Rightarrow> 'c heap \<Rightarrow> fault + 'c heap) \<Rightarrow> nat \<Rightarrow> ptr \<Rightarrow> 'c heap \<Rightarrow>
    (fault + ptr \<times> 'c heap) option" where
  "ls_loop rd set_nxt set_prv cmp fin insize list h =
     (case ls_pass (rd list) set_nxt set_prv cmp insize 0 list 0 0 h of
        None \<Rightarrow> None
      | Some (Inl e) \<Rightarrow> Some (Inl e)
      | Some (Inr (nmerges, tail, list1, h1)) \<Rightarrow>
          (case bind_res (fin tail list1 h1) (\<lambda>h2.
                  bind_res (int_of_nat (insize * 2)) (\<lambda>n. Inr (h2, n))) of
             Inl e \<Rightarrow> Some (Inl e)
           | Inr (h2, n) \<Rightarrow>
               if nmerges \<le> 1 then Some (Inr (list1, h2))
               else ls_loop rd set_nxt set_prv cmp fin n list1 h2))"

definition LL_SORT ::
  "('c \<Rightarrow> ptr) \<Rightarrow> (ptr \<Rightarrow> 'c \<Rightarrow> 'c) \<Rightarrow> ('c \<Rightarrow> 'c \<Rightarrow> int) \<Rightarrow> ptr \<Rightarrow> 'c heap \<Rightarrow> fault + ptr \<times> 'c heap" where
  "LL_SORT nxt set_nxt cmp list h =
     (if list \<noteq> 0 then
        ends (ls_loop (\<lambda>_. nxt) set_nxt (\<lambda>_ c. c) cmp
          (\<lambda>tail list h. if tail \<noteq> 0 then store tail (set_nxt 0) h else Inr h) 1 list h)
      else Inr (list, h))"

definition DL_SORT ::
  "('c \<Rightarrow> ptr) \<Rightarrow> (ptr \<Rightarrow> 'c \<Rightarrow> 'c) \<Rightarrow> (ptr \<Rightarrow> 'c \<Rightarrow> 'c) \<Rightarrow> ('c \<Rightarrow> 'c \<Rightarrow> int) \<Rightarrow> ptr \<Rightarrow> 'c heap \<Rightarrow>
    fault + ptr \<times> 'c heap" where
  "DL_SORT nxt set_nxt set_prv cmp list h =
     (if list \<noteq> 0 then
        ends (ls_loop (\<lambda>_. nxt) set_nxt set_prv cmp
          (\<lambda>tail list h. bind_res (store list (set_prv tail) h) (store tail (set_nxt 0))) 1 list h)
      else Inr (list, h))"

definition CDL_SORT ::
  "('c \<Rightarrow> ptr) \<Rightarrow> (ptr \<Rightarrow> 'c \<Rightarrow> 'c) \<Rightarrow> (ptr \<Rightarrow> 'c \<Rightarrow> 'c) \<Rightarrow> ('c \<Rightarrow> 'c \<Rightarrow> int) \<Rightarrow> ptr \<Rightarrow> 'c heap \<Rightarrow>
    fault + ptr \<times> 'c heap" where
  "CDL_SORT nxt set_nxt set_prv cmp list h =
     (if list \<noteq> 0 then
        ends (ls_loop (\<lambda>oldhead c. if nxt c = oldhead then 0 else nxt c) set_nxt set_prv cmp
          (\<lambda>tail list h. bind_res (store list (set_prv tail) h) (store tail (set_nxt list))) 1 list h)
      else Inr (list, h))"

subsection \<open>Cells that are linked anew\<close>

text \<open>The laws of the two fields, and that the comparison does not look at them.\<close>

definition cell_laws ::
  "('c \<Rightarrow> ptr) \<Rightarrow> (ptr \<Rightarrow> 'c \<Rightarrow> 'c) \<Rightarrow> ('c \<Rightarrow> ptr) \<Rightarrow> (ptr \<Rightarrow> 'c \<Rightarrow> 'c) \<Rightarrow> (ptr \<Rightarrow> ptr) \<Rightarrow> ('c \<Rightarrow> 'c \<Rightarrow> int) \<Rightarrow> bool"
where
  "cell_laws nxt set_nxt prv set_prv g cmp \<longleftrightarrow>
     (\<forall>x c. nxt (set_nxt x c) = x \<and> prv (set_nxt x c) = prv c
        \<and> nxt (set_prv x c) = nxt c \<and> prv (set_prv x c) = g x)
     \<and> (\<forall>x c d. cmp (set_nxt x c) d = cmp c d \<and> cmp d (set_nxt x c) = cmp d c
        \<and> cmp (set_prv x c) d = cmp c d \<and> cmp d (set_prv x c) = cmp d c)"

inductive relinked :: "(ptr \<Rightarrow> 'c \<Rightarrow> 'c) \<Rightarrow> (ptr \<Rightarrow> 'c \<Rightarrow> 'c) \<Rightarrow> 'c \<Rightarrow> 'c \<Rightarrow> bool"
  for set_nxt set_prv where
  same: "relinked set_nxt set_prv c c"
| nxt: "relinked set_nxt set_prv c d \<Longrightarrow> relinked set_nxt set_prv c (set_nxt x d)"
| prv: "relinked set_nxt set_prv c d \<Longrightarrow> relinked set_nxt set_prv c (set_prv x d)"

lemma relinked_trans:
  assumes "relinked sn sp c d" and "relinked sn sp d e" shows "relinked sn sp c e"
  using assms(2,1) by induction (auto intro: relinked.intros)

lemma relinked_keeps:
  assumes "relinked sn sp c d" and "\<And>x c. f (sn x c) = f c" and "\<And>x c. f (sp x c) = f c"
  shows "f d = f c"
  using assms(1) by induction (simp_all add: assms(2,3))

definition relinked_heap :: "(ptr \<Rightarrow> 'c \<Rightarrow> 'c) \<Rightarrow> (ptr \<Rightarrow> 'c \<Rightarrow> 'c) \<Rightarrow> 'c heap \<Rightarrow> 'c heap \<Rightarrow> bool" where
  "relinked_heap sn sp h h' \<longleftrightarrow> (\<forall>x. rel_option (relinked sn sp) (h x) (h' x))"

lemma relinked_heap_refl: "relinked_heap sn sp h h"
  by (simp add: relinked_heap_def option.rel_refl relinked.same)

lemma relinked_heap_trans:
  "relinked_heap sn sp h h1 \<Longrightarrow> relinked_heap sn sp h1 h2 \<Longrightarrow> relinked_heap sn sp h h2"
  unfolding relinked_heap_def by (metis option.rel_cases option.rel_inject(2) option.rel_intros(1) relinked_trans)

lemma relinked_heap_upd:
  "h x = Some c \<Longrightarrow> relinked sn sp c d \<Longrightarrow> relinked_heap sn sp h (h(x \<mapsto> d))"
  by (simp add: relinked_heap_def option.rel_refl relinked.same)

lemma relinked_heap_keeps:
  assumes "relinked_heap sn sp h h'" and "\<And>x c. f (sn x c) = f c" and "\<And>x c. f (sp x c) = f c"
  shows "map_option f (h' x) = map_option f (h x)"
proof -
  have "rel_option (relinked sn sp) (h x) (h' x)" using assms(1) by (simp add: relinked_heap_def)
  then show ?thesis using relinked_keeps [where f = f, OF _ assms(2,3)] by (auto elim!: option.rel_cases)
qed

text \<open>The order that the comparison puts on the addresses.\<close>

definition cell_le :: "('c \<Rightarrow> 'c \<Rightarrow> int) \<Rightarrow> 'c heap \<Rightarrow> ptr \<Rightarrow> ptr \<Rightarrow> bool" where
  "cell_le cmp h x y \<longleftrightarrow> cmp (the (h x)) (the (h y)) \<le> 0"

lemma cell_le_relinked:
  assumes laws: "cell_laws nxt sn prv sp g cmp" and rel: "relinked_heap sn sp h h'"
  shows "cell_le cmp h' = cell_le cmp h"
proof -
  have one: "cmp (the (h' x)) d = cmp (the (h x)) d \<and> cmp d (the (h' x)) = cmp d (the (h x))" for x d
  proof -
    have "rel_option (relinked sn sp) (h x) (h' x)" using rel by (simp add: relinked_heap_def)
    moreover have "relinked sn sp c c' \<Longrightarrow> cmp c' d = cmp c d \<and> cmp d c' = cmp d c" for c c'
      using relinked_keeps [of sn sp c c' "\<lambda>c. cmp c d"] relinked_keeps [of sn sp c c' "\<lambda>c. cmp d c"] laws
      by (simp add: cell_laws_def)
    ultimately show ?thesis by (auto elim!: option.rel_cases)
  qed
  then show ?thesis by (simp add: cell_le_def fun_eq_iff)
qed

text \<open>The cells \<open>xs\<close> lead from \<open>p\<close> to \<open>r\<close>.\<close>

fun path :: "('c \<Rightarrow> ptr) \<Rightarrow> 'c heap \<Rightarrow> ptr \<Rightarrow> ptr list \<Rightarrow> ptr \<Rightarrow> bool" where
  "path rd h p [] r \<longleftrightarrow> p = r"
| "path rd h p (x # xs) r \<longleftrightarrow> p = x \<and> x \<noteq> 0 \<and> (\<exists>c. h x = Some c \<and> path rd h (rd c) xs r)"

lemma path_cong: "(\<And>x. x \<in> set xs \<Longrightarrow> h' x = h x) \<Longrightarrow> path rd h' p xs r = path rd h p xs r"
  by (induction xs arbitrary: p) auto

lemma path_append: "path rd h p (xs @ ys) r \<longleftrightarrow> (\<exists>q. path rd h p xs q \<and> path rd h q ys r)"
  by (induction xs arbitrary: p) auto

lemma path_ll_list: "path rd h p xs 0 \<longleftrightarrow> ll_list rd h p xs"
  by (induction xs arbitrary: p) auto

lemma path_end: "path rd h p xs 0 \<Longrightarrow> (p = 0) = (xs = [])"
  by (cases xs) auto

text \<open>
  The list that the sort is building: \<open>os\<close>, linked up to its last cell, whose \<^verbatim>\<open>next\<close> is still
  an old one.
\<close>

fun chain :: "('c \<Rightarrow> ptr) \<Rightarrow> ('c \<Rightarrow> ptr) \<Rightarrow> (ptr \<Rightarrow> ptr) \<Rightarrow> 'c heap \<Rightarrow> ptr \<Rightarrow> ptr list \<Rightarrow> bool" where
  "chain nxt prv g h a [] \<longleftrightarrow> True"
| "chain nxt prv g h a [x] \<longleftrightarrow> x \<noteq> 0 \<and> (\<exists>c. h x = Some c \<and> prv c = g a)"
| "chain nxt prv g h a (x # y # zs) \<longleftrightarrow>
     x \<noteq> 0 \<and> (\<exists>c. h x = Some c \<and> prv c = g a \<and> nxt c = y) \<and> chain nxt prv g h x (y # zs)"

definition first_of :: "ptr list \<Rightarrow> ptr" where "first_of os = (case os of [] \<Rightarrow> 0 | x # _ \<Rightarrow> x)"
definition last_of :: "ptr list \<Rightarrow> ptr" where "last_of os = (if os = [] then 0 else last os)"

lemma chain_cong:
  "(\<And>x. x \<in> set os \<Longrightarrow> h' x = h x) \<Longrightarrow> chain nxt prv g h' a os = chain nxt prv g h a os"
  by (induction nxt prv g h a os rule: chain.induct) auto

lemma chain_mem: "chain nxt prv g h a os \<Longrightarrow> x \<in> set os \<Longrightarrow> x \<noteq> 0 \<and> (\<exists>c. h x = Some c)"
  by (induction nxt prv g h a os rule: chain.induct) auto

lemma chain_snoc:
  assumes laws: "cell_laws nxt sn prv sp g cmp"
  shows "chain nxt prv g h a os \<Longrightarrow> os \<noteq> [] \<Longrightarrow> distinct (os @ [e]) \<Longrightarrow> h (last os) = Some l \<Longrightarrow>
    h e = Some c \<Longrightarrow> e \<noteq> 0 \<Longrightarrow>
    chain nxt prv g (h(last os \<mapsto> sn e l, e \<mapsto> sp (last os) c)) a (os @ [e])"
proof (induction os arbitrary: a rule: induct_list012)
  case (2 x)
  then show ?case using laws by (auto simp: cell_laws_def)
next
  case (3 x y zs)
  have "last (y # zs) \<in> set (y # zs)" by (rule last_in_set) simp
  then have "last (y # zs) \<noteq> x" using "3.prems"(3) by auto
  then show ?case using "3.IH"(2) "3.prems" by auto
qed simp

subsection \<open>The loops on a list\<close>

lemma ls_append_run:
  assumes laws: "cell_laws nxt sn prv sp g cmp"
    and os: "chain nxt prv g h 0 os" and e: "h e = Some c" "e \<noteq> 0" "e \<notin> set os" and d: "distinct os"
  shows "\<exists>h'. ls_append sn sp e (last_of os) (first_of os) h = Inr (first_of (os @ [e]), h')
    \<and> chain nxt prv g h' 0 (os @ [e]) \<and> relinked_heap sn sp h h'
    \<and> (\<forall>x. x \<notin> set (os @ [e]) \<longrightarrow> h' x = h x)"
proof (cases "os = []")
  case True
  have "relinked_heap sn sp h (h(e \<mapsto> sp 0 c))"
    using e(1) by (intro relinked_heap_upd) (auto intro: relinked.intros)
  then show ?thesis
    using True e laws by (simp add: ls_append_def last_of_def first_of_def store_def cell_laws_def)
next
  case False
  obtain l where l: "h (last os) = Some l" "last os \<noteq> 0"
    using chain_mem [OF os last_in_set [OF False]] by auto
  have ne: "last os \<noteq> e" using e(3) last_in_set [OF False] by auto
  let ?h = "h(last os \<mapsto> sn e l, e \<mapsto> sp (last os) c)"
  have "ls_append sn sp e (last_of os) (first_of os) h = Inr (first_of (os @ [e]), ?h)"
    using False l e ne by (cases os) (auto simp: ls_append_def last_of_def first_of_def store_def)
  moreover have "chain nxt prv g ?h 0 (os @ [e])"
    using os False l e d by (intro chain_snoc [OF laws]) auto
  moreover have "relinked_heap sn sp h ?h"
  proof (rule relinked_heap_trans)
    show "relinked_heap sn sp h (h(last os \<mapsto> sn e l))"
      using l by (intro relinked_heap_upd) (auto intro: relinked.intros)
    show "relinked_heap sn sp (h(last os \<mapsto> sn e l)) ?h"
      using e ne by (intro relinked_heap_upd) (auto intro: relinked.intros)
  qed
  moreover have "\<forall>x. x \<notin> set (os @ [e]) \<longrightarrow> ?h x = h x" using last_in_set [OF False] by auto
  ultimately show ?thesis by blast
qed

text \<open>
  What a run of the merge loop leads to: \<open>ys\<close> are put behind \<open>os\<close>, \<open>rest\<close> is left for \<^verbatim>\<open>_ls_q\<close>.
\<close>

definition merged ::
  "('c \<Rightarrow> ptr) \<Rightarrow> ('c \<Rightarrow> ptr) \<Rightarrow> ('c \<Rightarrow> ptr) \<Rightarrow> (ptr \<Rightarrow> ptr) \<Rightarrow> (ptr \<Rightarrow> 'c \<Rightarrow> 'c) \<Rightarrow> (ptr \<Rightarrow> 'c \<Rightarrow> 'c) \<Rightarrow> 'c heap \<Rightarrow>
    ptr list \<Rightarrow> ptr list \<Rightarrow> 'c heap \<Rightarrow> ptr \<Rightarrow> bool" where
  "merged rd nxt prv g sn sp h os rest h' q \<longleftrightarrow>
     chain nxt prv g h' 0 os \<and> path rd h' q rest 0 \<and> relinked_heap sn sp h h'
     \<and> (\<forall>x. x \<notin> set os \<longrightarrow> h' x = h x)"

lemma merged_trans:
  assumes 1: "relinked_heap sn sp h h1" "\<forall>x. x \<notin> set os \<longrightarrow> h1 x = h x" and sub: "set os \<subseteq> set os'"
    and 2: "merged rd nxt prv g sn sp h1 os' rest h' q"
  shows "merged rd nxt prv g sn sp h os' rest h' q"
proof -
  have "relinked_heap sn sp h h'"
    using relinked_heap_trans [OF 1(1)] 2 by (simp add: merged_def)
  moreover have "h' x = h x" if "x \<notin> set os'" for x using that 1(2) 2 sub by (auto simp: merged_def)
  ultimately show ?thesis using 2 by (simp add: merged_def)
qed

lemma ls_from_q_run:
  assumes "path rd h p ps z" and "path rd h q rest 0"
  shows "ls_from_q cmp h (length ps) qsize p q = Inr (ps = []
    \<or> (qsize \<noteq> 0 \<and> rest \<noteq> [] \<and> \<not> cell_le cmp h p q))"
proof (cases "ps = [] \<or> qsize = 0 \<or> rest = []")
  case True
  then show ?thesis using path_end [OF assms(2)] by (auto simp: ls_from_q_def)
next
  case False
  then obtain a b where "p \<noteq> 0" "h p = Some a" "q \<noteq> 0" "h q = Some b"
    using assms by (cases ps; cases rest) auto
  then show ?thesis using False by (simp add: ls_from_q_def cell_le_def)
qed

text \<open>One turn of the merge loop: the cell \<open>e\<close> goes behind \<open>os\<close>, what is left of the runs stays.\<close>

lemma ls_merge_turn:
  assumes laws: "cell_laws nxt sn prv sp g cmp" and os: "chain nxt prv g h 0 os"
    and e: "h e = Some c" "e \<noteq> 0" and paths: "path rd h a as z" "path rd h b bs 0"
    and d: "distinct (os @ e # as @ bs)"
  shows "\<exists>h1. ls_append sn sp e (last_of os) (first_of os) h = Inr (first_of (os @ [e]), h1)
    \<and> chain nxt prv g h1 0 (os @ [e]) \<and> path rd h1 a as z \<and> path rd h1 b bs 0
    \<and> cell_le cmp h1 = cell_le cmp h \<and> distinct ((os @ [e]) @ as @ bs)
    \<and> (\<forall>zs rest h' q. merged rd nxt prv g sn sp h1 ((os @ [e]) @ zs) rest h' q
        \<longrightarrow> merged rd nxt prv g sn sp h (os @ e # zs) rest h' q)"
proof -
  obtain h1 where h1: "ls_append sn sp e (last_of os) (first_of os) h = Inr (first_of (os @ [e]), h1)"
      "chain nxt prv g h1 0 (os @ [e])" "relinked_heap sn sp h h1" "\<forall>x. x \<notin> set (os @ [e]) \<longrightarrow> h1 x = h x"
    using ls_append_run [OF laws os e] d by auto
  have "path rd h1 a as z" using paths(1) h1(4) d by (subst path_cong [of as h1 h]) auto
  moreover have "path rd h1 b bs 0" using paths(2) h1(4) d by (subst path_cong [of bs h1 h]) auto
  moreover have "merged rd nxt prv g sn sp h (os @ e # zs) rest h' q"
    if "merged rd nxt prv g sn sp h1 ((os @ [e]) @ zs) rest h' q" for zs rest h' q
    using merged_trans [OF h1(3,4) _ that] by auto
  ultimately show ?thesis using h1 cell_le_relinked [OF laws h1(3)] d by auto
qed

lemma ls_merge_run:
  assumes laws: "cell_laws nxt sn prv sp g cmp"
  shows "chain nxt prv g h 0 os \<Longrightarrow> path rd h p ps z \<Longrightarrow> path rd h q rest 0 \<Longrightarrow>
    distinct (os @ ps @ rest) \<Longrightarrow>
    \<exists>q' h'. ls_merge rd sn sp cmp (length ps) qsize p q (last_of os) (first_of os) h
        = (let os' = os @ mrg (cell_le cmp h) ps (take qsize rest) in Inr (q', last_of os', first_of os', h'))
      \<and> merged rd nxt prv g sn sp h (os @ mrg (cell_le cmp h) ps (take qsize rest)) (drop qsize rest) h' q'"
proof (induction "length ps + qsize" arbitrary: os ps p q rest qsize h rule: less_induct)
  case less
  note pre = less.prems
  let ?le = "cell_le cmp h"
  let ?fq = "ps = [] \<or> (qsize \<noteq> 0 \<and> rest \<noteq> [] \<and> \<not> ?le p q)"
  have q0: "q = 0 \<longleftrightarrow> rest = []" using path_end [OF pre(3)] .
  note fq = ls_from_q_run [OF pre(2,3), of cmp qsize]
  have tail: "last_of (os @ [e]) = e" for e by (simp add: last_of_def)
  consider (stop) "ps = []" "qsize = 0 \<or> rest = []"
    | (from_q) rest' n where "?fq" "rest = q # rest'" "qsize = Suc n"
    | (from_p) ps' where "\<not> ?fq" "ps = p # ps'"
  proof (cases ?fq)
    case True
    have "rest = q # tl rest" if "rest \<noteq> []" using that pre(3) by (cases rest) simp_all
    moreover have "qsize = Suc (qsize - 1)" if "qsize \<noteq> 0" using that by simp
    ultimately show ?thesis using stop from_q True by metis
  next
    case False
    then have "ps = p # tl ps" using pre(2) by (cases ps) simp_all
    then show ?thesis using from_p False by blast
  qed
  then show ?case
  proof cases
    case stop
    then show ?thesis
      using pre q0 relinked_heap_refl [of sn sp h] by (subst ls_merge.simps) (auto simp: merged_def)
  next
    case from_q
    obtain c where c: "h q = Some c" "q \<noteq> 0" "path rd h (rd c) rest' 0" using pre(3) from_q(2) by auto
    obtain h1 where h1: "ls_append sn sp q (last_of os) (first_of os) h = Inr (first_of (os @ [q]), h1)"
        "chain nxt prv g h1 0 (os @ [q])" "path rd h1 p ps z" "path rd h1 (rd c) rest' 0" "cell_le cmp h1 = ?le"
        "distinct ((os @ [q]) @ ps @ rest')"
        "\<And>zs rest h' q'. merged rd nxt prv g sn sp h1 ((os @ [q]) @ zs) rest h' q'
          \<Longrightarrow> merged rd nxt prv g sn sp h (os @ q # zs) rest h' q'"
      using ls_merge_turn [OF laws pre(1) c(1,2) pre(2) c(3)] pre(4) from_q(2) by auto
    have first: "mrg ?le ps (take qsize rest) = q # mrg ?le ps (take n rest')"
      using from_q pre(2) by (cases ps) auto
    obtain q' h' where run: "ls_merge rd sn sp cmp (length ps) n p (rd c) q (first_of (os @ [q])) h1
        = (let os' = os @ q # mrg ?le ps (take n rest') in Inr (q', last_of os', first_of os', h'))"
      and m: "merged rd nxt prv g sn sp h1 ((os @ [q]) @ mrg ?le ps (take n rest')) (drop n rest') h' q'"
      using less.hyps [OF _ h1(2-4,6), of n] from_q(3) by (auto simp: h1(5) tail)
    have "ls_merge rd sn sp cmp (length ps) qsize p q (last_of os) (first_of os) h
        = ls_merge rd sn sp cmp (length ps) n p (rd c) q (first_of (os @ [q])) h1"
      using fq from_q c(1,2) h1(1) by (subst ls_merge.simps) simp
    then show ?thesis using run h1(7) [OF m] from_q(2,3) unfolding first by auto
  next
    case from_p
    obtain c where c: "h p = Some c" "p \<noteq> 0" "path rd h (rd c) ps' z" using pre(2) from_p(2) by auto
    obtain h1 where h1: "ls_append sn sp p (last_of os) (first_of os) h = Inr (first_of (os @ [p]), h1)"
        "chain nxt prv g h1 0 (os @ [p])" "path rd h1 (rd c) ps' z" "path rd h1 q rest 0" "cell_le cmp h1 = ?le"
        "distinct ((os @ [p]) @ ps' @ rest)"
        "\<And>zs rest h' q'. merged rd nxt prv g sn sp h1 ((os @ [p]) @ zs) rest h' q'
          \<Longrightarrow> merged rd nxt prv g sn sp h (os @ p # zs) rest h' q'"
      using ls_merge_turn [OF laws pre(1) c(1,2,3) pre(3)] pre(4) from_p(2) by auto
    have first: "mrg ?le ps (take qsize rest) = p # mrg ?le ps' (take qsize rest)"
      using from_p pre(3) by (cases rest; cases qsize) auto
    obtain q' h' where run: "ls_merge rd sn sp cmp (length ps') qsize (rd c) q p (first_of (os @ [p])) h1
        = (let os' = os @ p # mrg ?le ps' (take qsize rest) in Inr (q', last_of os', first_of os', h'))"
      and m: "merged rd nxt prv g sn sp h1 ((os @ [p]) @ mrg ?le ps' (take qsize rest)) (drop qsize rest) h' q'"
      using less.hyps [OF _ h1(2-4,6), of qsize] from_p(2) by (auto simp: h1(5) tail)
    have "ls_merge rd sn sp cmp (length ps) qsize p q (last_of os) (first_of os) h
        = ls_merge rd sn sp cmp (length ps') qsize (rd c) q p (first_of (os @ [p])) h1"
      using fq from_p c(1,2) h1(1) by (subst ls_merge.simps) auto
    then show ?thesis using run h1(7) [OF m] unfolding first by auto
  qed
qed

lemma ls_walk_run:
  "path rd h p xs 0 \<Longrightarrow> xs \<noteq> [] \<Longrightarrow>
    \<exists>q. ls_walk rd h i n p = Inr (n + length (take i xs), q)
      \<and> path rd h p (take i xs) q \<and> path rd h q (drop i xs) 0"
proof (induction i arbitrary: p n xs)
  case (Suc i)
  then obtain xs' c where xs: "xs = p # xs'" "h p = Some c" "p \<noteq> 0" "path rd h (rd c) xs' 0"
    by (cases xs) auto
  show ?case
  proof (cases "rd c = 0")
    case True
    then have "xs' = []" using path_end [OF xs(4)] by simp
    then show ?thesis using xs True by simp
  next
    case False
    then have "xs' \<noteq> []" using path_end [OF xs(4)] by simp
    from Suc.IH [OF xs(4) this, of "n + 1"] show ?thesis using xs False by auto
  qed
qed simp

definition passes :: "nat \<Rightarrow> nat \<Rightarrow> nat" where
  "passes k n = (n + (2 * k - 1)) div (2 * k)"

lemma passes_0 [simp]: "0 < k \<Longrightarrow> passes k 0 = 0"
  by (simp add: passes_def)

lemma passes_step: "0 < k \<Longrightarrow> 0 < n \<Longrightarrow> passes k n = Suc (passes k (n - 2 * k))"
proof (cases "2 * k \<le> n")
  case True
  assume k: "0 < k"
  have "n + (2 * k - 1) = (n - 2 * k + (2 * k - 1)) + 2 * k" using True by simp
  then show ?thesis using k unfolding passes_def by (metis div_add_self2 mult_is_0 neq0_conv zero_neq_numeral Suc_eq_plus1)
next
  case False
  assume "0 < k" "0 < n"
  then have "(n + (2 * k - 1)) div (2 * k) = 1" using False by (intro div_nat_eqI) auto
  then show ?thesis using \<open>0 < k\<close> False by (simp add: passes_def)
qed

lemma passes_one: "0 < k \<Longrightarrow> passes k n \<le> 1 \<longleftrightarrow> n \<le> 2 * k"
  by (simp add: passes_def less_Suc_eq_le [symmetric] div_less_iff_less_mult) linarith

lemma ls_pass_run:
  assumes laws: "cell_laws nxt sn prv sp g cmp" and k: "0 < k"
  shows "chain nxt prv g h 0 os \<Longrightarrow> path rd h p xs 0 \<Longrightarrow> distinct (os @ xs) \<Longrightarrow> nm + length xs < 2 ^ 31 \<Longrightarrow>
    \<exists>q h'. ls_pass rd sn sp cmp k nm p (last_of os) (first_of os) h
        = (let os' = os @ merge_pass (cell_le cmp h) k xs
           in Some (Inr (nm + passes k (length xs), last_of os', first_of os', h')))
      \<and> merged rd nxt prv g sn sp h (os @ merge_pass (cell_le cmp h) k xs) [] h' q"
proof (induction "length xs" arbitrary: os p xs nm h rule: less_induct)
  case less
  note pre = less.prems
  let ?le = "cell_le cmp h"
  show ?case
  proof (cases "xs = []")
    case True
    then show ?thesis
      using pre k relinked_heap_refl [of sn sp h] path_end [OF pre(2)]
      by (subst ls_pass.simps) (auto simp: merged_def)
  next
    case False
    let ?ms = "mrg ?le (take k xs) (take k (drop k xs))" and ?xs = "drop (2 * k) xs"
    obtain q where walk: "ls_walk rd h k 0 p = Inr (length (take k xs), q)" "path rd h p (take k xs) q"
        "path rd h q (drop k xs) 0"
      using ls_walk_run [OF pre(2) False, of k 0] by auto
    have "distinct (os @ take k xs @ drop k xs)" using pre(3) by simp
    from ls_merge_run [OF laws pre(1) walk(2,3) this, of k] obtain q1 h1 where
      run: "ls_merge rd sn sp cmp (length (take k xs)) k p q (last_of os) (first_of os) h
        = Inr (q1, last_of (os @ ?ms), first_of (os @ ?ms), h1)"
      and m: "merged rd nxt prv g sn sp h (os @ ?ms) ?xs h1 q1"
      by (auto simp: Let_def mult_2)
    have h1: "chain nxt prv g h1 0 (os @ ?ms)" "path rd h1 q1 ?xs 0" "relinked_heap sn sp h h1"
        "\<forall>x. x \<notin> set (os @ ?ms) \<longrightarrow> h1 x = h x"
      using m by (simp_all add: merged_def)
    have le: "cell_le cmp h1 = ?le" by (rule cell_le_relinked [OF laws h1(3)])
    have split: "mset (?ms @ ?xs) = mset xs"
      by (metis split_two_runs mset_append mset_mrg add.assoc)
    have "mset ((os @ ?ms) @ ?xs) = mset (os @ xs)" using split by simp
    then have d: "distinct ((os @ ?ms) @ ?xs)" using pre(3) by (metis mset_eq_imp_distinct_iff)
    have short: "length ?xs < length xs" "nm + 1 + length ?xs < 2 ^ 31" using False k pre(4) by (cases xs; simp)+
    obtain q2 h2 where rest: "ls_pass rd sn sp cmp k (nm + 1) q1 (last_of (os @ ?ms)) (first_of (os @ ?ms)) h1
        = (let os' = (os @ ?ms) @ merge_pass ?le k ?xs
           in Some (Inr (nm + 1 + passes k (length ?xs), last_of os', first_of os', h2)))"
      and m2: "merged rd nxt prv g sn sp h1 ((os @ ?ms) @ merge_pass ?le k ?xs) [] h2 q2"
      using less.hyps [OF short(1) h1(1,2) d short(2)] unfolding le by blast
    have all: "merge_pass ?le k xs = ?ms @ merge_pass ?le k ?xs"
      using k False by (simp add: merge_pass.simps [of ?le k xs])
    have "passes k (length xs) = Suc (passes k (length ?xs))"
      using passes_step [OF k, of "length xs"] False by simp
    moreover have "nm + 1 < 2 ^ 31" using short(2) by simp
    moreover have "p \<noteq> 0" using path_end [OF pre(2)] False by simp
    ultimately have "ls_pass rd sn sp cmp k nm p (last_of os) (first_of os) h
        = (let os' = os @ merge_pass ?le k xs
           in Some (Inr (nm + passes k (length xs), last_of os', first_of os', h2)))"
      using walk(1) run rest unfolding all by (subst ls_pass.simps) (simp add: int_of_nat_def Let_def)
    moreover have "merged rd nxt prv g sn sp h (os @ merge_pass ?le k xs) [] h2 q2"
      using merged_trans [OF h1(3,4) _ m2] unfolding all by auto
    ultimately show ?thesis by blast
  qed
qed

text \<open>
  What the macro promises: the same cells in stable order, linked in the shape that the macro
  is for (\<open>shape\<close>), their other fields and all other cells as they were.
\<close>

definition stably_sorted :: "('a \<Rightarrow> 'a \<Rightarrow> bool) \<Rightarrow> 'a list \<Rightarrow> 'a list \<Rightarrow> bool" where
  "stably_sorted le xs ys \<longleftrightarrow> mset ys = mset xs \<and> sorted_wrt le ys
     \<and> (\<forall>k. filter (ties le k) ys = filter (ties le k) xs)"

text \<open>What the end of a pass must do to a list that is linked up to its last cell.\<close>

definition closes ::
  "('c \<Rightarrow> ptr) \<Rightarrow> ('c \<Rightarrow> ptr) \<Rightarrow> (ptr \<Rightarrow> ptr) \<Rightarrow> (ptr \<Rightarrow> 'c \<Rightarrow> 'c) \<Rightarrow> (ptr \<Rightarrow> 'c \<Rightarrow> 'c) \<Rightarrow> (ptr \<Rightarrow> 'c \<Rightarrow> ptr) \<Rightarrow>
    ('c heap \<Rightarrow> ptr \<Rightarrow> ptr list \<Rightarrow> bool) \<Rightarrow> (ptr \<Rightarrow> ptr \<Rightarrow> 'c heap \<Rightarrow> fault + 'c heap) \<Rightarrow> bool" where
  "closes nxt prv g sn sp rd shape fin \<longleftrightarrow>
     (\<forall>h ys. ys \<noteq> [] \<longrightarrow> distinct ys \<longrightarrow> chain nxt prv g h 0 ys \<longrightarrow>
        (\<exists>h'. fin (last_of ys) (first_of ys) h = Inr h' \<and> path (rd (first_of ys)) h' (first_of ys) ys 0
          \<and> shape h' (first_of ys) ys \<and> relinked_heap sn sp h h' \<and> (\<forall>x. x \<notin> set ys \<longrightarrow> h' x = h x)))"

lemma ls_loop_run:
  assumes laws: "cell_laws nxt sn prv sp g cmp" and le: "total_preorder (cell_le cmp h0)"
    and fin: "closes nxt prv g sn sp rd shape fin"
  shows "cell_le cmp h = cell_le cmp h0 \<Longrightarrow> path (rd list) h list xs 0 \<Longrightarrow> xs \<noteq> [] \<Longrightarrow> distinct xs \<Longrightarrow>
    sorted_runs (cell_le cmp h0) k xs \<Longrightarrow> 0 < k \<Longrightarrow> k < 2 ^ 30 \<Longrightarrow> length xs \<le> 2 ^ 30 \<Longrightarrow>
    \<exists>list' h' ys. ls_loop rd sn sp cmp fin k list h = Some (Inr (list', h')) \<and> shape h' list' ys
      \<and> stably_sorted (cell_le cmp h0) xs ys \<and> relinked_heap sn sp h h' \<and> (\<forall>x. x \<notin> set xs \<longrightarrow> h' x = h x)"
proof (induction "length xs - k" arbitrary: h list xs k rule: less_induct)
  case less
  note pre = less.prems
  let ?le = "cell_le cmp h0"
  let ?ys = "merge_pass ?le k xs"
  have ms: "mset ?ys = mset xs" using pre(6) by simp
  then have ys: "?ys \<noteq> []" "distinct ?ys" "set ?ys = set xs" "length ?ys = length xs"
    using pre(3,4) ms mset_eq_imp_distinct_iff [OF ms] mset_eq_setD [OF ms] mset_eq_length [OF ms] by auto
  obtain q h1 where
    pass: "ls_pass (rd list) sn sp cmp k 0 list 0 0 h = Some (Inr (passes k (length xs), last_of ?ys, first_of ?ys, h1))"
    and m: "merged (rd list) nxt prv g sn sp h ?ys [] h1 q"
    using ls_pass_run [OF laws pre(6), of h "[]" "rd list" list xs 0] pre(1,2,4,8)
    by (auto simp: Let_def last_of_def first_of_def)
  obtain h2 where h2: "fin (last_of ?ys) (first_of ?ys) h1 = Inr h2" "path (rd (first_of ?ys)) h2 (first_of ?ys) ?ys 0"
      "shape h2 (first_of ?ys) ?ys" "relinked_heap sn sp h1 h2" "\<forall>x. x \<notin> set ?ys \<longrightarrow> h2 x = h1 x"
    using fin ys(1,2) m unfolding closes_def merged_def by blast
  have rel: "relinked_heap sn sp h h2" "\<forall>x. x \<notin> set xs \<longrightarrow> h2 x = h x"
    using relinked_heap_trans [OF _ h2(4)] m h2(5) ys(3) by (auto simp: merged_def)
  have runs: "sorted_runs ?le (2 * k) ?ys" by (rule sorted_merge_pass [OF le pre(6,5)])
  have stable: "filter (ties ?le x) ?ys = filter (ties ?le x) xs" for x
    by (rule filter_merge_pass [OF le pre(6,5)])
  have step: "ls_loop rd sn sp cmp fin k list h
      = (if length xs \<le> 2 * k then Some (Inr (first_of ?ys, h2))
         else ls_loop rd sn sp cmp fin (2 * k) (first_of ?ys) h2)"
    using pass h2(1) pre(6,7) passes_one [OF pre(6), of "length xs"]
    by (subst ls_loop.simps) (simp add: int_of_nat_def mult.commute)
  show ?case
  proof (cases "length xs \<le> 2 * k")
    case True
    then have "sorted_wrt ?le ?ys" using sorted_runs_all [OF runs] ys(4) by simp
    then show ?thesis using step True h2(3) rel ms stable unfolding stably_sorted_def by auto
  next
    case False
    have "cell_le cmp h2 = ?le" using cell_le_relinked [OF laws rel(1)] pre(1) by simp
    moreover have "length ?ys - 2 * k < length xs - k" "2 * k < 2 ^ 30" using False pre(6,8) ys(4) by linarith+
    ultimately obtain list' h' zs where "ls_loop rd sn sp cmp fin (2 * k) (first_of ?ys) h2 = Some (Inr (list', h'))"
        "shape h' list' zs" "stably_sorted ?le ?ys zs" "relinked_heap sn sp h2 h'" "\<forall>x. x \<notin> set ?ys \<longrightarrow> h' x = h2 x"
      using less.hyps [OF _ _ h2(2) ys(1,2) runs] pre(6,8) ys(4) by auto
    then show ?thesis
      using step False rel ms stable ys(3) relinked_heap_trans [OF rel(1)] unfolding stably_sorted_def by auto
  qed
qed

lemma ls_sort_run:
  assumes "cell_laws nxt sn prv sp g cmp" and "total_preorder (cell_le cmp h)"
    and "closes nxt prv g sn sp rd shape fin" and "path (rd list) h list xs 0" and "xs \<noteq> []" and "distinct xs"
    and "length xs \<le> 2 ^ 30"
  shows "\<exists>list' h' ys. ends (ls_loop rd sn sp cmp fin 1 list h) = Inr (list', h') \<and> shape h' list' ys
    \<and> stably_sorted (cell_le cmp h) xs ys \<and> relinked_heap sn sp h h' \<and> (\<forall>x. x \<notin> set xs \<longrightarrow> h' x = h x)"
  using ls_loop_run [OF assms(1-3) refl assms(4-6) sorted_runs_1] assms(7) by (fastforce simp: ends_def)

subsection \<open>The three macros\<close>

lemma total_preorder_cell_le: "total_preorder (\<lambda>a b. cmp a b \<le> 0) \<Longrightarrow> total_preorder (cell_le cmp h)"
  unfolding total_preorder_def cell_le_def by blast

lemma chain_path:
  assumes "chain nxt prv g h a ys" and "ys \<noteq> []" and "distinct ys"
    and "\<And>x. x \<in> set ys \<Longrightarrow> x \<noteq> last ys \<Longrightarrow> map_option nxt (h' x) = map_option nxt (h x)"
    and "h' (last ys) = Some l" and "rd l = r" and "\<And>c. nxt c \<in> set (tl ys) \<Longrightarrow> rd c = nxt c"
  shows "path rd h' (hd ys) ys r"
  using assms
proof (induction ys arbitrary: a rule: induct_list012)
  case (3 x y zs)
  have last: "last (y # zs) \<in> set (y # zs)" by (rule last_in_set) simp
  then have ne: "x \<noteq> last (x # y # zs)" using "3.prems"(3) by auto
  obtain c where c: "h x = Some c" "x \<noteq> 0" "nxt c = y" using "3.prems"(1) by auto
  have "map_option nxt (h' x) = map_option nxt (h x)" using "3.prems"(4) [of x] ne by simp
  then obtain c' where c': "h' x = Some c'" "nxt c' = y" using c by auto
  have "rd c' = y" using "3.prems"(7) [of c'] c'(2) by simp
  moreover have "path rd h' (hd (y # zs)) (y # zs) r"
  proof (rule "3.IH"(2))
    show "chain nxt prv g h x (y # zs)" "y # zs \<noteq> []" "distinct (y # zs)" "h' (last (y # zs)) = Some l" "rd l = r"
      using "3.prems" by simp_all
    show "map_option nxt (h' z) = map_option nxt (h z)" if "z \<in> set (y # zs)" "z \<noteq> last (y # zs)" for z
      using "3.prems"(4) [of z] that by simp
    show "rd d = nxt d" if "nxt d \<in> set (tl (y # zs))" for d
      using "3.prems"(7) [of d] that by simp
  qed
  ultimately show ?case using c(2) c'(1) by simp
qed auto

lemma LL_closes:
  assumes "\<And>x c. nxt (sn x c) = x"
  shows "closes nxt (\<lambda>_. 0) (\<lambda>_. 0) sn (\<lambda>_ c. c) (\<lambda>_. nxt) (ll_rep nxt)
    (\<lambda>tail list h. if tail \<noteq> 0 then store tail (sn 0) h else Inr h)"
  unfolding closes_def
proof (intro allI impI)
  fix h ys assume ys: "ys \<noteq> []" "distinct ys" "chain nxt (\<lambda>_. 0) (\<lambda>_. 0) h 0 ys"
  obtain l where l: "h (last ys) = Some l" "last ys \<noteq> 0"
    using chain_mem [OF ys(3) last_in_set [OF ys(1)]] by auto
  let ?h = "h(last ys \<mapsto> sn 0 l)"
  have "path nxt ?h (hd ys) ys 0"
    by (rule chain_path [where rd = nxt and l = "sn 0 l", OF ys(3,1,2)]) (simp_all add: assms)
  moreover have "first_of ys = hd ys" "last_of ys = last ys"
    using ys(1) by (cases ys; simp add: first_of_def last_of_def)+
  moreover have "relinked_heap sn (\<lambda>_ c. c) h ?h"
    using l by (intro relinked_heap_upd) (auto intro: relinked.intros)
  moreover have "\<forall>x. x \<notin> set ys \<longrightarrow> ?h x = h x" using last_in_set [OF ys(1)] by auto
  ultimately show "\<exists>h'. (if last_of ys \<noteq> 0 then store (last_of ys) (sn 0) h else Inr h) = Inr h'
      \<and> path nxt h' (first_of ys) ys 0 \<and> ll_rep nxt h' (first_of ys) ys
      \<and> relinked_heap sn (\<lambda>_ c. c) h h' \<and> (\<forall>x. x \<notin> set ys \<longrightarrow> h' x = h x)"
    using l ys(2) by (auto simp: store_def ll_rep_def path_ll_list)
qed

text \<open>
  Property C28: \<^verbatim>\<open>LL_SORT\<close> on any null-terminated list of up to \<open>2 ^ 30\<close> cells, with any comparison
  that is a total preorder, comes to an end without a fault; the same cells are then a
  null-terminated list in sorted order, cells that compare equal in their old order, every
  field but \<^verbatim>\<open>next\<close> and every other cell as they were.
\<close>

theorem LL_SORT_sorts:
  assumes nxt: "\<And>x c. nxt (set_nxt x c) = x" and "\<And>x c d. cmp (set_nxt x c) d = cmp c d"
    and "\<And>x c d. cmp c (set_nxt x d) = cmp c d" and le: "total_preorder (\<lambda>a b. cmp a b \<le> 0)"
    and data: "\<And>x c. data (set_nxt x c) = data c"
    and rep: "ll_rep nxt h list xs" and small: "length xs \<le> 2 ^ 30"
  shows "\<exists>list' h' ys. LL_SORT nxt set_nxt cmp list h = Inr (list', h') \<and> ll_rep nxt h' list' ys
    \<and> stably_sorted (cell_le cmp h) xs ys
    \<and> (\<forall>x. map_option data (h' x) = map_option data (h x)) \<and> (\<forall>x. x \<notin> set xs \<longrightarrow> h' x = h x)"
proof (cases "xs = []")
  case True
  then have "list = 0" using rep by (simp add: ll_rep_def)
  then show ?thesis using True rep by (auto simp: LL_SORT_def stably_sorted_def)
next
  case False
  have laws: "cell_laws nxt set_nxt (\<lambda>_. 0) (\<lambda>_ c. c) (\<lambda>_. 0) cmp" using assms(1-3) by (simp add: cell_laws_def)
  have list: "path nxt h list xs 0" "distinct xs" using rep by (simp_all add: ll_rep_def path_ll_list)
  then have "list \<noteq> 0" using False by (cases xs) auto
  moreover obtain list' h' ys where run: "ends (ls_loop (\<lambda>_. nxt) set_nxt (\<lambda>_ c. c) cmp
        (\<lambda>tail list h. if tail \<noteq> 0 then store tail (set_nxt 0) h else Inr h) 1 list h) = Inr (list', h')"
      "ll_rep nxt h' list' ys" "stably_sorted (cell_le cmp h) xs ys" "relinked_heap set_nxt (\<lambda>_ c. c) h h'"
      "\<forall>x. x \<notin> set xs \<longrightarrow> h' x = h x"
    using ls_sort_run [OF laws total_preorder_cell_le [OF le] LL_closes [of nxt set_nxt, OF nxt] list(1) False
        list(2) small] by blast
  moreover have "map_option data (h' x) = map_option data (h x)" for x
    by (rule relinked_heap_keeps [OF run(4)]) (simp_all add: data)
  ultimately show ?thesis unfolding LL_SORT_def by auto
qed

text \<open>The links back: \<open>a\<close> before the first cell, then each cell before the next.\<close>

fun prevs :: "('c \<Rightarrow> ptr) \<Rightarrow> 'c heap \<Rightarrow> ptr \<Rightarrow> ptr list \<Rightarrow> bool" where
  "prevs prv h a [] \<longleftrightarrow> True"
| "prevs prv h a (x # xs) \<longleftrightarrow> (\<exists>c. h x = Some c \<and> prv c = a) \<and> prevs prv h x xs"

text \<open>
  A doubly linked list: the head's \<^verbatim>\<open>prev\<close> is the last cell. In the circular one the last
  cell's \<^verbatim>\<open>next\<close> is the head.
\<close>

definition dl_rep :: "('c \<Rightarrow> ptr) \<Rightarrow> ('c \<Rightarrow> ptr) \<Rightarrow> 'c heap \<Rightarrow> ptr \<Rightarrow> ptr list \<Rightarrow> bool" where
  "dl_rep nxt prv h p xs \<longleftrightarrow> path nxt h p xs 0 \<and> distinct xs \<and> prevs prv h (last_of xs) xs"

definition cdl_rep :: "('c \<Rightarrow> ptr) \<Rightarrow> ('c \<Rightarrow> ptr) \<Rightarrow> 'c heap \<Rightarrow> ptr \<Rightarrow> ptr list \<Rightarrow> bool" where
  "cdl_rep nxt prv h p xs \<longleftrightarrow> (xs = [] \<longrightarrow> p = 0) \<and> path nxt h p xs p \<and> distinct xs
     \<and> prevs prv h (last_of xs) xs"

lemma prevs_cong:
  "(\<And>x. x \<in> set xs \<Longrightarrow> map_option prv (h' x) = map_option prv (h x)) \<Longrightarrow> prevs prv h' a xs = prevs prv h a xs"
proof (induction xs arbitrary: a)
  case (Cons x xs)
  have "map_option prv (h' x) = map_option prv (h x)" using Cons.prems by simp
  then have "(\<exists>c. h' x = Some c \<and> prv c = a) = (\<exists>c. h x = Some c \<and> prv c = a)"
    by (cases "h x"; cases "h' x") auto
  moreover have "prevs prv h' x xs = prevs prv h x xs" using Cons.prems by (intro Cons.IH) simp
  ultimately show ?case by simp
qed simp

lemma chain_prevs: "chain nxt prv (\<lambda>p. p) h a xs \<Longrightarrow> prevs prv h a xs"
  by (induction xs arbitrary: a rule: induct_list012) auto

text \<open>How the doubly linked macros end a pass: \<open>r\<close> is what the last cell points to.\<close>

lemma double_closes:
  assumes laws: "cell_laws nxt sn prv sp (\<lambda>p. p) cmp"
    and ys: "ys \<noteq> []" "distinct ys" "chain nxt prv (\<lambda>p. p) h 0 ys"
    and rd: "\<And>c. nxt c = r \<Longrightarrow> rd c = r'" "\<And>c. nxt c \<in> set (tl ys) \<Longrightarrow> rd c = nxt c"
  shows "\<exists>h'. bind_res (store (first_of ys) (sp (last_of ys)) h) (store (last_of ys) (sn r)) = Inr h'
    \<and> path rd h' (first_of ys) ys r' \<and> path nxt h' (first_of ys) ys r \<and> prevs prv h' (last_of ys) ys
    \<and> relinked_heap sn sp h h' \<and> (\<forall>x. x \<notin> set ys \<longrightarrow> h' x = h x)"
proof -
  have hds: "first_of ys = hd ys" "last_of ys = last ys"
    using ys(1) by (cases ys; simp add: first_of_def last_of_def)+
  have in_ys: "hd ys \<in> set ys" "last ys \<in> set ys" using ys(1) by simp_all
  obtain f where f: "h (hd ys) = Some f" "hd ys \<noteq> 0" using chain_mem [OF ys(3) in_ys(1)] by auto
  let ?h1 = "h(hd ys \<mapsto> sp (last ys) f)"
  obtain l where l: "?h1 (last ys) = Some l" "last ys \<noteq> 0"
    using chain_mem [OF ys(3) in_ys(2)] by (cases "last ys = hd ys") auto
  let ?h2 = "?h1(last ys \<mapsto> sn r l)"
  have law: "nxt (sp x c) = nxt c" "prv (sn x c) = prv c" "prv (sp x c) = x" "nxt (sn x c) = x" for x c
    using laws by (simp_all add: cell_laws_def)
  have "map_option nxt (?h2 x) = map_option nxt (h x)" if "x \<in> set ys" "x \<noteq> last ys" for x
    using that f(1) by (simp add: law)
  note same = this
  have lst: "?h2 (last ys) = Some (sn r l)" by simp
  have "path rd ?h2 (hd ys) ys r'"
    by (rule chain_path [OF ys(3,1,2) same lst]) (simp_all add: rd law)
  moreover have "path nxt ?h2 (hd ys) ys r"
    by (rule chain_path [OF ys(3,1,2) same lst]) (simp_all add: law)
  moreover have "prevs prv ?h2 (last ys) ys"
  proof -
    obtain y zs where yz: "ys = y # zs" using ys(1) by (cases ys) auto
    have "prevs prv h y zs" using chain_prevs [OF ys(3)] yz by simp
    moreover have "prevs prv ?h2 y zs = prevs prv h y zs"
      using ys(2) l(1) yz by (intro prevs_cong) (auto simp: law split: if_splits)
    moreover have "\<exists>c. ?h2 y = Some c \<and> prv c = last ys" using l(1) yz by (auto simp: law)
    ultimately show ?thesis using yz by simp
  qed
  moreover have "relinked_heap sn sp h ?h2"
  proof (rule relinked_heap_trans)
    show "relinked_heap sn sp h ?h1" using f(1) by (rule relinked_heap_upd) (auto intro: relinked.intros)
    show "relinked_heap sn sp ?h1 ?h2" using l(1) by (rule relinked_heap_upd) (auto intro: relinked.intros)
  qed
  moreover have "\<forall>x. x \<notin> set ys \<longrightarrow> ?h2 x = h x" using in_ys by auto
  ultimately show ?thesis using f l by (auto simp: hds store_def)
qed

lemma DL_closes:
  assumes laws: "cell_laws nxt sn prv sp (\<lambda>p. p) cmp"
  shows "closes nxt prv (\<lambda>p. p) sn sp (\<lambda>_. nxt) (dl_rep nxt prv)
    (\<lambda>tail list h. bind_res (store list (sp tail) h) (store tail (sn 0)))"
  unfolding closes_def dl_rep_def
  using double_closes [OF laws, where r = 0 and rd = nxt and r' = 0] by blast

lemma CDL_closes:
  assumes laws: "cell_laws nxt sn prv sp (\<lambda>p. p) cmp"
  shows "closes nxt prv (\<lambda>p. p) sn sp (\<lambda>oldhead c. if nxt c = oldhead then 0 else nxt c) (cdl_rep nxt prv)
    (\<lambda>tail list h. bind_res (store list (sp tail) h) (store tail (sn list)))"
  unfolding closes_def cdl_rep_def
proof (intro allI impI)
  fix h ys assume ys: "ys \<noteq> []" "distinct ys" "chain nxt prv (\<lambda>p. p) h 0 ys"
  have "x \<noteq> first_of ys" if "x \<in> set (tl ys)" for x
    using that ys(1,2) by (cases ys) (auto simp: first_of_def)
  then have rd: "nxt c \<in> set (tl ys) \<Longrightarrow> (if nxt c = first_of ys then 0 else nxt c) = nxt c" for c by auto
  show "\<exists>h'. bind_res (store (first_of ys) (sp (last_of ys)) h) (store (last_of ys) (sn (first_of ys))) = Inr h'
      \<and> path (\<lambda>c. if nxt c = first_of ys then 0 else nxt c) h' (first_of ys) ys 0
      \<and> ((ys = [] \<longrightarrow> first_of ys = 0) \<and> path nxt h' (first_of ys) ys (first_of ys) \<and> distinct ys
        \<and> prevs prv h' (last_of ys) ys) \<and> relinked_heap sn sp h h' \<and> (\<forall>x. x \<notin> set ys \<longrightarrow> h' x = h x)"
    using double_closes [OF laws ys, where r = "first_of ys" and r' = 0
        and rd = "\<lambda>c. if nxt c = first_of ys then 0 else nxt c", OF _ rd] ys(1,2) by auto
qed

lemma cut_path:
  assumes "path nxt h a ys p" and "ys \<noteq> []" and "p \<notin> set (tl ys)"
  shows "path (\<lambda>c. if nxt c = p then 0 else nxt c) h a ys 0"
  using assms
proof (induction ys arbitrary: a rule: induct_list012)
  case (3 x y zs)
  then have "path (\<lambda>c. if nxt c = p then 0 else nxt c) h y (y # zs) 0" "y \<noteq> p" by auto
  then show ?case using "3.prems"(1) by auto
qed auto

text \<open>
  \<^verbatim>\<open>DL_SORT\<close> and \<^verbatim>\<open>CDL_SORT\<close> do the same for doubly linked lists, and set every \<^verbatim>\<open>prev\<close>.
\<close>

theorem DL_SORT_sorts:
  assumes laws: "cell_laws nxt set_nxt prv set_prv (\<lambda>p. p) cmp" and le: "total_preorder (\<lambda>a b. cmp a b \<le> 0)"
    and data: "\<And>x c. data (set_nxt x c) = data c" "\<And>x c. data (set_prv x c) = data c"
    and rep: "dl_rep nxt prv h list xs" and small: "length xs \<le> 2 ^ 30"
  shows "\<exists>list' h' ys. DL_SORT nxt set_nxt set_prv cmp list h = Inr (list', h') \<and> dl_rep nxt prv h' list' ys
    \<and> stably_sorted (cell_le cmp h) xs ys
    \<and> (\<forall>x. map_option data (h' x) = map_option data (h x)) \<and> (\<forall>x. x \<notin> set xs \<longrightarrow> h' x = h x)"
proof (cases "xs = []")
  case True
  then have "list = 0" using rep by (simp add: dl_rep_def)
  then show ?thesis using True rep by (auto simp: DL_SORT_def stably_sorted_def)
next
  case False
  have list: "path nxt h list xs 0" "distinct xs" using rep by (simp_all add: dl_rep_def)
  then have "list \<noteq> 0" using False by (cases xs) auto
  moreover obtain list' h' ys where run: "ends (ls_loop (\<lambda>_. nxt) set_nxt set_prv cmp
        (\<lambda>tail list h. bind_res (store list (set_prv tail) h) (store tail (set_nxt 0))) 1 list h) = Inr (list', h')"
      "dl_rep nxt prv h' list' ys" "stably_sorted (cell_le cmp h) xs ys" "relinked_heap set_nxt set_prv h h'"
      "\<forall>x. x \<notin> set xs \<longrightarrow> h' x = h x"
    using ls_sort_run [OF laws total_preorder_cell_le [OF le] DL_closes [OF laws] list(1) False
        list(2) small] by blast
  moreover have "map_option data (h' x) = map_option data (h x)" for x
    by (rule relinked_heap_keeps [OF run(4)]) (simp_all add: data)
  ultimately show ?thesis unfolding DL_SORT_def by auto
qed

theorem CDL_SORT_sorts:
  assumes laws: "cell_laws nxt set_nxt prv set_prv (\<lambda>p. p) cmp" and le: "total_preorder (\<lambda>a b. cmp a b \<le> 0)"
    and data: "\<And>x c. data (set_nxt x c) = data c" "\<And>x c. data (set_prv x c) = data c"
    and rep: "cdl_rep nxt prv h list xs" and small: "length xs \<le> 2 ^ 30"
  shows "\<exists>list' h' ys. CDL_SORT nxt set_nxt set_prv cmp list h = Inr (list', h') \<and> cdl_rep nxt prv h' list' ys
    \<and> stably_sorted (cell_le cmp h) xs ys
    \<and> (\<forall>x. map_option data (h' x) = map_option data (h x)) \<and> (\<forall>x. x \<notin> set xs \<longrightarrow> h' x = h x)"
proof (cases "xs = []")
  case True
  then have "list = 0" using rep by (simp add: cdl_rep_def)
  then show ?thesis using True rep by (auto simp: CDL_SORT_def stably_sorted_def)
next
  case False
  have rep': "path nxt h list xs list" "distinct xs" using rep by (simp_all add: cdl_rep_def)
  then have ne: "list \<noteq> 0" "list \<notin> set (tl xs)" using False by (cases xs; auto)+
  note list = cut_path [OF rep'(1) False ne(2)]
  obtain list' h' ys where run: "ends (ls_loop (\<lambda>oldhead c. if nxt c = oldhead then 0 else nxt c) set_nxt set_prv cmp
        (\<lambda>tail list h. bind_res (store list (set_prv tail) h) (store tail (set_nxt list))) 1 list h) = Inr (list', h')"
      "cdl_rep nxt prv h' list' ys" "stably_sorted (cell_le cmp h) xs ys" "relinked_heap set_nxt set_prv h h'"
      "\<forall>x. x \<notin> set xs \<longrightarrow> h' x = h x"
    using ls_sort_run [OF laws total_preorder_cell_le [OF le] CDL_closes [OF laws] list False
        rep'(2) small] by blast
  moreover have "map_option data (h' x) = map_option data (h x)" for x
    by (rule relinked_heap_keeps [OF run(4)]) (simp_all add: data)
  ultimately show ?thesis using ne(1) unfolding CDL_SORT_def by auto
qed

text \<open>Two cells, a number and a link each, in the wrong order.\<close>

theorem LL_SORT_sorts_witness:
  "\<exists>list' h'. LL_SORT snd (\<lambda>n c. (fst c, n)) (\<lambda>a b. fst a - fst b) 1 [1 \<mapsto> (5 :: int, 2), 2 \<mapsto> (3, 0)] = Inr (list', h')
    \<and> ll_rep snd h' list' [2, 1]"
proof -
  let ?h = "[1 \<mapsto> (5 :: int, 2), 2 \<mapsto> (3, 0)]" and ?cmp = "\<lambda>a b :: int \<times> ptr. fst a - fst b"
  have rep: "ll_rep snd ?h 1 [1, 2]" by (simp add: ll_rep_def)
  have le: "total_preorder (\<lambda>a b. ?cmp a b \<le> 0)" by (auto simp: total_preorder_def)
  obtain list' h' ys where run: "LL_SORT snd (\<lambda>n c. (fst c, n)) ?cmp 1 ?h = Inr (list', h')" "ll_rep snd h' list' ys"
      "stably_sorted (cell_le ?cmp ?h) [1, 2] ys"
    using LL_SORT_sorts [of snd "\<lambda>n c. (fst c, n)" ?cmp fst, OF _ _ _ le _ rep] by auto
  then have "mset ys = mset [2, 1]" "sorted_wrt (cell_le ?cmp ?h) ys"
    by (simp_all add: stably_sorted_def add_mset_commute)
  moreover from this(1) obtain a b where "ys = [a, b]"
    using mset_eq_length [of ys "[2, 1]"] by (auto simp: length_Suc_conv)
  ultimately have "ys = [2, 1]"
    by (auto simp: cell_le_def add_eq_conv_diff)
  then show ?thesis using run by auto
qed

end
