(* ===== verification/Utlist_More.thy ===== *)
theory Utlist_More
  imports Utlist
begin

section \<open>The other macros for singly linked lists (utlist.h)\<close>

text \<open>
  What the library does not expand: \<^verbatim>\<open>LL_PREPEND\<close>, \<^verbatim>\<open>LL_CONCAT\<close>, the two replacements for
  Visual Studio 2008, the loop that survives deletion, the searches, and the insertions next
  to an element. Reasoning is on the links alone: \<open>links\<close> forgets all of a heap but one field.
\<close>

subsection \<open>Links\<close>

definition links :: "('c \<Rightarrow> ptr) \<Rightarrow> 'c heap \<Rightarrow> ptr \<Rightarrow> ptr option" where
  "links sel h x = map_option sel (h x)"

definition relink :: "(ptr \<Rightarrow> 'c \<Rightarrow> 'c) \<Rightarrow> ptr \<Rightarrow> ptr \<Rightarrow> 'c heap \<Rightarrow> 'c heap" where
  "relink set_sel p v h = h(p \<mapsto> set_sel v (the (h p)))"

definition load :: "('c \<Rightarrow> ptr) \<Rightarrow> ptr \<Rightarrow> 'c heap \<Rightarrow> fault + ptr" where
  "load sel p h = bind_res (deref h p) (\<lambda>c. Inr (sel c))"

lemma load_links: "p \<noteq> 0 \<Longrightarrow> links sel h p = Some v \<Longrightarrow> load sel p h = Inr v"
  by (auto simp: load_def links_def)

lemma store_relink: "p \<noteq> 0 \<Longrightarrow> h p \<noteq> None \<Longrightarrow> store p (set_sel v) h = Inr (relink set_sel p v h)"
  by (auto simp: store_def relink_def)

lemma links_relink: "(\<And>v c. sel (set_sel v c) = v) \<Longrightarrow> links sel (relink set_sel p v h) = (links sel h)(p \<mapsto> v)"
  by (simp add: links_def relink_def fun_eq_iff)

lemma links_relink_other:
  "(\<And>v c. sel (set_sel v c) = sel c) \<Longrightarrow> h p \<noteq> None \<Longrightarrow> links sel (relink set_sel p v h) = links sel h"
  by (auto simp: links_def relink_def fun_eq_iff)

lemma relink_None [simp]: "h p \<noteq> None \<Longrightarrow> relink set_sel p v h x = None \<longleftrightarrow> h x = None"
  by (auto simp: relink_def)

lemma relink_outside [simp]: "x \<noteq> p \<Longrightarrow> relink set_sel p v h x = h x"
  by (simp add: relink_def)

text \<open>The cells \<open>xs\<close> lead from \<open>p\<close> to \<open>r\<close> along the links \<open>N\<close>.\<close>

fun npath :: "(ptr \<Rightarrow> ptr option) \<Rightarrow> ptr \<Rightarrow> ptr list \<Rightarrow> ptr \<Rightarrow> bool" where
  "npath N p [] r \<longleftrightarrow> p = r"
| "npath N p (x # xs) r \<longleftrightarrow> p = x \<and> x \<noteq> 0 \<and> (\<exists>n. N x = Some n \<and> npath N n xs r)"

lemma npath_append: "npath N p (xs @ ys) r \<longleftrightarrow> (\<exists>q. npath N p xs q \<and> npath N q ys r)"
  by (induction xs arbitrary: p) auto

lemma npath_upd [simp]: "x \<notin> set xs \<Longrightarrow> npath (N(x := v)) p xs r = npath N p xs r"
  by (induction xs arbitrary: p) auto

lemma npath_mem: "npath N p xs r \<Longrightarrow> x \<in> set xs \<Longrightarrow> x \<noteq> 0 \<and> N x \<noteq> None"
  by (induction xs arbitrary: p) auto

lemma ll_list_npath: "ll_list nxt h p xs \<longleftrightarrow> npath (links nxt h) p xs 0"
  by (induction xs arbitrary: p) (auto simp: links_def)

lemma links_None [simp]: "links sel h x = None \<longleftrightarrow> h x = None"
  by (simp add: links_def)

lemma split_at: "distinct xs \<Longrightarrow> x \<in> set xs \<Longrightarrow> \<exists>as bs. xs = as @ x # bs \<and> x \<notin> set as \<and> x \<notin> set bs"
  by (metis distinct.simps(2) distinct_append not_distinct_conv_prefix split_list disjoint_insert(1) list.simps(15))

text \<open>\<open>y\<close> in the place of \<open>x\<close>, or before it.\<close>

definition put_for :: "'a list \<Rightarrow> 'a \<Rightarrow> 'a list \<Rightarrow> 'a list" where
  "put_for ys x xs = concat (map (\<lambda>z. if z = x then ys else [z]) xs)"

lemma put_for_absent: "x \<notin> set xs \<Longrightarrow> put_for ys x xs = xs"
  by (induction xs) (auto simp: put_for_def)

lemma put_for_split: "x \<notin> set as \<Longrightarrow> x \<notin> set bs \<Longrightarrow> put_for ys x (as @ x # bs) = as @ ys @ bs"
  using put_for_absent [of x as ys] put_for_absent [of x bs ys] by (simp add: put_for_def)

lemma rep_split:
  assumes "distinct xs" and "x \<in> set xs"
  obtains as bs where "xs = as @ x # bs" "remove1 x xs = as @ bs"
    "\<And>ys. put_for ys x xs = as @ ys @ bs"
proof -
  obtain as bs where "xs = as @ x # bs" "x \<notin> set as" "x \<notin> set bs" using split_at [OF assms] by blast
  then show ?thesis using that by (simp add: remove1_append put_for_split)
qed

text \<open>
  \<open>edits rep cells h r ys\<close>: the macro has ended with \<open>r\<close>, which is no fault but a list of the
  cells \<open>ys\<close>, and has written to no cell outside of \<open>cells\<close>.
\<close>

definition edits ::
  "('c heap \<Rightarrow> ptr \<Rightarrow> ptr list \<Rightarrow> bool) \<Rightarrow> ptr set \<Rightarrow> 'c heap \<Rightarrow> fault + ptr \<times> 'c heap \<Rightarrow> ptr list \<Rightarrow> bool"
where
  "edits rep cells h r ys \<longleftrightarrow> (case r of Inl _ \<Rightarrow> False
     | Inr (p, h') \<Rightarrow> rep h' p ys \<and> (\<forall>x. x \<notin> cells \<longrightarrow> h' x = h x))"

subsection \<open>The macros\<close>

definition LL_PREPEND :: "(ptr \<Rightarrow> 'c \<Rightarrow> 'c) \<Rightarrow> ptr \<Rightarrow> ptr \<Rightarrow> 'c heap \<Rightarrow> fault + ptr \<times> 'c heap" where
  "LL_PREPEND set_nxt head add h = bind_res (store add (set_nxt head) h) (\<lambda>h1. Inr (add, h1))"

definition LL_CONCAT ::
  "('c \<Rightarrow> ptr) \<Rightarrow> (ptr \<Rightarrow> 'c \<Rightarrow> 'c) \<Rightarrow> ptr \<Rightarrow> ptr \<Rightarrow> 'c heap \<Rightarrow> fault + ptr \<times> 'c heap" where
  "LL_CONCAT nxt set_nxt head1 head2 h =
     (if head1 \<noteq> 0 then
        bind_res (ends (ll_last nxt h head1)) (\<lambda>tmp.
        bind_res (store tmp (set_nxt head2) h) (\<lambda>h1. Inr (head1, h1)))
      else Inr (head2, h))"

text \<open>\<^verbatim>\<open>while ((add)->next->next) { (add)->next = (add)->next->next; }\<close>\<close>

partial_function (option) vs2008_last ::
  "('c \<Rightarrow> ptr) \<Rightarrow> (ptr \<Rightarrow> 'c \<Rightarrow> 'c) \<Rightarrow> ptr \<Rightarrow> 'c heap \<Rightarrow> (fault + 'c heap) option" where
  "vs2008_last nxt set_nxt add h =
     (case bind_res (load nxt add h) (\<lambda>n. load nxt n h) of
        Inl e \<Rightarrow> Some (Inl e)
      | Inr m \<Rightarrow>
          if m = 0 then Some (Inr h)
          else (case store add (set_nxt m) h of
                  Inl e \<Rightarrow> Some (Inl e)
                | Inr h1 \<Rightarrow> vs2008_last nxt set_nxt add h1))"

definition LL_APPEND_VS2008 ::
  "('c \<Rightarrow> ptr) \<Rightarrow> (ptr \<Rightarrow> 'c \<Rightarrow> 'c) \<Rightarrow> ptr \<Rightarrow> ptr \<Rightarrow> 'c heap \<Rightarrow> fault + ptr \<times> 'c heap" where
  "LL_APPEND_VS2008 nxt set_nxt head add h =
     bind_res
       (if head \<noteq> 0 then
          bind_res (store add (set_nxt head) h) (\<lambda>h1.
          bind_res (ends (vs2008_last nxt set_nxt add h1)) (\<lambda>h2.
          bind_res (load nxt add h2) (\<lambda>n.
          bind_res (store n (set_nxt add) h2) (\<lambda>h3. Inr (head, h3)))))
        else Inr (add, h))
       (\<lambda>(head1, h1). bind_res (store add (set_nxt 0) h1) (\<lambda>h2. Inr (head1, h2)))"

text \<open>The head itself is the loop variable, and is restored at the end.\<close>

definition LL_DELETE_VS2008 ::
  "('c \<Rightarrow> ptr) \<Rightarrow> (ptr \<Rightarrow> 'c \<Rightarrow> 'c) \<Rightarrow> ptr \<Rightarrow> ptr \<Rightarrow> 'c heap \<Rightarrow> fault + ptr \<times> 'c heap" where
  "LL_DELETE_VS2008 nxt set_nxt head del h =
     (if head = del then bind_res (load nxt head h) (\<lambda>n. Inr (n, h))
      else
        (let tmp = head in
         bind_res (ends (ll_before nxt h del head)) (\<lambda>head1.
         bind_res (load nxt head1 h) (\<lambda>n.
         bind_res
           (if n \<noteq> 0 then bind_res (load nxt del h) (\<lambda>d. store head1 (set_nxt d) h) else Inr h)
           (\<lambda>h1. Inr (tmp, h1))))))"

text \<open>\<^verbatim>\<open>for((el)=(head);(el) && (tmp = (el)->next, 1); (el) = tmp)\<close>\<close>

partial_function (option) LL_FOREACH_SAFE ::
  "('c \<Rightarrow> ptr) \<Rightarrow> ('w \<Rightarrow> 'c heap) \<Rightarrow> (ptr \<Rightarrow> 'w \<Rightarrow> fault + bool \<times> 'w) \<Rightarrow> ptr \<Rightarrow> 'w \<Rightarrow>
    (fault + 'w) option" where
  "LL_FOREACH_SAFE nxt heap stmt el w =
     (if el = 0 then Some (Inr w)
      else (case bind_res (load nxt el (heap w)) (\<lambda>tmp. bind_res (stmt el w) (\<lambda>r. Inr (tmp, r))) of
              Inl e \<Rightarrow> Some (Inl e)
            | Inr (tmp, brk, w') \<Rightarrow>
                if brk then Some (Inr w') else LL_FOREACH_SAFE nxt heap stmt tmp w'))"

partial_function (option) ll_search ::
  "('c \<Rightarrow> ptr) \<Rightarrow> 'c heap \<Rightarrow> ('c \<Rightarrow> bool) \<Rightarrow> ptr \<Rightarrow> (fault + ptr) option" where
  "ll_search nxt h found out =
     (if out = 0 then Some (Inr 0)
      else (case deref h out of
              Inl e \<Rightarrow> Some (Inl e)
            | Inr c \<Rightarrow> if found c then Some (Inr out) else ll_search nxt h found (nxt c)))"

definition LL_SEARCH_SCALAR :: "('c \<Rightarrow> ptr) \<Rightarrow> ('c \<Rightarrow> 'v) \<Rightarrow> 'v \<Rightarrow> ptr \<Rightarrow> 'c heap \<Rightarrow> fault + ptr" where
  "LL_SEARCH_SCALAR nxt field val head h = ends (ll_search nxt h (\<lambda>c. field c = val) head)"

definition LL_SEARCH :: "('c \<Rightarrow> ptr) \<Rightarrow> ('c \<Rightarrow> 'v \<Rightarrow> int) \<Rightarrow> 'v \<Rightarrow> ptr \<Rightarrow> 'c heap \<Rightarrow> fault + ptr" where
  "LL_SEARCH nxt cmp elt head h = ends (ll_search nxt h (\<lambda>c. cmp c elt = 0) head)"

definition assert_ptrs :: "ptr list \<Rightarrow> fault + 'r \<Rightarrow> fault + 'r" where
  "assert_ptrs ps r = (if 0 \<in> set ps then Inl Assertion_failed else r)"

text \<open>\<^verbatim>\<open>add\<close> takes the place of the link to \<^verbatim>\<open>el\<close>: the end of the two macros below.\<close>

definition ll_relink ::
  "('c \<Rightarrow> ptr) \<Rightarrow> (ptr \<Rightarrow> 'c \<Rightarrow> 'c) \<Rightarrow> ptr \<Rightarrow> ptr \<Rightarrow> ptr \<Rightarrow> 'c heap \<Rightarrow> fault + ptr \<times> 'c heap" where
  "ll_relink nxt set_nxt head el add h =
     (if head = el then Inr (add, h)
      else
        bind_res (ends (ll_before nxt h el head)) (\<lambda>tmp.
        bind_res (load nxt tmp h) (\<lambda>n.
        bind_res (if n \<noteq> 0 then store tmp (set_nxt add) h else Inr h) (\<lambda>h1. Inr (head, h1)))))"

definition LL_REPLACE_ELEM ::
  "('c \<Rightarrow> ptr) \<Rightarrow> (ptr \<Rightarrow> 'c \<Rightarrow> 'c) \<Rightarrow> ptr \<Rightarrow> ptr \<Rightarrow> ptr \<Rightarrow> 'c heap \<Rightarrow> fault + ptr \<times> 'c heap" where
  "LL_REPLACE_ELEM nxt set_nxt head el add h =
     assert_ptrs [head, el, add]
       (bind_res (load nxt el h) (\<lambda>n.
        bind_res (store add (set_nxt n) h) (ll_relink nxt set_nxt head el add)))"

definition LL_PREPEND_ELEM ::
  "('c \<Rightarrow> ptr) \<Rightarrow> (ptr \<Rightarrow> 'c \<Rightarrow> 'c) \<Rightarrow> ptr \<Rightarrow> ptr \<Rightarrow> ptr \<Rightarrow> 'c heap \<Rightarrow> fault + ptr \<times> 'c heap" where
  "LL_PREPEND_ELEM nxt set_nxt head el add h =
     assert_ptrs [head, el, add]
       (bind_res (store add (set_nxt el) h) (ll_relink nxt set_nxt head el add))"

subsection \<open>What they do\<close>

lemma ll_search_list:
  "ll_list nxt h p xs \<Longrightarrow>
    ll_search nxt h found p = Some (Inr (case filter (\<lambda>x. found (the (h x))) xs of [] \<Rightarrow> 0 | x # _ \<Rightarrow> x))"
proof (induction xs arbitrary: p)
  case Nil
  then show ?case by (simp add: ll_search.simps)
next
  case (Cons x xs)
  then show ?case by (subst ll_search.simps) auto
qed

text \<open>
  The safe loop has read the next link before the body runs, so the body may do what it
  likes to the cell it is given, as long as it leaves the links of the others.
\<close>

lemma LL_FOREACH_SAFE_visits:
  assumes "\<And>x w w' y. x \<in> set xs \<Longrightarrow> f x w = Inr w' \<Longrightarrow> y \<in> set xs \<Longrightarrow> y \<noteq> x \<Longrightarrow>
      links nxt (heap w') y = links nxt (heap w) y"
    and "ll_rep nxt (heap w) p xs"
  shows "LL_FOREACH_SAFE nxt heap (\<lambda>x w. bind_res (f x w) (\<lambda>w'. Inr (False, w'))) p w = Some (visit f xs w)"
  using assms
proof (induction xs arbitrary: p w)
  case Nil
  then show ?case by (simp add: LL_FOREACH_SAFE.simps ll_rep_def)
next
  case (Cons x xs)
  then obtain n where n: "p = x" "x \<noteq> 0" "links nxt (heap w) x = Some n" "npath (links nxt (heap w)) n xs 0"
      "x \<notin> set xs" "distinct xs"
    by (auto simp: ll_rep_def ll_list_npath)
  show ?case
  proof (cases "f x w")
    case (Inl e)
    then show ?thesis using n by (simp add: LL_FOREACH_SAFE.simps load_links)
  next
    case (Inr w')
    have "\<forall>y \<in> set xs. links nxt (heap w') y = links nxt (heap w) y"
      using Cons.prems(1) [of x w w'] Inr n(5) by auto
    then have "npath (links nxt (heap w')) q ys r = npath (links nxt (heap w)) q ys r" if "set ys \<subseteq> set xs" for q ys r
      using that by (induction ys arbitrary: q) auto
    then have "ll_rep nxt (heap w') n xs" using n(4,6) by (simp add: ll_rep_def ll_list_npath)
    then have "LL_FOREACH_SAFE nxt heap (\<lambda>x w. bind_res (f x w) (\<lambda>w'. Inr (False, w'))) n w' = Some (visit f xs w')"
      using Cons.prems(1) by (intro Cons.IH) auto
    then show ?thesis using n(1-3) Inr by (subst LL_FOREACH_SAFE.simps) (simp add: load_links)
  qed
qed

context next_field
begin

lemma prepend_prepends:
  assumes rep: "ll_rep nxt h p xs" and new: "h a \<noteq> None" "a \<noteq> 0" "a \<notin> set xs"
  shows "\<exists>h'. LL_PREPEND set_nxt p a h = Inr (a, h') \<and> ll_rep nxt h' a (a # xs)
    \<and> (\<forall>x. x \<noteq> a \<longrightarrow> h' x = h x)"
  using assms by (auto simp: LL_PREPEND_def store_relink ll_rep_def ll_list_npath links_relink get_set)

lemma concat_concats:
  assumes xs: "ll_rep nxt h p xs" and ys: "ll_rep nxt h q ys" and disj: "set xs \<inter> set ys = {}"
  shows "\<exists>r h'. LL_CONCAT nxt set_nxt p q h = Inr (r, h') \<and> ll_rep nxt h' r (xs @ ys)
    \<and> (\<forall>x. x \<notin> set xs \<longrightarrow> h' x = h x)"
proof (cases "xs = []")
  case True
  then show ?thesis using xs ys by (auto simp: LL_CONCAT_def ll_rep_def)
next
  case False
  then obtain ws l where xsl: "xs = ws @ [l]" by (cases xs rule: rev_cases) auto
  have l: "npath (links nxt h) p ws l" "l \<noteq> 0" "h l \<noteq> None" "l \<notin> set ws" "l \<notin> set ys"
    using xs disj by (auto simp: ll_rep_def ll_list_npath xsl npath_append links_def)
  have "ll_last nxt h p = Some (Inr l)"
    using ll_last_on_list [of nxt h p xs] xs xsl by (simp add: ll_rep_def)
  moreover have "p \<noteq> 0" using xs False by (cases xs) (auto simp: ll_rep_def)
  ultimately have "LL_CONCAT nxt set_nxt p q h = Inr (p, relink set_nxt l q h)"
    using l by (simp add: LL_CONCAT_def ends_def store_relink)
  moreover have "ll_rep nxt (relink set_nxt l q h) p (xs @ ys)"
    using xs ys disj l by (auto simp: ll_rep_def ll_list_npath links_relink get_set xsl npath_append)
  ultimately show ?thesis using xsl by auto
qed

lemma relink_replaces:
  assumes l: "npath (links nxt h) p (as @ [el]) n" "el \<notin> set as" "distinct as" and a: "a \<noteq> 0" "a \<notin> set as"
    and rest: "npath (links nxt h) a cs 0" "set as \<inter> set cs = {}" and full: "ll_list nxt h p (as @ el # bs)"
  shows "\<exists>p' h'. ll_relink nxt set_nxt p el a h = Inr (p', h') \<and> npath (links nxt h') p' (as @ cs) 0
    \<and> (\<forall>x. x \<notin> set as \<longrightarrow> h' x = h x)"
proof (cases "as = []")
  case True
  then show ?thesis using l(1) rest by (auto simp: ll_relink_def)
next
  case False
  then obtain ws w where asw: "as = ws @ [w]" by (cases as rule: rev_cases) auto
  have w: "npath (links nxt h) p ws w" "w \<noteq> 0" "links nxt h w = Some el" "w \<notin> set ws" "w \<notin> set cs" "el \<noteq> 0"
    using l rest(2) by (auto simp: asw npath_append)
  have "h w \<noteq> None" using w(3) by (auto simp: links_def)
  moreover have "p \<noteq> el" using l(1,2) False by (cases as) auto
  moreover have "ll_before nxt h el p = Some (Inr w)"
    using ll_before_on_list [OF full l(2) False] asw by simp
  ultimately have run: "ll_relink nxt set_nxt p el a h = Inr (p, relink set_nxt w a h)"
    using w by (simp add: ll_relink_def ends_def load_links store_relink)
  have "npath (links nxt (relink set_nxt w a h)) p (as @ cs) 0"
    using w rest(1) by (auto simp: links_relink get_set asw npath_append)
  then show ?thesis using run asw by auto
qed

lemma replace_replaces:
  assumes rep: "ll_rep nxt h p xs" and el: "el \<in> set xs" and a: "h a \<noteq> None" "a \<noteq> 0" "a \<notin> set xs"
  shows "\<exists>p' h'. LL_REPLACE_ELEM nxt set_nxt p el a h = Inr (p', h') \<and> ll_rep nxt h' p' (put_for [a] el xs)
    \<and> (\<forall>x. x \<notin> insert a (set xs) \<longrightarrow> h' x = h x)"
proof -
  obtain as bs where xs: "xs = as @ el # bs" "el \<notin> set as" "el \<notin> set bs"
    using split_at [of xs el] rep el by (auto simp: ll_rep_def)
  have d: "distinct (as @ el # bs)" "npath (links nxt h) p (as @ el # bs) 0"
    using rep by (simp_all add: ll_rep_def ll_list_npath xs)
  then obtain n where n: "npath (links nxt h) p as el" "el \<noteq> 0" "links nxt h el = Some n" "npath (links nxt h) n bs 0"
    by (auto simp: npath_append)
  let ?h = "relink set_nxt a n h"
  have L: "links nxt ?h = (links nxt h)(a \<mapsto> n)" by (simp add: links_relink get_set)
  have "p \<noteq> 0" using d(2) n(2) by (cases as) auto
  then have run: "LL_REPLACE_ELEM nxt set_nxt p el a h = ll_relink nxt set_nxt p el a ?h"
    using a n by (simp add: LL_REPLACE_ELEM_def assert_ptrs_def load_links store_relink)
  have "\<exists>p' h'. ll_relink nxt set_nxt p el a ?h = Inr (p', h') \<and> npath (links nxt h') p' (as @ a # bs) 0
      \<and> (\<forall>x. x \<notin> set as \<longrightarrow> h' x = ?h x)"
  proof (rule relink_replaces)
    show "npath (links nxt ?h) p (as @ [el]) n" "npath (links nxt ?h) a (a # bs) 0"
      using n a xs by (auto simp: L npath_append)
    show "ll_list nxt ?h p (as @ el # bs)" using d(2) a xs by (simp add: ll_list_npath L)
  qed (use d a xs in auto)
  then obtain p' h' where r: "ll_relink nxt set_nxt p el a ?h = Inr (p', h')" "npath (links nxt h') p' (as @ a # bs) 0"
      "\<forall>x. x \<notin> set as \<longrightarrow> h' x = ?h x" by blast
  then show ?thesis
    using run d a xs by (auto simp: ll_rep_def ll_list_npath put_for_split)
qed

lemma prepend_elem_inserts:
  assumes rep: "ll_rep nxt h p xs" and el: "el \<in> set xs" and a: "h a \<noteq> None" "a \<noteq> 0" "a \<notin> set xs"
  shows "\<exists>p' h'. LL_PREPEND_ELEM nxt set_nxt p el a h = Inr (p', h') \<and> ll_rep nxt h' p' (put_for [a, el] el xs)
    \<and> (\<forall>x. x \<notin> insert a (set xs) \<longrightarrow> h' x = h x)"
proof -
  obtain as bs where xs: "xs = as @ el # bs" "el \<notin> set as" "el \<notin> set bs"
    using split_at [of xs el] rep el by (auto simp: ll_rep_def)
  have d: "distinct (as @ el # bs)" "npath (links nxt h) p (as @ el # bs) 0"
    using rep by (simp_all add: ll_rep_def ll_list_npath xs)
  then obtain n where n: "npath (links nxt h) p as el" "el \<noteq> 0" "links nxt h el = Some n" "npath (links nxt h) n bs 0"
    by (auto simp: npath_append)
  let ?h = "relink set_nxt a el h"
  have L: "links nxt ?h = (links nxt h)(a \<mapsto> el)" by (simp add: links_relink get_set)
  have "p \<noteq> 0" using d(2) n(2) by (cases as) auto
  then have run: "LL_PREPEND_ELEM nxt set_nxt p el a h = ll_relink nxt set_nxt p el a ?h"
    using a n by (simp add: LL_PREPEND_ELEM_def assert_ptrs_def store_relink)
  have "\<exists>p' h'. ll_relink nxt set_nxt p el a ?h = Inr (p', h') \<and> npath (links nxt h') p' (as @ a # el # bs) 0
      \<and> (\<forall>x. x \<notin> set as \<longrightarrow> h' x = ?h x)"
  proof (rule relink_replaces)
    show "npath (links nxt ?h) p (as @ [el]) n" "npath (links nxt ?h) a (a # el # bs) 0"
      using n a xs by (auto simp: L npath_append)
    show "ll_list nxt ?h p (as @ el # bs)" using d(2) a xs by (simp add: ll_list_npath L)
  qed (use d a xs in auto)
  then obtain p' h' where r: "ll_relink nxt set_nxt p el a ?h = Inr (p', h')" "npath (links nxt h') p' (as @ a # el # bs) 0"
      "\<forall>x. x \<notin> set as \<longrightarrow> h' x = ?h x" by blast
  then show ?thesis
    using run d a xs by (auto simp: ll_rep_def ll_list_npath put_for_split)
qed

text \<open>The replacements for Visual Studio 2008 leave the same heap.\<close>

lemma delete_vs2008: "LL_DELETE_VS2008 nxt set_nxt p d h = LL_DELETE nxt set_nxt p d h"
  by (simp add: LL_DELETE_VS2008_def LL_DELETE_def Let_def load_def bind_res_assoc
      if_distrib [of "\<lambda>r. bind_res r f" for f] cong: if_cong)

lemma append_vs2008:
  assumes set_set: "\<And>x y c. set_nxt x (set_nxt y c) = set_nxt x c"
    and rep: "ll_rep nxt h p xs" and new: "h a \<noteq> None" "a \<noteq> 0" "a \<notin> set xs"
  shows "LL_APPEND_VS2008 nxt set_nxt p a h = LL_APPEND nxt set_nxt p a h"
proof (cases "xs = []")
  case True
  then show ?thesis using assms by (simp add: LL_APPEND_VS2008_def LL_APPEND_def ll_rep_def)
next
  case False
  obtain c where c: "h a = Some c" using new(1) by auto
  have walk: "vs2008_last nxt set_nxt a (h(a \<mapsto> set_nxt q c)) = Some (Inr (h(a \<mapsto> set_nxt (last ys) c)))"
    if "ll_list nxt h q ys" "ys \<noteq> []" "a \<notin> set ys" for q ys
    using that
  proof (induction ys arbitrary: q)
    case (Cons y ys)
    then obtain d where d: "q = y" "y \<noteq> 0" "h y = Some d" "ll_list nxt h (nxt d) ys" "y \<noteq> a" by auto
    show ?case
    proof (cases "ys = []")
      case True
      then show ?thesis
        using d new(2) by (subst vs2008_last.simps) (simp add: load_def get_set)
    next
      case False
      then have "nxt d \<noteq> 0" using d(4) by (cases ys) auto
      then have "vs2008_last nxt set_nxt a (h(a \<mapsto> set_nxt q c))
          = vs2008_last nxt set_nxt a (h(a \<mapsto> set_nxt (nxt d) c))"
        using d new(2) by (subst vs2008_last.simps) (simp add: load_def get_set store_def set_set)
      then show ?thesis using False Cons.prems(3) Cons.IH [OF d(4) False] by (simp del: fun_upd_apply)
    qed
  qed simp
  have l: "ll_list nxt h p xs" using rep by (simp add: ll_rep_def)
  have p: "p \<noteq> 0" using l False by (cases xs) auto
  obtain d where d: "h (last xs) = Some d" "last xs \<noteq> 0" using ll_rep_mem [OF rep, of "last xs"] False by fastforce
  have ne: "last xs \<noteq> a" using new(3) last_in_set [OF False] by metis
  have "ll_list nxt (h(a \<mapsto> set_nxt 0 c)) p xs" using l new(3) by (simp add: ll_list_upd)
  then have last: "ll_last nxt (h(a \<mapsto> set_nxt 0 c)) p = Some (Inr (last xs))" using False by (rule ll_last_on_list)
  have "LL_APPEND nxt set_nxt p a h = Inr (p, h(a \<mapsto> set_nxt 0 c, last xs \<mapsto> set_nxt a d))"
    using c new(2) p last d ne by (simp add: LL_APPEND_def store_def ends_def)
  moreover have "LL_APPEND_VS2008 nxt set_nxt p a h = Inr (p, h(a \<mapsto> set_nxt 0 c, last xs \<mapsto> set_nxt a d))"
    using c new(2) p walk [OF l False new(3)] d ne
    by (simp add: LL_APPEND_VS2008_def store_def ends_def load_def get_set set_set fun_upd_twist)
  ultimately show ?thesis by simp
qed

end

subsection \<open>The macros edit lists\<close>

text \<open>
  Property C30: the macros for singly linked lists edit lists. On the cells \<open>xs\<close>, which hold \<open>x\<close>,
  and a cell \<open>a\<close> that is not yet linked, none of them faults or runs for ever:
  \<^verbatim>\<open>LL_PREPEND\<close> puts \<open>a\<close> at the front, \<^verbatim>\<open>LL_APPEND_VS2008\<close> at the end, \<^verbatim>\<open>LL_DELETE_VS2008\<close> takes out
  \<open>x\<close>, \<^verbatim>\<open>LL_REPLACE_ELEM\<close> puts \<open>a\<close> in its place and \<^verbatim>\<open>LL_PREPEND_ELEM\<close> before it, \<^verbatim>\<open>LL_CONCAT\<close>
  joins \<open>xs\<close> and \<open>ys\<close>; only the cells of \<open>xs\<close> and \<open>a\<close> are written.
\<close>

theorem LL_macros_edit:
  assumes laws: "\<And>x c. nxt (set_nxt x c) = x" "\<And>x y c. set_nxt x (set_nxt y c) = set_nxt x c"
    and xs: "ll_rep nxt h p xs" and x: "x \<in> set xs"
    and ys: "ll_rep nxt h q ys" "set xs \<inter> set ys = {}"
    and a: "h a \<noteq> None" "a \<noteq> 0" "a \<notin> set xs"
  shows "edits (ll_rep nxt) {a} h (LL_PREPEND set_nxt p a h) (a # xs)
    \<and> edits (ll_rep nxt) (insert a (set xs)) h (LL_APPEND_VS2008 nxt set_nxt p a h) (xs @ [a])
    \<and> edits (ll_rep nxt) (set xs) h (LL_DELETE_VS2008 nxt set_nxt p x h) (remove1 x xs)
    \<and> edits (ll_rep nxt) (insert a (set xs)) h (LL_REPLACE_ELEM nxt set_nxt p x a h) (put_for [a] x xs)
    \<and> edits (ll_rep nxt) (insert a (set xs)) h (LL_PREPEND_ELEM nxt set_nxt p x a h) (put_for [a, x] x xs)
    \<and> edits (ll_rep nxt) (set xs) h (LL_CONCAT nxt set_nxt p q h) (xs @ ys)"
proof -
  have field: "next_field nxt set_nxt" using laws(1) by unfold_locales
  obtain c where c: "h a = Some c" using a(1) by auto
  show ?thesis
    using next_field.prepend_prepends [OF field xs a] next_field.append_appends [OF field xs c a(2,3)]
      next_field.append_vs2008 [OF field laws(2) xs a] next_field.delete_vs2008 [OF field, of p x h]
      next_field.delete_removes [OF field xs x] next_field.replace_replaces [OF field xs x a]
      next_field.prepend_elem_inserts [OF field xs x a] next_field.concat_concats [OF field xs ys]
    by (auto simp: edits_def)
qed

theorem LL_macros_edit_witness:
  "edits (ll_rep fst) {4, 1, 2} [1 \<mapsto> (2 :: ptr, True), 2 \<mapsto> (0, False), 3 \<mapsto> (0, True), 4 \<mapsto> (9, False)]
     (LL_REPLACE_ELEM fst (\<lambda>n c. (n, snd c)) 1 2 4
       [1 \<mapsto> (2, True), 2 \<mapsto> (0, False), 3 \<mapsto> (0, True), 4 \<mapsto> (9, False)]) [1, 4]"
  using LL_macros_edit [of fst "\<lambda>n c. (n, snd c)"
      "[1 \<mapsto> (2 :: ptr, True), 2 \<mapsto> (0, False), 3 \<mapsto> (0, True), 4 \<mapsto> (9, False)]" 1 "[1, 2]" 2 3 "[3]" 4]
  by (simp add: ll_rep_def put_for_def)

end
