(* ===== verification/Utlist_Double.thy ===== *)
theory Utlist_Double
  imports Utlist_Sort Utlist_More
begin

section \<open>Doubly linked lists (utlist.h)\<close>

text \<open>
  The \<^verbatim>\<open>DL_\<close> and \<^verbatim>\<open>CDL_\<close> macros of \<^verbatim>\<open>src/utlist.h\<close>. In a doubly linked list the head's
  \<^verbatim>\<open>prev\<close> is the last cell, so that appending takes no loop; the circular ones also link the
  last cell to the head. The loops and searches of \<^verbatim>\<open>DL_\<close> lists are those of \<^verbatim>\<open>LL_\<close> lists.
\<close>

subsection \<open>The macros\<close>

definition DL_PREPEND ::
  "(ptr \<Rightarrow> 'c \<Rightarrow> 'c) \<Rightarrow> ('c \<Rightarrow> ptr) \<Rightarrow> (ptr \<Rightarrow> 'c \<Rightarrow> 'c) \<Rightarrow> ptr \<Rightarrow> ptr \<Rightarrow> 'c heap \<Rightarrow> fault + ptr \<times> 'c heap" where
  "DL_PREPEND set_nxt prv set_prv head add h =
     bind_res (store add (set_nxt head) h) (\<lambda>h1.
     bind_res
       (if head \<noteq> 0 then
          bind_res (load prv head h1) (\<lambda>l.
          bind_res (store add (set_prv l) h1) (store head (set_prv add)))
        else store add (set_prv add) h1)
       (\<lambda>h2. Inr (add, h2)))"

definition DL_APPEND ::
  "(ptr \<Rightarrow> 'c \<Rightarrow> 'c) \<Rightarrow> ('c \<Rightarrow> ptr) \<Rightarrow> (ptr \<Rightarrow> 'c \<Rightarrow> 'c) \<Rightarrow> ptr \<Rightarrow> ptr \<Rightarrow> 'c heap \<Rightarrow> fault + ptr \<times> 'c heap" where
  "DL_APPEND set_nxt prv set_prv head add h =
     (if head \<noteq> 0 then
        bind_res (load prv head h) (\<lambda>l.
        bind_res (store add (set_prv l) h) (\<lambda>h1.
        bind_res (load prv head h1) (\<lambda>l1.
        bind_res (block [store l1 (set_nxt add), store head (set_prv add), store add (set_nxt 0)] h1) (\<lambda>h2.
          Inr (head, h2)))))
      else
        bind_res (block [store add (set_prv add), store add (set_nxt 0)] h) (\<lambda>h1. Inr (add, h1)))"

definition DL_CONCAT ::
  "(ptr \<Rightarrow> 'c \<Rightarrow> 'c) \<Rightarrow> ('c \<Rightarrow> ptr) \<Rightarrow> (ptr \<Rightarrow> 'c \<Rightarrow> 'c) \<Rightarrow> ptr \<Rightarrow> ptr \<Rightarrow> 'c heap \<Rightarrow> fault + ptr \<times> 'c heap" where
  "DL_CONCAT set_nxt prv set_prv head1 head2 h =
     (if head2 \<noteq> 0 then
        if head1 \<noteq> 0 then
          bind_res (load prv head2 h) (\<lambda>tmp.
          bind_res (load prv head1 h) (\<lambda>l.
          bind_res (store head2 (set_prv l) h) (\<lambda>h1.
          bind_res (load prv head1 h1) (\<lambda>l1.
          bind_res (block [store l1 (set_nxt head2), store head1 (set_prv tmp)] h1) (\<lambda>h2.
            Inr (head1, h2))))))
        else Inr (head2, h)
      else Inr (head1, h))"

definition DL_DELETE ::
  "('c \<Rightarrow> ptr) \<Rightarrow> (ptr \<Rightarrow> 'c \<Rightarrow> 'c) \<Rightarrow> ('c \<Rightarrow> ptr) \<Rightarrow> (ptr \<Rightarrow> 'c \<Rightarrow> 'c) \<Rightarrow> ptr \<Rightarrow> ptr \<Rightarrow> 'c heap \<Rightarrow>
    fault + ptr \<times> 'c heap" where
  "DL_DELETE nxt set_nxt prv set_prv head del h =
     bind_res (load prv del h) (\<lambda>l.
     bind_res (load nxt del h) (\<lambda>n.
       assert_ptrs [l]
         (if l = del then Inr (0, h)
          else if del = head then
            bind_res (store n (set_prv l) h) (\<lambda>h1. bind_res (load nxt del h1) (\<lambda>n1. Inr (n1, h1)))
          else
            bind_res (store l (set_nxt n) h) (\<lambda>h1.
            bind_res (load nxt del h1) (\<lambda>n1.
            bind_res (if n1 \<noteq> 0 then store n1 (set_prv l) h1 else store head (set_prv l) h1) (\<lambda>h2.
              Inr (head, h2)))))))"

definition DL_REPLACE_ELEM ::
  "('c \<Rightarrow> ptr) \<Rightarrow> (ptr \<Rightarrow> 'c \<Rightarrow> 'c) \<Rightarrow> ('c \<Rightarrow> ptr) \<Rightarrow> (ptr \<Rightarrow> 'c \<Rightarrow> 'c) \<Rightarrow> ptr \<Rightarrow> ptr \<Rightarrow> ptr \<Rightarrow> 'c heap \<Rightarrow>
    fault + ptr \<times> 'c heap" where
  "DL_REPLACE_ELEM nxt set_nxt prv set_prv head el add h =
     assert_ptrs [head, el, add]
       (bind_res (load nxt el h) (\<lambda>n.
        bind_res (load prv el h) (\<lambda>l.
          if head = el then
            bind_res (store add (set_nxt n) h) (\<lambda>h1.
            bind_res
              (if n = 0 then store add (set_prv add) h1
               else block [store add (set_prv l), store n (set_prv add)] h1)
              (\<lambda>h2. Inr (add, h2)))
          else
            bind_res (block [store add (set_nxt n), store add (set_prv l), store l (set_nxt add)] h) (\<lambda>h1.
            bind_res (load nxt el h1) (\<lambda>n1.
            bind_res (if n1 = 0 then store head (set_prv add) h1
                      else bind_res (load nxt add h1) (\<lambda>n2. store n2 (set_prv add) h1)) (\<lambda>h2.
              Inr (head, h2)))))))"

definition DL_PREPEND_ELEM ::
  "(ptr \<Rightarrow> 'c \<Rightarrow> 'c) \<Rightarrow> ('c \<Rightarrow> ptr) \<Rightarrow> (ptr \<Rightarrow> 'c \<Rightarrow> 'c) \<Rightarrow> ptr \<Rightarrow> ptr \<Rightarrow> ptr \<Rightarrow> 'c heap \<Rightarrow> fault + ptr \<times> 'c heap" where
  "DL_PREPEND_ELEM set_nxt prv set_prv head el add h =
     assert_ptrs [head, el, add]
       (bind_res (store add (set_nxt el) h) (\<lambda>h1.
        bind_res (load prv el h1) (\<lambda>l.
        bind_res (block [store add (set_prv l), store el (set_prv add)] h1) (\<lambda>h2.
          if head = el then Inr (add, h2)
          else
            bind_res (load prv add h2) (\<lambda>l1.
            bind_res (store l1 (set_nxt add) h2) (\<lambda>h3. Inr (head, h3)))))))"

definition CDL_PREPEND ::
  "(ptr \<Rightarrow> 'c \<Rightarrow> 'c) \<Rightarrow> ('c \<Rightarrow> ptr) \<Rightarrow> (ptr \<Rightarrow> 'c \<Rightarrow> 'c) \<Rightarrow> ptr \<Rightarrow> ptr \<Rightarrow> 'c heap \<Rightarrow> fault + ptr \<times> 'c heap" where
  "CDL_PREPEND set_nxt prv set_prv head add h =
     bind_res
       (if head \<noteq> 0 then
          bind_res (load prv head h) (\<lambda>l.
          bind_res (block [store add (set_prv l), store add (set_nxt head), store head (set_prv add)] h) (\<lambda>h1.
          bind_res (load prv add h1) (\<lambda>l1. store l1 (set_nxt add) h1)))
        else block [store add (set_prv add), store add (set_nxt add)] h)
       (\<lambda>h2. Inr (add, h2))"

definition CDL_DELETE ::
  "('c \<Rightarrow> ptr) \<Rightarrow> (ptr \<Rightarrow> 'c \<Rightarrow> 'c) \<Rightarrow> ('c \<Rightarrow> ptr) \<Rightarrow> (ptr \<Rightarrow> 'c \<Rightarrow> 'c) \<Rightarrow> ptr \<Rightarrow> ptr \<Rightarrow> 'c heap \<Rightarrow>
    fault + ptr \<times> 'c heap" where
  "CDL_DELETE nxt set_nxt prv set_prv head del h =
     bind_res (if head = del then bind_res (load nxt head h) (\<lambda>n. Inr (n = head)) else Inr False) (\<lambda>single.
       if single then Inr (0, h)
       else
         bind_res (load nxt del h) (\<lambda>n.
         bind_res (load prv del h) (\<lambda>l.
         bind_res (store n (set_prv l) h) (\<lambda>h1.
         bind_res (load prv del h1) (\<lambda>l1.
         bind_res (load nxt del h1) (\<lambda>n1.
         bind_res (store l1 (set_nxt n1) h1) (\<lambda>h2.
           if del = head then bind_res (load nxt del h2) (\<lambda>n2. Inr (n2, h2)) else Inr (head, h2))))))))"

definition CDL_REPLACE_ELEM ::
  "('c \<Rightarrow> ptr) \<Rightarrow> (ptr \<Rightarrow> 'c \<Rightarrow> 'c) \<Rightarrow> ('c \<Rightarrow> ptr) \<Rightarrow> (ptr \<Rightarrow> 'c \<Rightarrow> 'c) \<Rightarrow> ptr \<Rightarrow> ptr \<Rightarrow> ptr \<Rightarrow> 'c heap \<Rightarrow>
    fault + ptr \<times> 'c heap" where
  "CDL_REPLACE_ELEM nxt set_nxt prv set_prv head el add h =
     assert_ptrs [head, el, add]
       (bind_res (load nxt el h) (\<lambda>n.
          if n = el then
            bind_res (block [store add (set_nxt add), store add (set_prv add)] h) (\<lambda>h1. Inr (add, h1))
          else
            bind_res (load prv el h) (\<lambda>l.
            bind_res (block [store add (set_nxt n), store add (set_prv l), store n (set_prv add)] h) (\<lambda>h1.
            bind_res (load prv add h1) (\<lambda>l1.
            bind_res (store l1 (set_nxt add) h1) (\<lambda>h2.
              Inr (if head = el then add else head, h2)))))))"

definition CDL_PREPEND_ELEM ::
  "(ptr \<Rightarrow> 'c \<Rightarrow> 'c) \<Rightarrow> ('c \<Rightarrow> ptr) \<Rightarrow> (ptr \<Rightarrow> 'c \<Rightarrow> 'c) \<Rightarrow> ptr \<Rightarrow> ptr \<Rightarrow> ptr \<Rightarrow> 'c heap \<Rightarrow> fault + ptr \<times> 'c heap" where
  "CDL_PREPEND_ELEM set_nxt prv set_prv head el add h =
     assert_ptrs [head, el, add]
       (bind_res (store add (set_nxt el) h) (\<lambda>h1.
        bind_res (load prv el h1) (\<lambda>l.
        bind_res (block [store add (set_prv l), store el (set_prv add)] h1) (\<lambda>h2.
        bind_res (load prv add h2) (\<lambda>l1.
        bind_res (store l1 (set_nxt add) h2) (\<lambda>h3.
          Inr (if head = el then add else head, h3)))))))"

text \<open>\<^verbatim>\<open>for(el=head;el;el=((el)->next==head ? 0L : (el)->next))\<close>\<close>

partial_function (option) CDL_FOREACH ::
  "('c \<Rightarrow> ptr) \<Rightarrow> ('w \<Rightarrow> 'c heap) \<Rightarrow> (ptr \<Rightarrow> 'w \<Rightarrow> fault + bool \<times> 'w) \<Rightarrow> ptr \<Rightarrow> ptr \<Rightarrow> 'w \<Rightarrow>
    (fault + 'w) option" where
  "CDL_FOREACH nxt heap stmt head el w =
     (if el = 0 then Some (Inr w)
      else (case stmt el w of
              Inl e \<Rightarrow> Some (Inl e)
            | Inr (brk, w') \<Rightarrow>
                if brk then Some (Inr w')
                else (case load nxt el (heap w') of
                        Inl e \<Rightarrow> Some (Inl e)
                      | Inr n \<Rightarrow> CDL_FOREACH nxt heap stmt head (if n = head then 0 else n) w')))"

text \<open>
  \<^verbatim>\<open>CDL_FOREACH_SAFE\<close>: \<^verbatim>\<open>tmp1\<close> is the last cell, read before the loop, \<^verbatim>\<open>tmp2\<close> the next one,
  read before the body.
\<close>

partial_function (option) cdl_foreach_safe ::
  "('c \<Rightarrow> ptr) \<Rightarrow> ('w \<Rightarrow> 'c heap) \<Rightarrow> (ptr \<Rightarrow> 'w \<Rightarrow> fault + bool \<times> 'w) \<Rightarrow> ptr \<Rightarrow> ptr \<Rightarrow> 'w \<Rightarrow>
    (fault + 'w) option" where
  "cdl_foreach_safe nxt heap stmt tmp1 el w =
     (if el = 0 then Some (Inr w)
      else (case bind_res (load nxt el (heap w)) (\<lambda>tmp2. bind_res (stmt el w) (\<lambda>r. Inr (tmp2, r))) of
              Inl e \<Rightarrow> Some (Inl e)
            | Inr (tmp2, brk, w') \<Rightarrow>
                if brk then Some (Inr w')
                else cdl_foreach_safe nxt heap stmt tmp1 (if el = tmp1 then 0 else tmp2) w'))"

definition CDL_FOREACH_SAFE ::
  "('c \<Rightarrow> ptr) \<Rightarrow> ('c \<Rightarrow> ptr) \<Rightarrow> ('w \<Rightarrow> 'c heap) \<Rightarrow> (ptr \<Rightarrow> 'w \<Rightarrow> fault + bool \<times> 'w) \<Rightarrow> ptr \<Rightarrow> 'w \<Rightarrow> fault + 'w"
where
  "CDL_FOREACH_SAFE nxt prv heap stmt head w =
     bind_res (if head \<noteq> 0 then load prv head (heap w) else Inr 0) (\<lambda>tmp1.
       ends (cdl_foreach_safe nxt heap stmt tmp1 head w))"

text \<open>The searches stop at the first cell that satisfies \<open>found\<close>.\<close>

definition cdl_search :: "('c \<Rightarrow> ptr) \<Rightarrow> ('c \<Rightarrow> bool) \<Rightarrow> ptr \<Rightarrow> 'c heap \<Rightarrow> fault + ptr" where
  "cdl_search nxt found head h =
     ends (CDL_FOREACH nxt (\<lambda>_. h)
       (\<lambda>x out. bind_res (deref h x) (\<lambda>c. Inr (found c, if found c then x else out))) head head 0)"

definition CDL_SEARCH_SCALAR :: "('c \<Rightarrow> ptr) \<Rightarrow> ('c \<Rightarrow> 'v) \<Rightarrow> 'v \<Rightarrow> ptr \<Rightarrow> 'c heap \<Rightarrow> fault + ptr" where
  "CDL_SEARCH_SCALAR nxt field val = cdl_search nxt (\<lambda>c. field c = val)"

definition CDL_SEARCH :: "('c \<Rightarrow> ptr) \<Rightarrow> ('c \<Rightarrow> 'v \<Rightarrow> int) \<Rightarrow> 'v \<Rightarrow> ptr \<Rightarrow> 'c heap \<Rightarrow> fault + ptr" where
  "CDL_SEARCH nxt cmp elt = cdl_search nxt (\<lambda>c. cmp c elt = 0)"

text \<open>The loops and the searches of \<^verbatim>\<open>DL_\<close> lists look at \<^verbatim>\<open>next\<close> only.\<close>

definition DL_FOREACH ::
  "('c \<Rightarrow> ptr) \<Rightarrow> ('w \<Rightarrow> 'c heap) \<Rightarrow> (ptr \<Rightarrow> 'w \<Rightarrow> fault + bool \<times> 'w) \<Rightarrow> ptr \<Rightarrow> 'w \<Rightarrow> (fault + 'w) option"
where "DL_FOREACH = LL_FOREACH"

definition DL_FOREACH_SAFE ::
  "('c \<Rightarrow> ptr) \<Rightarrow> ('w \<Rightarrow> 'c heap) \<Rightarrow> (ptr \<Rightarrow> 'w \<Rightarrow> fault + bool \<times> 'w) \<Rightarrow> ptr \<Rightarrow> 'w \<Rightarrow> (fault + 'w) option"
where "DL_FOREACH_SAFE = LL_FOREACH_SAFE"

definition DL_SEARCH_SCALAR :: "('c \<Rightarrow> ptr) \<Rightarrow> ('c \<Rightarrow> 'v) \<Rightarrow> 'v \<Rightarrow> ptr \<Rightarrow> 'c heap \<Rightarrow> fault + ptr" where
  "DL_SEARCH_SCALAR = LL_SEARCH_SCALAR"

definition DL_SEARCH :: "('c \<Rightarrow> ptr) \<Rightarrow> ('c \<Rightarrow> 'v \<Rightarrow> int) \<Rightarrow> 'v \<Rightarrow> ptr \<Rightarrow> 'c heap \<Rightarrow> fault + ptr" where
  "DL_SEARCH = LL_SEARCH"

subsection \<open>On links\<close>

definition double_laws ::
  "('c \<Rightarrow> ptr) \<Rightarrow> (ptr \<Rightarrow> 'c \<Rightarrow> 'c) \<Rightarrow> ('c \<Rightarrow> ptr) \<Rightarrow> (ptr \<Rightarrow> 'c \<Rightarrow> 'c) \<Rightarrow> bool" where
  "double_laws nxt set_nxt prv set_prv \<longleftrightarrow> (\<forall>x c. nxt (set_nxt x c) = x \<and> prv (set_nxt x c) = prv c
     \<and> nxt (set_prv x c) = nxt c \<and> prv (set_prv x c) = x)"

lemma double_links:
  assumes "double_laws nxt sn prv sp"
  shows "links nxt (relink sn p v h) = (links nxt h)(p \<mapsto> v)"
    and "h p \<noteq> None \<Longrightarrow> links prv (relink sn p v h) = links prv h"
    and "links prv (relink sp p v h) = (links prv h)(p \<mapsto> v)"
    and "h p \<noteq> None \<Longrightarrow> links nxt (relink sp p v h) = links nxt h"
  using assms by (simp_all add: double_laws_def links_relink links_relink_other)

fun nback :: "(ptr \<Rightarrow> ptr option) \<Rightarrow> ptr \<Rightarrow> ptr list \<Rightarrow> bool" where
  "nback P a [] \<longleftrightarrow> True"
| "nback P a (x # xs) \<longleftrightarrow> P x = Some a \<and> nback P x xs"

lemma nback_append: "nback P a (xs @ ys) \<longleftrightarrow> nback P a xs \<and> nback P (if xs = [] then a else last xs) ys"
  by (induction xs arbitrary: a) auto

lemma nback_upd [simp]: "x \<notin> set xs \<Longrightarrow> nback (P(x := v)) a xs = nback P a xs"
  by (induction xs arbitrary: a) auto

lemma path_npath: "path nxt h p xs r = npath (links nxt h) p xs r"
  by (induction xs arbitrary: p) (auto simp: links_def)

lemma prevs_nback: "prevs prv h a xs = nback (links prv h) a xs"
  by (induction xs arbitrary: a) (auto simp: links_def)

lemma dl_rep_links: "dl_rep nxt prv h p xs \<longleftrightarrow> npath (links nxt h) p xs 0 \<and> distinct xs
    \<and> nback (links prv h) (last_of xs) xs"
  by (simp add: dl_rep_def path_npath prevs_nback)

lemma cdl_rep_links: "cdl_rep nxt prv h p xs \<longleftrightarrow> (xs = [] \<longrightarrow> p = 0) \<and> npath (links nxt h) p xs p
    \<and> distinct xs \<and> nback (links prv h) (last_of xs) xs"
  by (simp add: cdl_rep_def path_npath prevs_nback)

lemma last_of_snoc [simp]: "last_of (xs @ [x]) = x" "last_of (xs @ x # ys) = last_of (x # ys)"
  by (simp_all add: last_of_def)

lemma last_of_Cons_snoc [simp]: "last_of (y # xs @ [x]) = x" "last_of (y # xs @ x # ys) = last_of (x # ys)"
  by (simp_all add: last_of_def)

lemma last_of_simps [simp]: "last_of [] = 0" "last_of [x] = x" "last_of (x # y # xs) = last_of (y # xs)"
  by (simp_all add: last_of_def)

lemma links_Some: "links sel h x = Some v \<Longrightarrow> h x \<noteq> None"
  by (auto simp: links_def)

lemma npath_cells: "npath (links sel h) p xs r \<Longrightarrow> \<forall>x \<in> set xs. h x \<noteq> None \<and> x \<noteq> 0"
  using npath_mem [of "links sel h" p xs r] by (auto simp: links_None)

lemma rep_cells:
  "dl_rep nxt prv h p xs \<Longrightarrow> \<forall>x \<in> set xs. h x \<noteq> None \<and> x \<noteq> 0"
  "cdl_rep nxt prv h p xs \<Longrightarrow> \<forall>x \<in> set xs. h x \<noteq> None \<and> x \<noteq> 0"
  using npath_cells unfolding dl_rep_links cdl_rep_links by blast+

lemmas run_simps = load_links store_relink assert_ptrs_def npath_append nback_append

subsection \<open>The macros edit lists\<close>

lemma ends_cases [case_names empty one more]:
  obtains "xs = []" | x where "xs = [x]" | x zs l where "xs = x # zs @ [l]"
proof (cases xs)
  case (Cons x ys)
  then show ?thesis using that by (cases ys rule: rev_cases) auto
qed (use that in simp)

text \<open>
  For each macro the list is cut at the element, and the macro runs by simplification in every
  case of how the parts end.
\<close>

lemma DL_prepend:
  assumes laws: "double_laws nxt sn prv sp" and rep: "dl_rep nxt prv h p xs"
    and new: "h a \<noteq> None" "a \<noteq> 0" "a \<notin> set xs"
  shows "edits (dl_rep nxt prv) (insert a (set xs)) h
    (DL_PREPEND sn prv sp p a h) (a # xs)"
  using rep new rep_cells(1) [OF rep]
  by (cases xs rule: ends_cases)
    (auto simp: edits_def DL_PREPEND_def run_simps dl_rep_links double_links [OF laws])

lemma DL_append:
  assumes laws: "double_laws nxt sn prv sp" and rep: "dl_rep nxt prv h p xs"
    and new: "h a \<noteq> None" "a \<noteq> 0" "a \<notin> set xs"
  shows "edits (dl_rep nxt prv) (insert a (set xs)) h
    (DL_APPEND sn prv sp p a h) (xs @ [a])"
  using rep new rep_cells(1) [OF rep]
  by (cases xs rule: ends_cases)
    (auto simp: edits_def DL_APPEND_def run_simps dl_rep_links double_links [OF laws])

lemma DL_concat:
  assumes laws: "double_laws nxt sn prv sp" and rep: "dl_rep nxt prv h p xs" "dl_rep nxt prv h q ys"
    and disj: "set xs \<inter> set ys = {}"
  shows "edits (dl_rep nxt prv) (set (xs @ ys)) h
    (DL_CONCAT sn prv sp p q h) (xs @ ys)"
  using rep disj rep_cells(1) [OF rep(1)] rep_cells(1) [OF rep(2)]
  by (cases xs rule: ends_cases; cases ys rule: ends_cases)
    (auto simp: edits_def DL_CONCAT_def run_simps dl_rep_links double_links [OF laws])

lemma DL_delete:
  assumes laws: "double_laws nxt sn prv sp" and rep: "dl_rep nxt prv h p (as @ x # bs)"
  shows "edits (dl_rep nxt prv) (set (as @ x # bs)) h
    (DL_DELETE nxt sn prv sp p x h) (as @ bs)"
  using rep rep_cells(1) [OF rep]
  by (cases as rule: ends_cases; cases bs rule: ends_cases)
    (auto simp: edits_def DL_DELETE_def run_simps dl_rep_links double_links [OF laws])

lemma DL_replace_elem:
  assumes laws: "double_laws nxt sn prv sp" and rep: "dl_rep nxt prv h p (as @ x # bs)"
    and new: "h a \<noteq> None" "a \<noteq> 0" "a \<notin> set (as @ x # bs)"
  shows "edits (dl_rep nxt prv) (insert a (set (as @ x # bs))) h
    (DL_REPLACE_ELEM nxt sn prv sp p x a h) (as @ a # bs)"
  using rep new rep_cells(1) [OF rep]
  by (cases as rule: ends_cases; cases bs rule: ends_cases)
    (auto simp: edits_def DL_REPLACE_ELEM_def run_simps dl_rep_links double_links [OF laws])

lemma DL_prepend_elem:
  assumes laws: "double_laws nxt sn prv sp" and rep: "dl_rep nxt prv h p (as @ x # bs)"
    and new: "h a \<noteq> None" "a \<noteq> 0" "a \<notin> set (as @ x # bs)"
  shows "edits (dl_rep nxt prv) (insert a (set (as @ x # bs))) h
    (DL_PREPEND_ELEM sn prv sp p x a h) (as @ a # x # bs)"
  using rep new rep_cells(1) [OF rep]
  by (cases as rule: ends_cases; cases bs rule: ends_cases)
    (auto simp: edits_def DL_PREPEND_ELEM_def run_simps dl_rep_links double_links [OF laws])

lemma CDL_prepend:
  assumes laws: "double_laws nxt sn prv sp" and rep: "cdl_rep nxt prv h p xs"
    and new: "h a \<noteq> None" "a \<noteq> 0" "a \<notin> set xs"
  shows "edits (cdl_rep nxt prv) (insert a (set xs)) h
    (CDL_PREPEND sn prv sp p a h) (a # xs)"
  using rep new rep_cells(2) [OF rep]
  by (cases xs rule: ends_cases)
    (auto simp: edits_def CDL_PREPEND_def run_simps cdl_rep_links double_links [OF laws])

lemma CDL_delete:
  assumes laws: "double_laws nxt sn prv sp" and rep: "cdl_rep nxt prv h p (as @ x # bs)"
  shows "edits (cdl_rep nxt prv) (set (as @ x # bs)) h
    (CDL_DELETE nxt sn prv sp p x h) (as @ bs)"
  using rep rep_cells(2) [OF rep]
  by (cases as rule: ends_cases; cases bs rule: ends_cases)
    (auto simp: edits_def CDL_DELETE_def run_simps cdl_rep_links double_links [OF laws])

lemma CDL_replace_elem:
  assumes laws: "double_laws nxt sn prv sp" and rep: "cdl_rep nxt prv h p (as @ x # bs)"
    and new: "h a \<noteq> None" "a \<noteq> 0" "a \<notin> set (as @ x # bs)"
  shows "edits (cdl_rep nxt prv) (insert a (set (as @ x # bs))) h
    (CDL_REPLACE_ELEM nxt sn prv sp p x a h) (as @ a # bs)"
  using rep new rep_cells(2) [OF rep]
  by (cases as rule: ends_cases; cases bs rule: ends_cases)
    (auto simp: edits_def CDL_REPLACE_ELEM_def run_simps cdl_rep_links double_links [OF laws])

lemma CDL_prepend_elem:
  assumes laws: "double_laws nxt sn prv sp" and rep: "cdl_rep nxt prv h p (as @ x # bs)"
    and new: "h a \<noteq> None" "a \<noteq> 0" "a \<notin> set (as @ x # bs)"
  shows "edits (cdl_rep nxt prv) (insert a (set (as @ x # bs))) h
    (CDL_PREPEND_ELEM sn prv sp p x a h) (as @ a # x # bs)"
  using rep new rep_cells(2) [OF rep]
  by (cases as rule: ends_cases; cases bs rule: ends_cases)
    (auto simp: edits_def CDL_PREPEND_ELEM_def run_simps cdl_rep_links double_links [OF laws])

text \<open>
  The circular loop stops where a link leads back to the head. A body that does not end the
  list early and leaves the links of the list alone is run once for each cell, in order.
\<close>

lemma CDL_FOREACH_visits:
  assumes keeps: "\<And>x w w' y. x \<in> set xs \<Longrightarrow> f x w = Inr w' \<Longrightarrow> y \<in> set xs \<Longrightarrow>
      links nxt (heap w') y = links nxt (heap w) y"
    and "npath (links nxt (heap w)) p xs head" "head \<notin> set (tl xs)" "xs \<noteq> []"
  shows "CDL_FOREACH nxt heap (\<lambda>x w. bind_res (f x w) (\<lambda>w'. Inr (False, w'))) head p w = Some (visit f xs w)"
  using assms
proof (induction xs arbitrary: p w)
  case (Cons x xs)
  then obtain n where n: "p = x" "x \<noteq> 0" "links nxt (heap w) x = Some n" "npath (links nxt (heap w)) n xs head"
    by auto
  show ?case
  proof (cases "f x w")
    case (Inl e)
    then show ?thesis using n by (subst CDL_FOREACH.simps) simp
  next
    case (Inr w')
    have same: "\<forall>y \<in> set (x # xs). links nxt (heap w') y = links nxt (heap w) y"
      using Cons.prems(1) [of x w w'] Inr by auto
    then have "npath (links nxt (heap w')) q ys r = npath (links nxt (heap w)) q ys r"
      if "set ys \<subseteq> set xs" for q ys r
      using that by (induction ys arbitrary: q) auto
    then have path: "npath (links nxt (heap w')) n xs head" using n(4) by simp
    have next_cell: "load nxt x (heap w') = Inr n" using same n by (simp add: load_links)
    show ?thesis
    proof (cases "xs = []")
      case True
      then have "n = head" using n by simp
      then show ?thesis using True n Inr next_cell by (subst CDL_FOREACH.simps) (simp add: CDL_FOREACH.simps)
    next
      case False
      then have "n \<noteq> head" using path Cons.prems(3) by (cases xs) auto
      moreover have "CDL_FOREACH nxt heap (\<lambda>x w. bind_res (f x w) (\<lambda>w'. Inr (False, w'))) head n w'
          = Some (visit f xs w')"
        using Cons.prems(1,3) path False by (intro Cons.IH) (cases xs; auto)+
      ultimately show ?thesis using n Inr next_cell by (subst CDL_FOREACH.simps) simp
    qed
  qed
qed simp

definition first_that :: "('c \<Rightarrow> bool) \<Rightarrow> 'c heap \<Rightarrow> ptr list \<Rightarrow> ptr" where
  "first_that found h xs = (case filter (\<lambda>x. found (the (h x))) xs of [] \<Rightarrow> 0 | x # _ \<Rightarrow> x)"

lemma search_circle:
  assumes "npath (links nxt h) p xs head" "head \<notin> set (tl xs)" "xs \<noteq> []"
  shows "CDL_FOREACH nxt (\<lambda>_. h)
      (\<lambda>x out. bind_res (deref h x) (\<lambda>c. Inr (found c, if found c then x else out))) head p out
    = Some (Inr (case filter (\<lambda>x. found (the (h x))) xs of [] \<Rightarrow> out | x # _ \<Rightarrow> x))"
  using assms
proof (induction xs arbitrary: p)
  case (Cons x xs)
  then obtain n where n: "p = x" "x \<noteq> 0" "links nxt h x = Some n" "npath (links nxt h) n xs head" by auto
  then obtain c where c: "h x = Some c" "nxt c = n" by (auto simp: links_def)
  show ?case
  proof (cases "found c \<or> xs = []")
    case True
    then show ?thesis using n c by (subst CDL_FOREACH.simps) (auto simp: load_def CDL_FOREACH.simps [of _ _ _ _ 0])
  next
    case False
    then have "n \<noteq> head" using n(4) Cons.prems(2) by (cases xs) auto
    moreover have "head \<notin> set (tl xs)" using Cons.prems(2) False by (cases xs) auto
    ultimately show ?thesis
      using False n c Cons.IH [OF n(4)] by (subst CDL_FOREACH.simps) (simp add: load_def)
  qed
qed simp

lemma cdl_search_finds:
  assumes "cdl_rep nxt prv h p xs"
  shows "cdl_search nxt found p h = Inr (first_that found h xs)"
proof (cases xs)
  case Nil
  then show ?thesis
    using assms by (simp add: cdl_search_def cdl_rep_links CDL_FOREACH.simps ends_def first_that_def)
next
  case (Cons x ys)
  then have "npath (links nxt h) p xs p" "p \<notin> set (tl xs)" "xs \<noteq> []" using assms by (auto simp: cdl_rep_links)
  from search_circle [OF this, of found 0] show ?thesis by (simp add: cdl_search_def ends_def first_that_def)
qed

text \<open>The safe loop may be given a body that unlinks the cell it is at.\<close>

lemma cdl_foreach_safe_visits:
  assumes "\<And>x w w' y. x \<in> set xs \<Longrightarrow> f x w = Inr w' \<Longrightarrow> y \<in> set xs \<Longrightarrow> y \<noteq> x \<Longrightarrow>
      links nxt (heap w') y = links nxt (heap w) y"
    and "npath (links nxt (heap w)) p xs r" "distinct xs" "xs \<noteq> []"
  shows "cdl_foreach_safe nxt heap (\<lambda>x w. bind_res (f x w) (\<lambda>w'. Inr (False, w'))) (last xs) p w
    = Some (visit f xs w)"
  using assms
proof (induction xs arbitrary: p w)
  case (Cons x xs)
  then obtain n where n: "p = x" "x \<noteq> 0" "links nxt (heap w) x = Some n" "npath (links nxt (heap w)) n xs r"
      "x \<notin> set xs" "distinct xs"
    by auto
  show ?case
  proof (cases "f x w")
    case (Inl e)
    then show ?thesis using n by (subst cdl_foreach_safe.simps) (simp add: load_links)
  next
    case (Inr w')
    have "\<forall>y \<in> set xs. links nxt (heap w') y = links nxt (heap w) y"
      using Cons.prems(1) [of x w w'] Inr n(5) by auto
    then have "npath (links nxt (heap w')) q ys r = npath (links nxt (heap w)) q ys r"
      if "set ys \<subseteq> set xs" for q ys
      using that by (induction ys arbitrary: q) auto
    then have path: "npath (links nxt (heap w')) n xs r" using n(4) by simp
    show ?thesis
    proof (cases "xs = []")
      case True
      then show ?thesis
        using n Inr by (subst cdl_foreach_safe.simps) (simp add: load_links cdl_foreach_safe.simps [of _ _ _ _ 0])
    next
      case False
      then have "x \<noteq> last xs" using n(5) by auto
      moreover have "cdl_foreach_safe nxt heap (\<lambda>x w. bind_res (f x w) (\<lambda>w'. Inr (False, w'))) (last xs) n w'
          = Some (visit f xs w')"
        using Cons.prems(1) path n(6) False by (intro Cons.IH) auto
      ultimately show ?thesis
        using n Inr False by (subst cdl_foreach_safe.simps) (simp add: load_links)
    qed
  qed
qed simp

lemma CDL_FOREACH_SAFE_visits:
  assumes "\<And>x w w' y. x \<in> set xs \<Longrightarrow> f x w = Inr w' \<Longrightarrow> y \<in> set xs \<Longrightarrow> y \<noteq> x \<Longrightarrow>
      links nxt (heap w') y = links nxt (heap w) y"
    and rep: "cdl_rep nxt prv (heap w) p xs"
  shows "CDL_FOREACH_SAFE nxt prv heap (\<lambda>x w. bind_res (f x w) (\<lambda>w'. Inr (False, w'))) p w = visit f xs w"
proof (cases "xs = []")
  case True
  then show ?thesis
    using rep by (simp add: CDL_FOREACH_SAFE_def cdl_rep_links cdl_foreach_safe.simps ends_def)
next
  case False
  then have "p \<noteq> 0" "load prv p (heap w) = Inr (last xs)"
    using rep by (cases xs; auto simp: cdl_rep_links load_links last_of_def)+
  then show ?thesis
    using False rep cdl_foreach_safe_visits [of xs f nxt heap w p p, OF assms(1)]
    by (simp add: CDL_FOREACH_SAFE_def ends_def cdl_rep_links)
qed

lemma dl_rep_ll: "dl_rep nxt prv h p xs \<Longrightarrow> ll_rep nxt h p xs"
  by (simp add: dl_rep_links ll_rep_def ll_list_npath)

lemma DL_SEARCH_finds:
  assumes "dl_rep nxt prv h p xs"
  shows "DL_SEARCH_SCALAR nxt field val p h = Inr (first_that (\<lambda>c. field c = val) h xs)"
    and "DL_SEARCH nxt cmp elt p h = Inr (first_that (\<lambda>c. cmp c elt = 0) h xs)"
proof -
  have "ll_list nxt h p xs" using dl_rep_ll [OF assms] by (simp add: ll_rep_def)
  note search = ll_search_list [OF this]
  show "DL_SEARCH_SCALAR nxt field val p h = Inr (first_that (\<lambda>c. field c = val) h xs)"
    by (simp add: DL_SEARCH_SCALAR_def LL_SEARCH_SCALAR_def ends_def first_that_def search)
  show "DL_SEARCH nxt cmp elt p h = Inr (first_that (\<lambda>c. cmp c elt = 0) h xs)"
    by (simp add: DL_SEARCH_def LL_SEARCH_def ends_def first_that_def search)
qed

lemma CDL_SEARCH_finds:
  assumes "cdl_rep nxt prv h p xs"
  shows "CDL_SEARCH_SCALAR nxt field val p h = Inr (first_that (\<lambda>c. field c = val) h xs)"
    and "CDL_SEARCH nxt cmp elt p h = Inr (first_that (\<lambda>c. cmp c elt = 0) h xs)"
  by (simp_all add: CDL_SEARCH_SCALAR_def CDL_SEARCH_def cdl_search_finds [OF assms])

text \<open>
  Property C29: the macros for doubly linked lists edit lists. On the cells \<open>xs\<close>, which hold
  \<open>x\<close>, and a cell \<open>a\<close> that is not yet linked, none of the six macros faults;
  \<^verbatim>\<open>DL_PREPEND\<close> and \<^verbatim>\<open>DL_APPEND\<close> put \<open>a\<close> at the front and at the end, \<^verbatim>\<open>DL_DELETE\<close> takes out \<open>x\<close>,
  \<^verbatim>\<open>DL_REPLACE_ELEM\<close> puts \<open>a\<close> in its place and \<^verbatim>\<open>DL_PREPEND_ELEM\<close> before it, \<^verbatim>\<open>DL_CONCAT\<close> joins
  \<open>xs\<close> and \<open>ys\<close>. Both links of all cells fit afterwards, the head's \<^verbatim>\<open>prev\<close> is the last cell, and
  only cells of the lists are written.
\<close>

theorem DL_macros_edit:
  assumes laws: "double_laws nxt sn prv sp"
    and xs: "dl_rep nxt prv h p xs" and x: "x \<in> set xs"
    and ys: "dl_rep nxt prv h q ys" "set xs \<inter> set ys = {}"
    and a: "h a \<noteq> None" "a \<noteq> 0" "a \<notin> set xs"
  shows "edits (dl_rep nxt prv) (insert a (set xs)) h (DL_PREPEND sn prv sp p a h) (a # xs)
    \<and> edits (dl_rep nxt prv) (insert a (set xs)) h (DL_APPEND sn prv sp p a h) (xs @ [a])
    \<and> edits (dl_rep nxt prv) (set xs) h (DL_DELETE nxt sn prv sp p x h) (remove1 x xs)
    \<and> edits (dl_rep nxt prv) (insert a (set xs)) h (DL_REPLACE_ELEM nxt sn prv sp p x a h) (put_for [a] x xs)
    \<and> edits (dl_rep nxt prv) (insert a (set xs)) h (DL_PREPEND_ELEM sn prv sp p x a h) (put_for [a, x] x xs)
    \<and> edits (dl_rep nxt prv) (set (xs @ ys)) h (DL_CONCAT sn prv sp p q h) (xs @ ys)"
proof -
  have "distinct xs" using xs by (simp add: dl_rep_def)
  then obtain as bs where cut: "xs = as @ x # bs" "remove1 x xs = as @ bs"
      "\<And>ys. put_for ys x xs = as @ ys @ bs"
    using x by (rule rep_split) auto
  note at_x = xs [unfolded cut(1)] and a_new = a(1,2) a(3) [unfolded cut(1)]
  show ?thesis
    using DL_prepend [OF laws xs a] DL_append [OF laws xs a] DL_delete [OF laws at_x]
      DL_replace_elem [OF laws at_x a_new] DL_prepend_elem [OF laws at_x a_new] DL_concat [OF laws xs ys]
    by (simp add: cut(2,3)) (simp add: cut(1))
qed

text \<open>Cells that are just their two links.\<close>

definition demo_pairs :: "(ptr \<times> ptr) heap" where
  "demo_pairs = [1 \<mapsto> (2, 3), 2 \<mapsto> (3, 1), 3 \<mapsto> (0, 2), 4 \<mapsto> (7, 7), 5 \<mapsto> (0, 5)]"

theorem DL_macros_edit_witness:
  "edits (dl_rep fst snd) {1, 2, 3} demo_pairs
     (DL_DELETE fst (\<lambda>x c. (x, snd c)) snd (\<lambda>x c. (fst c, x)) 1 3 demo_pairs) [1, 2]"
  using DL_macros_edit [of fst "\<lambda>x c. (x, snd c)" snd "\<lambda>x c. (fst c, x)" demo_pairs 1 "[1, 2, 3]" 3 5 "[5]" 4]
  by (simp add: double_laws_def dl_rep_links demo_pairs_def links_def last_of_def)

text \<open>
  The macros for circular lists do so too; they have no append; the last cell links
  back to the head, whichever cell was put in or taken out.
\<close>

theorem CDL_macros_edit:
  assumes laws: "double_laws nxt sn prv sp"
    and xs: "cdl_rep nxt prv h p xs" and x: "x \<in> set xs"
    and a: "h a \<noteq> None" "a \<noteq> 0" "a \<notin> set xs"
  shows "edits (cdl_rep nxt prv) (insert a (set xs)) h (CDL_PREPEND sn prv sp p a h) (a # xs)
    \<and> edits (cdl_rep nxt prv) (set xs) h (CDL_DELETE nxt sn prv sp p x h) (remove1 x xs)
    \<and> edits (cdl_rep nxt prv) (insert a (set xs)) h (CDL_REPLACE_ELEM nxt sn prv sp p x a h) (put_for [a] x xs)
    \<and> edits (cdl_rep nxt prv) (insert a (set xs)) h (CDL_PREPEND_ELEM sn prv sp p x a h) (put_for [a, x] x xs)"
proof -
  have "distinct xs" using xs by (simp add: cdl_rep_def)
  then obtain as bs where cut: "xs = as @ x # bs" "remove1 x xs = as @ bs"
      "\<And>ys. put_for ys x xs = as @ ys @ bs"
    using x by (rule rep_split) auto
  note at_x = xs [unfolded cut(1)] and a_new = a(1,2) a(3) [unfolded cut(1)]
  show ?thesis
    using CDL_prepend [OF laws xs a] CDL_delete [OF laws at_x]
      CDL_replace_elem [OF laws at_x a_new] CDL_prepend_elem [OF laws at_x a_new]
    by (simp add: cut(2,3)) (simp add: cut(1))
qed

theorem CDL_macros_edit_witness:
  "edits (cdl_rep fst snd) {4, 1, 2} [1 \<mapsto> (2, 2), 2 \<mapsto> (1, 1), 4 \<mapsto> (7, 7)]
     (CDL_REPLACE_ELEM fst (\<lambda>x c. (x, snd c)) snd (\<lambda>x c. (fst c, x)) 1 1 4
       [1 \<mapsto> (2, 2), 2 \<mapsto> (1, 1), 4 \<mapsto> (7, 7)]) [4, 2]"
  using CDL_macros_edit [of fst "\<lambda>x c. (x, snd c)" snd "\<lambda>x c. (fst c, x)"
      "[1 \<mapsto> (2, 2), 2 \<mapsto> (1, 1), 4 \<mapsto> (7, 7)]" 1 "[1, 2]" 1 4]
  by (simp add: double_laws_def cdl_rep_links links_def last_of_def put_for_def)

end
