(* ===== verification/Buffer_Test.thy ===== *)
theory Buffer_Test
  imports Buffer
begin

section \<open>The test of the buffers (test_evbuffsock.c)\<close>

text \<open>
  \<^verbatim>\<open>main\<close> of \<^verbatim>\<open>src/test_evbuffsock.c\<close>: five additions with a drain between them, in a buffer that has
  to grow once and to move its bytes once, and the two assertions. The value is the program's
  exit status; an assertion that fails is a fault. It passes, whatever fresh memory holds.
\<close>

text \<open>\<^verbatim>\<open>strncmp(s, t, n) == 0\<close>, on memory from \<open>s\<close> and \<open>t\<close> on.\<close>

fun strncmp_same :: "nat \<Rightarrow> byte list \<Rightarrow> byte list \<Rightarrow> fault + bool" where
  "strncmp_same 0 s t = Inr True"
| "strncmp_same (Suc n) (a # s) (b # t) =
     (if a \<noteq> b then Inr False else if a = 0 then Inr True else strncmp_same n s t)"
| "strncmp_same (Suc n) s t = Inl Out_of_bounds"

definition test_evbuffsock_main :: "(nat \<Rightarrow> byte) \<Rightarrow> fault + int" where
  "test_evbuffsock_main j =
     bind_res (buffer_add_void j (bytes_of ''asdf'') 4 (new_buffer j 16 64)) (\<lambda>b1.
     bind_res (buffer_add_void j (bytes_of ''1234567890'') 10 b1) (\<lambda>b2.
     bind_res (buffer_add_void j (bytes_of ''ghjk'') 4 b2) (\<lambda>b3.
     bind_res (buffer_add_void j (bytes_of ''1234567890'') 10 (buffer_drain 8 b3)) (\<lambda>b4.
     bind_res (buffer_add_void j (bytes_of ''!@#$%^'') 6 b4) (\<lambda>b.
       if blength b \<noteq> 32 then Inl Assertion_failed
       else
         bind_res (strncmp_same (offset b) (bytes_of ''567890ghjk1234567890!@#$%^'' @ [0]) (drop (data b) (orig b)))
           (\<lambda>same. if same then Inr 0 else Inl Assertion_failed))))))"

lemma strncmp_same_prefix:
  "length bs = n \<Longrightarrow> strncmp_same n (bs @ s) (bs @ t) = Inr True"
  by (induction bs arbitrary: n) auto

definition buffer_is :: "byte list \<Rightarrow> nat \<Rightarrow> nat \<Rightarrow> buffer \<Rightarrow> bool" where
  "buffer_is bs d n b \<longleftrightarrow> wf_buffer b \<and> contents b = bs \<and> data b = d \<and> blength b = n \<and> capacity b = 64"


lemma add_after_room:
  assumes b: "buffer_is bs d n b" and room: "make_room j len b = Inr (b1, 1)" "buffer_is bs d1 n1 b1"
    and src: "len \<le> length src" and space: "d1 + length bs + len \<le> n1"
  shows "\<exists>b'. buffer_add_void j src len b = Inr b' \<and> buffer_is (bs @ take len src) d1 n1 b'"
proof -
  have wf: "wf_buffer b" "wf_buffer b1" and len: "len < 2 ^ 31" and o: "offset b1 = length bs"
    using b room space length_contents [of b1] by (auto simp: buffer_is_def wf_buffer_def)
  show ?thesis
    using room src space o append_copy [OF wf(2), of "take len src"]
    by (auto simp: buffer_add_void_def buffer_add_eq [OF wf(1) len] buffer_is_def mem_read_def)
qed

lemma add_need_is: "buffer_is bs d n b \<Longrightarrow> add_need len b = d + length bs + len - n"
  using length_contents [of b] by (auto simp: buffer_is_def add_need_def)

lemma add_in_place:
  assumes "buffer_is bs d n b" and "len \<le> length src" and "d + length bs + len \<le> n"
  shows "\<exists>b'. buffer_add_void j src len b = Inr b' \<and> buffer_is (bs @ take len src) d n b'"
  using add_after_room [OF assms(1) _ assms] add_need_is [OF assms(1), of len] assms(3)
  by (simp add: make_room_def)

lemma add_moves:
  assumes b: "buffer_is bs d n b" and src: "len \<le> length src"
    and over: "n < d + length bs + len" and fits: "length bs + len \<le> n"
  shows "\<exists>b'. buffer_add_void j src len b = Inr b' \<and> buffer_is (bs @ take len src) 0 n b'"
proof -
  have wf: "wf_buffer b" and need: "0 < add_need len b" "add_need len b \<le> data b"
    using b over fits add_need_is [OF b, of len] by (auto simp: buffer_is_def)
  obtain b1 where "make_room j len b = Inr (b1, 1)" "buffer_is bs 0 n b1"
    using buffer_expand_realign [OF wf need(2), of j] need(1) b by (auto simp: make_room_def buffer_is_def)
  from add_after_room [OF b this src] fits show ?thesis by simp
qed

lemma add_grows:
  assumes b: "buffer_is bs d n b" and src: "len \<le> length src"
    and over: "n < length bs + len" and grow: "grow n (d + length bs + len - n) = Some x"
    and fits: "d + length bs + len \<le> n + x" "n + x \<le> 64" "d + length bs + len \<le> n + 2 ^ 31"
  shows "\<exists>b'. buffer_add_void j src len b = Inr b' \<and> buffer_is (bs @ take len src) d (n + x) b'"
proof -
  have wf: "wf_buffer b" and need: "data b < add_need len b" "add_need len b \<le> 2 ^ 31"
    and grown: "grown (add_need len b) b = n + x"
    using b over fits(3) grow add_need_is [OF b, of len] by (auto simp: buffer_is_def grown_def)
  obtain b1 where "make_room j len b = Inr (b1, 1)" "buffer_is bs d (n + x) b1"
    using buffer_expand_grows [OF wf need, of j] need(1) b fits(2)
    by (auto simp: make_room_def buffer_is_def grown)
  from add_after_room [OF b this src fits(1)] show ?thesis .
qed

text \<open>The third addition grows the block from 16 to 32 bytes, the last one moves the bytes down.\<close>

theorem test_evbuffsock_passes: "test_evbuffsock_main j = Inr 0"
proof -
  have b0: "buffer_is [] 0 16 (new_buffer j 16 64)"
    by (simp add: buffer_is_def wf_new_buffer) (simp add: new_buffer_def)
  obtain b1 where b1: "buffer_add_void j (bytes_of ''asdf'') 4 (new_buffer j 16 64) = Inr b1"
      "buffer_is (bytes_of ''asdf'') 0 16 b1"
    using add_in_place [OF b0, of 4 "bytes_of ''asdf''" j] by (auto simp: bytes_of_def)
  obtain b2 where b2: "buffer_add_void j (bytes_of ''1234567890'') 10 b1 = Inr b2"
      "buffer_is (bytes_of ''asdf1234567890'') 0 16 b2"
    using add_in_place [OF b1(2), of 10 "bytes_of ''1234567890''" j] by (auto simp: bytes_of_def)
  have "grow 16 2 = Some 16" by (subst grow.simps) simp
  then obtain b3 where b3: "buffer_add_void j (bytes_of ''ghjk'') 4 b2 = Inr b3"
      "buffer_is (bytes_of ''asdf1234567890ghjk'') 0 32 b3"
    using add_grows [OF b2(2), of 4 "bytes_of ''ghjk''" 16 j] by (auto simp: bytes_of_def)
  have "buffer_is (bytes_of ''567890ghjk'') 8 32 (buffer_drain 8 b3)"
    using b3(2) length_contents [of b3] wf_buffer_drain [of b3 8]
    by (auto simp: buffer_is_def contents_buffer_drain bytes_of_def) (simp add: buffer_drain_def)
  then obtain b4 where b4: "buffer_add_void j (bytes_of ''1234567890'') 10 (buffer_drain 8 b3) = Inr b4"
      "buffer_is (bytes_of ''567890ghjk1234567890'') 8 32 b4"
    using add_in_place [where src = "bytes_of ''1234567890''" and len = 10 and j = j] by (fastforce simp: bytes_of_def)
  obtain b5 where b5: "buffer_add_void j (bytes_of ''!@#$%^'') 6 b4 = Inr b5"
      "buffer_is (bytes_of ''567890ghjk1234567890!@#$%^'') 0 32 b5"
    using add_moves [OF b4(2), of 6 "bytes_of ''!@#$%^''" j] by (auto simp: bytes_of_def)
  let ?bs = "bytes_of ''567890ghjk1234567890!@#$%^''"
  have held: "contents b5 = ?bs" and n: "length ?bs = offset b5"
    using b5(2) length_contents [of b5] by (simp_all only: buffer_is_def)
  have "drop (data b5) (orig b5) = ?bs @ drop (offset b5) (drop (data b5) (orig b5))"
    using append_take_drop_id [of "offset b5" "drop (data b5) (orig b5)"] held by (simp only: contents_def)
  from arg_cong [OF this, of "strncmp_same (offset b5) (?bs @ [0])"]
  have "strncmp_same (offset b5) (?bs @ [0]) (drop (data b5) (orig b5)) = Inr True"
    by (simp only: strncmp_same_prefix [OF n])
  then show ?thesis
    using b1(1) b2(1) b3(1) b4(1) b5 by (simp add: test_evbuffsock_main_def buffer_is_def)
qed

end
