(* ===== verification/Spec2Isabelle.thy ===== *)
theory Spec2Isabelle
  imports Command_Decode Safety Endpoints Flow Test_Program Discovery Utlist_Double Buffer_Test
begin

text \<open>
  A verification development of libnsq, a C client library for the NSQ message queue
  (\<^verbatim>\<open>src/\<close>).

  \<^bold>\<open>The program.\<close> A reader (\<^verbatim>\<open>reader.c\<close>) subscribes to a topic. It opens connections to nsqd
  servers (\<^verbatim>\<open>nsqd_connection.c\<close>), given by the caller or learnt from lookupd servers
  (\<^verbatim>\<open>nsqlookupd.c\<close>) that it polls over HTTP (\<^verbatim>\<open>http.c\<close>, \<^verbatim>\<open>json.c\<close>). A connection sits on a
  buffered socket (\<^verbatim>\<open>buffered_socket.c\<close>), which sits on two byte buffers (\<^verbatim>\<open>buffer.c\<close>); what it
  sends is written by \<^verbatim>\<open>command.c\<close>, what it receives is cut into frames and decoded by
  \<^verbatim>\<open>message.c\<close>. The lists of connections and endpoints are the macros of \<^verbatim>\<open>utlist.h\<close>.
  Everything runs as callbacks of one libev loop, in one thread.

  \<^bold>\<open>How it is modelled.\<close> Shallowly: each C function is a HOL function of the same name on an
  explicit state. A byte is a \<open>8 word\<close>, a frame size and type a \<open>32 word\<close>; \<open>size_t\<close> and
  \<open>int32_t\<close> arithmetic is written out with its wrap-around where it matters. The state
  (\<open>nsq_world\<close> of Nsq_Types, an extension of \<open>sock_world\<close> of Buffered_Socket) is a heap of
  sockets, of connections, of endpoints, of HTTP requests, responses and sockets, the one
  reader, \<^verbatim>\<open>errno\<close>, the address of the next allocation, the contents of fresh memory, and the
  history of the calls to code outside the repository. Address 0 is the null pointer; freed
  cells become \<open>None\<close> and no address is used twice. A place where C has no defined behaviour
  is a value: a \<open>fault\<close>. Statements are sequenced with \<open>bind_res\<close> and \<open>block\<close>, which stop at
  the first fault. Loops are structural recursions, except the doubling loop of
  \<^verbatim>\<open>buffer_expand\<close> and the list macros, which are partial functions into \<open>option\<close>: there
  termination is a theorem (\<open>grow_returns_iff\<close>) or follows from the list being well formed.
  No fuel is used.

  \<^bold>\<open>Parameters.\<close> What is not in the repository is an argument: what the system calls answer
  (\<open>connect_env\<close>, \<open>connected_env\<close>, \<open>read_env\<close>, \<open>poll_env\<close> and the result of \<^verbatim>\<open>send\<close>), the JSON
  library (jansson or json-c, \<open>backend\<close> of Json; the callers see \<open>json_lib\<close>), what libcurl calls
  back, and the application's callbacks (\<open>application\<close>). libcurl calls back from
  \<^verbatim>\<open>curl_multi_socket_action\<close> (\<open>curl_run\<close>), \<^verbatim>\<open>curl_multi_add_handle\<close> (\<open>add_handle_calls\<close>) and
  \<^verbatim>\<open>curl_multi_cleanup\<close>, any number of times and in any order, but not from
  \<^verbatim>\<open>curl_multi_remove_handle\<close>. Of libev the model keeps what it documents: an event comes only from a
  watcher or timer that was started and not stopped since (External, \<open>enabled\<close> in Event_Loop).

  \<^bold>\<open>The theories.\<close>
  \<^item> Prelude: bytes, faults, sequencing, memory blocks, C integers, network byte order.
  \<^item> Byte_Queue: the locales \<open>byte_queue\<close> and \<open>lossy_queue\<close>, the contract between a buffer and
    its users.
  \<^item> Buffer: \<^verbatim>\<open>buffer.c\<close>, and that it meets the contract (refinement of a FIFO of bytes).
  \<^item> Command, Command_Decode: \<^verbatim>\<open>command.c\<close>, the wire format of every command, and an
    independent decoder that reads any sequence of commands back.
  \<^item> Message: \<^verbatim>\<open>message.c\<close> against the layout of a message.
  \<^item> External: libev, descriptors and application calls as a history.
  \<^item> Buffered_Socket, Socket_Inv: \<^verbatim>\<open>buffered_socket.c\<close>, its invariant, and the locale
    \<open>socket_client\<close>, the contract of the callbacks it makes.
  \<^item> Nsq_Types, Connection: the structures of \<^verbatim>\<open>nsq.h\<close> and \<^verbatim>\<open>nsqd_connection.c\<close>.
  \<^item> Utlist: \<^verbatim>\<open>LL_APPEND\<close>, \<^verbatim>\<open>LL_DELETE\<close>, \<^verbatim>\<open>LL_FOREACH\<close> on a heap of cells; the locale
    \<open>next_field\<close> gives their effect on the list that the heap represents.
  \<^item> Utlist_Sort: the merge sorts \<^verbatim>\<open>LL_SORT\<close>, \<^verbatim>\<open>DL_SORT\<close> and \<^verbatim>\<open>CDL_SORT\<close>, first on lists of
    addresses (a pass merges neighbouring runs), then that the macros do the same in place.
  \<^item> Utlist_More, Utlist_Double: all other macros of \<^verbatim>\<open>utlist.h\<close>, for singly linked, doubly
    linked and circular lists, against the operations on lists (\<open>edits\<close>).
  \<^item> Buffer_Test: the program of \<^verbatim>\<open>test_evbuffsock.c\<close>, which passes.
  \<^item> Json: the wrappers of \<^verbatim>\<open>json.c\<close> for both libraries, the values of a JSON document, and what each
    library documents to read of one (\<open>backend_reads\<close>); what they give for values of another type
    differs and is left open.
  \<^item> Http: \<^verbatim>\<open>http.c\<close>: the callbacks between libcurl and libev, requests, responses, the client.
  \<^item> Reader: \<^verbatim>\<open>reader.c\<close>, \<^verbatim>\<open>nsqlookupd.c\<close>, and the program of \<^verbatim>\<open>test.c\<close>.
  \<^item> Reader_Inv, Reader_Client, Reader_Ops: the invariant of the whole program (\<open>net_inv\<close>) and
    that every operation keeps it; the reader is interpreted as a \<open>socket_client\<close>.
  \<^item> Event_Loop: events, the step relation and the reachable states.
  \<^item> Frames, Delivery: the frame reader against a parser of the byte stream, for any owner
    that meets the contract \<open>frame_client\<close>; the reader meets it (\<open>reader_frames\<close>);
    schedules of events.
  \<^item> Wire, Session: what goes out on a connection; from the call that connects to the last
    message, on a concrete session too.
  \<^item> Lifecycle: connects that fail, connections that are lost, the reconnect timer.
  \<^item> Lookupd: the poll timer and the answer of a lookupd, also that both JSON libraries give the
    same effects for an answer that lists its peers as documented.
  \<^item> Discovery: from the pieces that libcurl hands over to the connections that are dialled.
  \<^item> Http_Watchers: libev watches the HTTP client's sockets, those that are allocated and no
    others, in every reachable state, and after any sequence of libcurl's requests in an event
    exactly those that were asked for.
  \<^item> Safety: the invariant read off every reachable state.
  \<^item> Endpoints: adding and releasing endpoints, and the calls that fault.
  \<^item> Flow: output leaves in the order it was queued; what the fixed buffer sizes cost.
  \<^item> Frame_Rule, Interleaving: an event of one connection leaves every other alone, so that
    any interleaving of the events of any number of connections delivers on each what its
    own stream spells.
  \<^item> Steady, Steady_Run: the events of a connection, and dialling, leave all other connections in
    order and the client of lookupd alone.
  \<^item> Direct_Run: a reader that only dials nsqd directly never faults, over whole runs
    of connects, failures, losses and reconnects.
  \<^item> Web_Client, Lookup_Run: what the HTTP client does leaves the connections alone; a reader that
    only knows lookupds never faults, over whole runs of polls, answers and connections.
  \<^item> Test_Program: \<^verbatim>\<open>main\<close> of test.c.

  \<^bold>\<open>Bounds.\<close> The lengths and capacities of a configuration are below \<open>2 ^ 31\<close> (\<open>cfg_small\<close>):
  above, \<^verbatim>\<open>buffer_add\<close> overflows its \<open>int32_t\<close>, which is a theorem of its own.
  \<^verbatim>\<open>max_in_flight\<close> is a C \<open>int\<close> (\<open>int_range\<close>). Sorting is proved for up to \<open>2 ^ 30\<close> cells; beyond,
  the run length overflows its \<^verbatim>\<open>int\<close> (the fault \<open>Int_overflow\<close>). The body of an answer is below
  \<open>2 ^ 28\<close> bytes where it is followed piece by piece.

  \<^bold>\<open>Not modelled.\<close> Allocation that fails: \<^verbatim>\<open>malloc\<close>, \<^verbatim>\<open>realloc\<close> and \<^verbatim>\<open>strdup\<close> always give a
  block, so the assert of \<^verbatim>\<open>nsq_multi_publish\<close> holds. The indeterminate contents of the fields that
  \<^verbatim>\<open>new_nsqd_connection\<close> does not set (they are 0). The easy handle that \<^verbatim>\<open>sock_cb\<close> stores in a
  socket, which nothing reads. A macro of \<^verbatim>\<open>utlist.h\<close> whose argument is the head that it reassigns: arguments
  are values. The contents of memory after \<^verbatim>\<open>free\<close>; the debug output; of \<^verbatim>\<open>json.c\<close> the
  functions that only manage the memory of the JSON library (\<^verbatim>\<open>nsq_json_tokener_new\<close>,
  \<^verbatim>\<open>nsq_json_tokener_free\<close>, \<^verbatim>\<open>nsq_json_decref\<close>); the casts that \<^verbatim>\<open>utlist.h\<close> needs on compilers
  without \<^verbatim>\<open>typeof\<close>; the prototypes in the headers. The reader is a single one, as in the
  programs that use it, and so is its HTTP client.
  What is delivered under interleaving is proved for connections that are established. With
  connects, failures and reconnects of any connections mixed in, Direct_Run proves for readers
  without lookupd, and Lookup_Run for readers that only know lookupds, that nothing faults; the
  invariant holds after any events of any reader. A reader that dials directly and gets an
  endpoint later does fault (\<open>first_endpoint_dangles\<close>).
\<close>

end
